(* ===== verification/Prelude.thy ===== *)
theory Prelude
  imports Main "HOL-Library.Word"
begin

section \<open>Shared types, collections and lemmas\<close>

text \<open>
  The vocabulary of the development: the machine integer types of the C++
  sources as words, the collections the component theories fill, and the
  generic lemmas on words and lists that several components use.

  Unsigned 64-bit quantities (counters, clock readings) are kept at their
  width, so that wrap-around is visible.  Sizes and indices of containers are
  natural numbers.  A C++ \<open>int\<close> whose overflow would be undefined
  behaviour is a mathematical integer.
\<close>

type_synonym u8 = "8 word"
type_synonym u16 = "16 word"
type_synonym u32 = "32 word"
type_synonym u64 = "64 word"

named_theorems op_defs \<open>definitions of the operations of a component\<close>
named_theorems kept \<open>facts that an operation leaves a part of the state as it was\<close>

subsection \<open>Running a deterministic machine over a list of events\<close>

fun run :: "('s \<Rightarrow> 'e \<Rightarrow> 's) \<Rightarrow> 's \<Rightarrow> 'e list \<Rightarrow> 's" where
  "run f s [] = s"
| "run f s (e # es) = run f (f s e) es"

lemma run_append [simp]: "run f s (es @ fs) = run f (run f s es) fs"
  by (induction es arbitrary: s) auto

lemma run_invariant:
  assumes "I s" and "\<And>s e. I s \<Longrightarrow> I (f s e)"
  shows "I (run f s es)"
  using assms(1) by (induction es arbitrary: s) (auto intro: assms(2))

lemma run_preserves:
  assumes "\<And>s e. g (f s e) = g s"
  shows "g (run f s es) = g s"
  by (induction es arbitrary: s) (auto simp: assms)

subsection \<open>Words\<close>

lemma unat_Suc_word:
  fixes w :: "'a::len word"
  assumes "w \<noteq> - 1"
  shows "unat (w + 1) = Suc (unat w)"
proof -
  have "1 + w \<noteq> 0"
    using assms by (metis add.commute add_eq_0_iff)
  then show ?thesis
    by (metis add.commute unatSuc)
qed

lemma unat_ucast_u32_u64 [simp]: "unat (ucast (w :: u32) :: u64) = unat w"
proof -
  have "unat w < 2 ^ LENGTH(32)"
    by (rule unsigned_less)
  then have "unat w < 2 ^ 64"
    by simp
  then show ?thesis
    by (simp add: unsigned_ucast_eq take_bit_nat_eq_self)
qed

lemma bit_u32_beyond [simp]: "\<not> bit (w :: u32) (32 + n)"
  by (auto dest: bit_imp_le_length)

lemma less_imp_not_max_word: "(v :: 'a::len word) < t \<Longrightarrow> v \<noteq> - 1"
  by (metis leD word_n1_ge)

lemma unat_max_u64: "unat (- 1 :: u64) = 2 ^ 64 - 1"
  by (simp add: unsigned_minus_1_eq_mask mask_eq_exp_minus_1)

lemma unat_of_nat_small: "n < 2 ^ LENGTH('a) \<Longrightarrow> unat (of_nat n :: 'a::len word) = n"
  by (simp add: unsigned_of_nat take_bit_nat_eq_self)

end
