(* ===== verification/CircuitBreaker.thy ===== *)
theory CircuitBreaker
  imports Prelude
begin

unbundle bit_operations_syntax

section \<open>Circuit breaker\<close>

text \<open>
  Model of \<open>CircuitBreaker\<close> (include/coropact/gateway/circuit\_breaker.h):
  the state word with its three public states and three transition locks, the
  packed CLOSED counters, and the three operations as one uninterrupted call
  each.  A clock reading \<open>NowMs()\<close> is an argument of the operation that
  takes it.  The theory \<open>BreakerThreads\<close> runs the same operations one
  atomic access at a time.
\<close>

datatype CircuitBreakerState = kClosed | kOpen | kHalfOpen

datatype state_int = kClosedInt | kOpenInt | kHalfOpenInt
  | kTransitioningToOpenInt | kTransitioningToHalfOpenInt | kTransitioningToClosedInt

record CircuitBreakerConfig =
  failure_threshold :: int
  success_threshold :: int
  open_timeout :: int
  half_open_max_requests :: int

record CircuitBreaker =
  cb_cfg :: CircuitBreakerConfig
  state_word :: state_int
  closed_counts :: u64
  half_open_success_count :: u64
  half_open_requests :: u64
  half_open_probe_ms :: u64
  open_entered_ms :: u64
  transition_count :: u64

definition new_CircuitBreaker :: "CircuitBreakerConfig \<Rightarrow> CircuitBreaker" where
  "new_CircuitBreaker cfg = \<lparr>cb_cfg = cfg, state_word = kClosedInt, closed_counts = 0,
     half_open_success_count = 0, half_open_requests = 0, half_open_probe_ms = 0,
     open_entered_ms = 0, transition_count = 0\<rparr>"

subsection \<open>Packed counters and thresholds\<close>

definition PackClosedCounts :: "u32 \<Rightarrow> u32 \<Rightarrow> u64" where
  "PackClosedCounts failures successes = (push_bit 32 (ucast failures)) OR (ucast successes)"

definition ClosedFailures :: "u64 \<Rightarrow> u32" where
  "ClosedFailures counts = ucast (drop_bit 32 counts)"

definition ClosedSuccesses :: "u64 \<Rightarrow> u32" where
  "ClosedSuccesses counts = ucast counts"

definition SaturatingIncrement :: "u32 \<Rightarrow> u32" where
  "SaturatingIncrement v = (if v = - 1 then v else v + 1)"

definition FailureThreshold :: "CircuitBreakerConfig \<Rightarrow> u32" where
  "FailureThreshold cfg = (if failure_threshold cfg > 0 then word_of_int (failure_threshold cfg) else 1)"

definition SuccessThreshold :: "CircuitBreakerConfig \<Rightarrow> u32" where
  "SuccessThreshold cfg = (if success_threshold cfg > 0 then word_of_int (success_threshold cfg) else 1)"

definition open_timeout_u64 :: "CircuitBreakerConfig \<Rightarrow> u64" where
  "open_timeout_u64 cfg = word_of_int (open_timeout cfg)"

definition half_open_limit :: "CircuitBreakerConfig \<Rightarrow> u64" where
  "half_open_limit cfg = word_of_int (half_open_max_requests cfg)"

text \<open>The range of the C++ field types (\<open>int\<close>, and a 64-bit millisecond count).\<close>

definition cfg_ok :: "CircuitBreakerConfig \<Rightarrow> bool" where
  "cfg_ok cfg \<longleftrightarrow> failure_threshold cfg < 2 ^ 31 \<and> success_threshold cfg < 2 ^ 31
     \<and> - (2 ^ 31) \<le> half_open_max_requests cfg \<and> half_open_max_requests cfg < 2 ^ 31
     \<and> 0 \<le> open_timeout cfg \<and> open_timeout cfg < 2 ^ 63"

subsection \<open>Diagnostics\<close>

definition state_of :: "CircuitBreaker \<Rightarrow> CircuitBreakerState" where
  "state_of cb = (case state_word cb of
      kTransitioningToOpenInt \<Rightarrow> kOpen
    | kTransitioningToHalfOpenInt \<Rightarrow> kOpen
    | kTransitioningToClosedInt \<Rightarrow> kHalfOpen
    | kClosedInt \<Rightarrow> kClosed | kOpenInt \<Rightarrow> kOpen | kHalfOpenInt \<Rightarrow> kHalfOpen)"

definition failure_count :: "CircuitBreaker \<Rightarrow> u64" where
  "failure_count cb = ucast (ClosedFailures (closed_counts cb))"

subsection \<open>The operations\<close>

text \<open>The stores a thread makes between winning a transition and publishing it.\<close>

definition publish_half_open :: "CircuitBreaker \<Rightarrow> CircuitBreaker" where
  "publish_half_open cb = cb\<lparr>half_open_requests := 0, half_open_success_count := 0,
     half_open_probe_ms := 0, transition_count := transition_count cb + 1,
     state_word := kHalfOpenInt\<rparr>"

definition publish_open :: "u64 \<Rightarrow> CircuitBreaker \<Rightarrow> CircuitBreaker" where
  "publish_open now cb = cb\<lparr>open_entered_ms := now, half_open_success_count := 0,
     half_open_requests := 0, half_open_probe_ms := 0,
     transition_count := transition_count cb + 1, state_word := kOpenInt\<rparr>"

definition publish_closed :: "CircuitBreaker \<Rightarrow> CircuitBreaker" where
  "publish_closed cb = cb\<lparr>closed_counts := 0, half_open_success_count := 0,
     half_open_requests := 0, half_open_probe_ms := 0,
     transition_count := transition_count cb + 1, state_word := kClosedInt\<rparr>"

definition AllowHalfOpen :: "u64 \<Rightarrow> CircuitBreaker \<Rightarrow> bool \<times> CircuitBreaker" where
  "AllowHalfOpen now cb =
     (let slot = half_open_requests cb;
          cb1 = cb\<lparr>half_open_requests := slot + 1\<rparr> in
      if slot < half_open_limit (cb_cfg cb) then (True, cb1\<lparr>half_open_probe_ms := now\<rparr>)
      else if 0 < open_timeout (cb_cfg cb)
              \<and> open_timeout_u64 (cb_cfg cb) \<le> now - half_open_probe_ms cb1
           then (False, publish_open now cb1)
           else (False, cb1))"

definition AllowRequest :: "u64 \<Rightarrow> u64 \<Rightarrow> CircuitBreaker \<Rightarrow> bool \<times> CircuitBreaker" where
  "AllowRequest now now' cb =
     (case state_word cb of
        kClosedInt \<Rightarrow> (True, cb)
      | kOpenInt \<Rightarrow>
          if now - open_entered_ms cb < open_timeout_u64 (cb_cfg cb) then (False, cb)
          else AllowHalfOpen now' (publish_half_open cb)
      | kHalfOpenInt \<Rightarrow> AllowHalfOpen now' cb
      | _ \<Rightarrow> (False, cb))"

definition OnSuccess :: "CircuitBreaker \<Rightarrow> CircuitBreaker" where
  "OnSuccess cb =
     (case state_word cb of
        kClosedInt \<Rightarrow>
          (let failures = ClosedFailures (closed_counts cb);
               successes = SaturatingIncrement (ClosedSuccesses (closed_counts cb)) in
           if SuccessThreshold (cb_cfg cb) \<le> successes
           then cb\<lparr>closed_counts := PackClosedCounts 0 0\<rparr>
           else cb\<lparr>closed_counts := PackClosedCounts failures successes\<rparr>)
      | kHalfOpenInt \<Rightarrow>
          (let n = half_open_success_count cb + 1;
               cb1 = cb\<lparr>half_open_success_count := n\<rparr> in
           if ucast (SuccessThreshold (cb_cfg cb)) \<le> n then publish_closed cb1 else cb1)
      | _ \<Rightarrow> cb)"

definition OnFailure :: "u64 \<Rightarrow> CircuitBreaker \<Rightarrow> CircuitBreaker" where
  "OnFailure now cb =
     (case state_word cb of
        kHalfOpenInt \<Rightarrow> publish_open now cb
      | kClosedInt \<Rightarrow>
          (let failures = SaturatingIncrement (ClosedFailures (closed_counts cb));
               cb1 = cb\<lparr>closed_counts := PackClosedCounts failures 0\<rparr> in
           if FailureThreshold (cb_cfg cb) \<le> failures then publish_open now cb1 else cb1)
      | _ \<Rightarrow> cb)"

lemmas cb_op_defs [op_defs] = AllowRequest_def AllowHalfOpen_def OnSuccess_def OnFailure_def
  publish_half_open_def publish_open_def publish_closed_def

text \<open>A call of the breaker, and a history of calls.\<close>

datatype cb_event = Allow u64 u64 | Success | Failure u64

fun cb_step :: "CircuitBreaker \<Rightarrow> cb_event \<Rightarrow> CircuitBreaker" where
  "cb_step cb (Allow now now') = snd (AllowRequest now now' cb)"
| "cb_step cb Success = OnSuccess cb"
| "cb_step cb (Failure now) = OnFailure now cb"

abbreviation cb_run :: "CircuitBreaker \<Rightarrow> cb_event list \<Rightarrow> CircuitBreaker" where
  "cb_run \<equiv> run cb_step"

subsection \<open>The documented state machine, as a specification\<close>

text \<open>
  The machine of the class comment, over unbounded numbers and with no packing:
  CLOSED carries the failure score and the success streak, OPEN the time it was
  entered, HALF\_OPEN the slots claimed, the successes seen and the time of the
  last admitted probe.
\<close>

datatype spec_state = SClosed nat nat | SOpen nat | SHalfOpen nat nat nat

record spec_cfg =
  trip_at :: nat
  recover_at :: nat
  timeout_ms :: nat
  probes :: nat

definition spec_cfg_of :: "CircuitBreakerConfig \<Rightarrow> spec_cfg" where
  "spec_cfg_of cfg = \<lparr>trip_at = max 1 (nat (failure_threshold cfg)),
     recover_at = max 1 (nat (success_threshold cfg)),
     timeout_ms = nat (open_timeout cfg), probes = unat (half_open_limit cfg)\<rparr>"

fun spec_probe :: "spec_cfg \<Rightarrow> nat \<Rightarrow> nat \<Rightarrow> nat \<Rightarrow> nat \<Rightarrow> bool \<times> spec_state" where
  "spec_probe c now used ok at =
     (if used < probes c then (True, SHalfOpen (used + 1) ok now)
      else if 0 < timeout_ms c \<and> at + timeout_ms c \<le> now then (False, SOpen now)
      else (False, SHalfOpen (used + 1) ok at))"

fun spec_allow :: "spec_cfg \<Rightarrow> nat \<Rightarrow> nat \<Rightarrow> spec_state \<Rightarrow> bool \<times> spec_state" where
  "spec_allow c now now' (SClosed f s) = (True, SClosed f s)"
| "spec_allow c now now' (SOpen since) =
     (if now < since + timeout_ms c then (False, SOpen since) else spec_probe c now' 0 0 0)"
| "spec_allow c now now' (SHalfOpen used ok at) = spec_probe c now' used ok at"

fun spec_success :: "spec_cfg \<Rightarrow> spec_state \<Rightarrow> spec_state" where
  "spec_success c (SClosed f s) =
     (if recover_at c \<le> s + 1 then SClosed 0 0 else SClosed f (s + 1))"
| "spec_success c (SOpen since) = SOpen since"
| "spec_success c (SHalfOpen used ok at) =
     (if recover_at c \<le> ok + 1 then SClosed 0 0 else SHalfOpen used (ok + 1) at)"

fun spec_failure :: "spec_cfg \<Rightarrow> nat \<Rightarrow> spec_state \<Rightarrow> spec_state" where
  "spec_failure c now (SClosed f s) =
     (if trip_at c \<le> f + 1 then SOpen now else SClosed (f + 1) 0)"
| "spec_failure c now (SOpen since) = SOpen since"
| "spec_failure c now (SHalfOpen used ok at) = SOpen now"

text \<open>What a breaker between calls means in the specification.\<close>

definition spec_of :: "CircuitBreaker \<Rightarrow> spec_state" where
  "spec_of cb = (case state_of cb of
      kClosed \<Rightarrow> SClosed (unat (ClosedFailures (closed_counts cb)))
                         (unat (ClosedSuccesses (closed_counts cb)))
    | kOpen \<Rightarrow> SOpen (unat (open_entered_ms cb))
    | kHalfOpen \<Rightarrow> SHalfOpen (unat (half_open_requests cb))
                     (unat (half_open_success_count cb)) (unat (half_open_probe_ms cb)))"

text \<open>
  The invariant between calls: no transition lock is held, the counters of a
  state are below the threshold that leaves it, and the HALF\_OPEN counters are
  clear outside HALF\_OPEN.
\<close>

definition cb_inv :: "CircuitBreaker \<Rightarrow> bool" where
  "cb_inv cb \<longleftrightarrow> cfg_ok (cb_cfg cb) \<and>
     (case state_word cb of
        kClosedInt \<Rightarrow> ClosedFailures (closed_counts cb) < FailureThreshold (cb_cfg cb)
          \<and> ClosedSuccesses (closed_counts cb) < SuccessThreshold (cb_cfg cb)
          \<and> half_open_success_count cb = 0 \<and> half_open_requests cb = 0 \<and> half_open_probe_ms cb = 0
      | kOpenInt \<Rightarrow> half_open_success_count cb = 0 \<and> half_open_requests cb = 0 \<and> half_open_probe_ms cb = 0
      | kHalfOpenInt \<Rightarrow> half_open_success_count cb < ucast (SuccessThreshold (cb_cfg cb))
      | _ \<Rightarrow> False)"

text \<open>
  The clock readings of a call are not before the readings the breaker has
  stored (the sources read a steady clock).
\<close>

fun clock_ok :: "CircuitBreaker \<Rightarrow> cb_event \<Rightarrow> bool" where
  "clock_ok cb (Allow now now') \<longleftrightarrow>
     open_entered_ms cb \<le> now \<and> half_open_probe_ms cb \<le> now'"
| "clock_ok cb _ \<longleftrightarrow> True"

fun spec_step :: "spec_cfg \<Rightarrow> spec_state \<Rightarrow> cb_event \<Rightarrow> spec_state" where
  "spec_step c s (Allow now now') = snd (spec_allow c (unat now) (unat now') s)"
| "spec_step c s Success = spec_success c s"
| "spec_step c s (Failure now) = spec_failure c (unat now) s"

subsection \<open>Lemmas on the packed counters and the thresholds\<close>

lemma unpack_closed [simp]:
  "ClosedFailures (PackClosedCounts f s) = f"
  "ClosedSuccesses (PackClosedCounts f s) = s"
  by (auto intro!: bit_word_eqI
      simp: ClosedFailures_def ClosedSuccesses_def PackClosedCounts_def bit_simps)

lemma unpack_zero [simp]: "ClosedFailures 0 = 0" "ClosedSuccesses 0 = 0"
  by (simp_all add: ClosedFailures_def ClosedSuccesses_def)

lemma unat_threshold:
  assumes "t < 2 ^ 31"
  shows "unat (if 0 < t then word_of_int t else (1::u32)) = max 1 (nat t)"
proof (cases "0 < t")
  case True
  with assms have "uint (word_of_int t :: u32) = t"
    by (simp add: uint_word_of_int_eq take_bit_int_eq_self)
  with True show ?thesis
    by (simp add: unat_eq_nat_uint)
qed simp

lemma unat_FailureThreshold:
  "cfg_ok cfg \<Longrightarrow> unat (FailureThreshold cfg) = max 1 (nat (failure_threshold cfg))"
  unfolding FailureThreshold_def by (rule unat_threshold) (simp add: cfg_ok_def)

lemma unat_SuccessThreshold:
  "cfg_ok cfg \<Longrightarrow> unat (SuccessThreshold cfg) = max 1 (nat (success_threshold cfg))"
  unfolding SuccessThreshold_def by (rule unat_threshold) (simp add: cfg_ok_def)

lemma thresholds_pos:
  assumes "cfg_ok cfg"
  shows "0 < FailureThreshold cfg" "0 < SuccessThreshold cfg" "0 < (ucast (SuccessThreshold cfg) :: u64)"
  using unat_FailureThreshold [OF assms] unat_SuccessThreshold [OF assms]
  by (auto simp: word_less_nat_alt)

lemma unat_open_timeout:
  "cfg_ok cfg \<Longrightarrow> unat (open_timeout_u64 cfg) = nat (open_timeout cfg)"
  by (auto simp: cfg_ok_def open_timeout_u64_def unat_eq_nat_uint uint_word_of_int_eq
      take_bit_int_eq_self)

text \<open>
  Below its threshold a counter is far from the top of its word, so the
  saturation of \<open>SaturatingIncrement\<close> never takes effect.
\<close>

lemma unat_SaturatingIncrement:
  assumes "v < t" shows "unat (SaturatingIncrement v) = Suc (unat v)"
  using less_imp_not_max_word [OF assms] by (simp add: SaturatingIncrement_def unat_Suc_word)

lemma elapsed_iff:
  fixes now since t :: u64
  assumes "since \<le> now"
  shows "now - since < t \<longleftrightarrow> unat now < unat since + unat t"
  using assms by (auto simp: word_less_nat_alt word_le_nat_alt unat_sub)

subsection \<open>The invariant\<close>

lemma cb_cfg_publish [simp]:
  "cb_cfg (publish_half_open cb) = cb_cfg cb" "cb_cfg (publish_open now cb) = cb_cfg cb"
  "cb_cfg (publish_closed cb) = cb_cfg cb"
  by (simp_all add: op_defs)

lemma cb_cfg_step [simp]: "cb_cfg (cb_step cb e) = cb_cfg cb"
  by (cases e) (auto simp: op_defs Let_def split: state_int.splits)

lemma cb_inv_new: "cfg_ok cfg \<Longrightarrow> cb_inv (new_CircuitBreaker cfg)"
  using thresholds_pos by (simp add: cb_inv_def new_CircuitBreaker_def)

lemma cb_inv_publish_open: "cfg_ok (cb_cfg cb) \<Longrightarrow> cb_inv (publish_open now cb)"
  by (simp add: cb_inv_def publish_open_def)

lemma cb_inv_publish_closed: "cfg_ok (cb_cfg cb) \<Longrightarrow> cb_inv (publish_closed cb)"
  using thresholds_pos by (simp add: cb_inv_def publish_closed_def)

lemma cb_inv_publish_half_open: "cfg_ok (cb_cfg cb) \<Longrightarrow> cb_inv (publish_half_open cb)"
  using thresholds_pos by (simp add: cb_inv_def publish_half_open_def)

lemma cb_inv_cfg: "cb_inv cb \<Longrightarrow> cfg_ok (cb_cfg cb)"
  by (simp add: cb_inv_def)

lemma cb_inv_AllowHalfOpen:
  assumes "cb_inv cb" "state_word cb = kHalfOpenInt"
  shows "cb_inv (snd (AllowHalfOpen now cb))"
  using assms by (auto simp: AllowHalfOpen_def Let_def intro!: cb_inv_publish_open)
    (auto simp: cb_inv_def)

lemma cb_inv_step:
  assumes "cb_inv cb" shows "cb_inv (cb_step cb e)"
proof (cases e)
  case (Allow now now')
  have "state_word (publish_half_open cb) = kHalfOpenInt"
    by (simp add: publish_half_open_def)
  with assms Allow show ?thesis
    by (auto simp: AllowRequest_def cb_inv_cfg split: state_int.splits
        intro!: cb_inv_AllowHalfOpen cb_inv_publish_half_open)
next
  case Success
  with assms show ?thesis
    by (auto simp: OnSuccess_def Let_def cb_inv_cfg split: state_int.splits
        intro!: cb_inv_publish_closed)
      (auto simp: cb_inv_def not_le thresholds_pos)
next
  case (Failure now)
  with assms show ?thesis
    by (auto simp: OnFailure_def Let_def cb_inv_cfg split: state_int.splits
        intro!: cb_inv_publish_open)
      (auto simp: cb_inv_def not_le thresholds_pos)
qed

lemma cb_inv_run: "cb_inv cb \<Longrightarrow> cb_inv (cb_run cb es)"
  by (rule run_invariant [where I = cb_inv]) (auto intro: cb_inv_step)

subsection \<open>Refinement of the documented machine\<close>

lemma AllowHalfOpen_refines:
  assumes "cfg_ok (cb_cfg cb)" "state_word cb = kHalfOpenInt" "half_open_requests cb \<noteq> - 1"
    and "half_open_probe_ms cb \<le> now"
  shows "spec_probe (spec_cfg_of (cb_cfg cb)) (unat now) (unat (half_open_requests cb))
           (unat (half_open_success_count cb)) (unat (half_open_probe_ms cb))
         = map_prod id spec_of (AllowHalfOpen now cb)"
proof -
  have "open_timeout_u64 (cb_cfg cb) \<le> now - half_open_probe_ms cb
        \<longleftrightarrow> unat (half_open_probe_ms cb) + nat (open_timeout (cb_cfg cb)) \<le> unat now"
    using elapsed_iff [OF assms(4), of "open_timeout_u64 (cb_cfg cb)"]
      unat_open_timeout [OF assms(1)] by (simp add: not_less [symmetric] add.commute)
  with assms show ?thesis
    by (auto simp: AllowHalfOpen_def Let_def spec_cfg_of_def spec_of_def state_of_def
        publish_open_def word_less_nat_alt unat_Suc_word)
qed

lemma publish_half_open_simps [simp]:
  "state_word (publish_half_open cb) = kHalfOpenInt"
  "half_open_requests (publish_half_open cb) = 0"
  "half_open_success_count (publish_half_open cb) = 0"
  "half_open_probe_ms (publish_half_open cb) = 0"
  by (simp_all add: publish_half_open_def)

lemma AllowRequest_refines:
  assumes "cb_inv cb" "clock_ok cb (Allow now now')" "half_open_requests cb \<noteq> - 1"
  shows "spec_allow (spec_cfg_of (cb_cfg cb)) (unat now) (unat now') (spec_of cb)
         = map_prod id spec_of (AllowRequest now now' cb)"
proof (cases "state_word cb")
  case kClosedInt
  then show ?thesis by (simp add: AllowRequest_def spec_of_def state_of_def)
next
  case kOpenInt
  have "now - open_entered_ms cb < open_timeout_u64 (cb_cfg cb)
        \<longleftrightarrow> unat now < unat (open_entered_ms cb) + nat (open_timeout (cb_cfg cb))"
    using assms elapsed_iff [of "open_entered_ms cb" now] unat_open_timeout cb_inv_cfg by simp
  moreover have "spec_of cb = SOpen (unat (open_entered_ms cb))"
    using kOpenInt by (simp add: spec_of_def state_of_def)
  moreover have "timeout_ms (spec_cfg_of (cb_cfg cb)) = nat (open_timeout (cb_cfg cb))"
    by (simp add: spec_cfg_of_def)
  ultimately show ?thesis
    using kOpenInt AllowHalfOpen_refines [of "publish_half_open cb" now'] cb_inv_cfg [OF assms(1)]
    by (simp add: AllowRequest_def del: spec_probe.simps)
next
  case kHalfOpenInt
  then show ?thesis
    using AllowHalfOpen_refines [of cb now'] assms cb_inv_cfg [OF assms(1)]
    by (simp add: AllowRequest_def spec_of_def state_of_def del: spec_probe.simps)
qed (use assms in \<open>auto simp: cb_inv_def\<close>)

lemma OnSuccess_refines:
  assumes "cb_inv cb"
  shows "spec_of (OnSuccess cb) = spec_success (spec_cfg_of (cb_cfg cb)) (spec_of cb)"
proof -
  note [simp] = spec_of_def state_of_def spec_cfg_of_def OnSuccess_def Let_def publish_closed_def
    word_le_nat_alt unat_SuccessThreshold [OF cb_inv_cfg [OF assms]]
  show ?thesis
  proof (cases "state_word cb")
    case kClosedInt
    with assms have "ClosedSuccesses (closed_counts cb) < SuccessThreshold (cb_cfg cb)"
      by (simp add: cb_inv_def)
    from unat_SaturatingIncrement [OF this] kClosedInt show ?thesis by simp
  next
    case kHalfOpenInt
    with assms have "half_open_success_count cb < ucast (SuccessThreshold (cb_cfg cb))"
      by (simp add: cb_inv_def)
    from unat_Suc_word [OF less_imp_not_max_word [OF this]] kHalfOpenInt show ?thesis by simp
  qed (use assms in \<open>auto simp: cb_inv_def\<close>)
qed

lemma OnFailure_refines:
  assumes "cb_inv cb"
  shows "spec_of (OnFailure now cb) = spec_failure (spec_cfg_of (cb_cfg cb)) (unat now) (spec_of cb)"
proof -
  note [simp] = spec_of_def state_of_def spec_cfg_of_def OnFailure_def Let_def publish_open_def
    word_le_nat_alt unat_FailureThreshold [OF cb_inv_cfg [OF assms]]
  show ?thesis
  proof (cases "state_word cb")
    case kClosedInt
    with assms have "ClosedFailures (closed_counts cb) < FailureThreshold (cb_cfg cb)"
      by (simp add: cb_inv_def)
    from unat_SaturatingIncrement [OF this] kClosedInt show ?thesis by simp
  qed (use assms in \<open>auto simp: cb_inv_def\<close>)
qed

text \<open>A history whose clock is steady and that does not wrap the 64-bit slot counter.\<close>

fun history_ok :: "CircuitBreaker \<Rightarrow> cb_event list \<Rightarrow> bool" where
  "history_ok cb [] = True"
| "history_ok cb (e # es) \<longleftrightarrow> clock_ok cb e \<and> half_open_requests cb \<noteq> - 1
     \<and> history_ok (cb_step cb e) es"

lemma cb_step_refines:
  assumes "cb_inv cb" "clock_ok cb e" "half_open_requests cb \<noteq> - 1"
  shows "spec_of (cb_step cb e) = spec_step (spec_cfg_of (cb_cfg cb)) (spec_of cb) e"
  using assms AllowRequest_refines [OF assms(1)] OnSuccess_refines OnFailure_refines
  by (cases e) simp_all

lemma cb_run_refines:
  assumes "cb_inv cb" "history_ok cb es"
  shows "spec_of (cb_run cb es) = run (spec_step (spec_cfg_of (cb_cfg cb))) (spec_of cb) es"
  using assms
proof (induction es arbitrary: cb)
  case (Cons e es)
  then show ?case
    using Cons.IH [of "cb_step cb e"] by (simp add: cb_step_refines cb_inv_step)
qed simp

text \<open>
  (C12) The breaker implements its documented state machine: over any history of
  calls, with a steady clock and fewer than $2^{64}$ claimed slots, the packed
  64-bit implementation is in exactly the state the documented machine is in,
  counters included.
\<close>

theorem breaker_implements_spec:
  assumes "cfg_ok cfg" and "history_ok (new_CircuitBreaker cfg) es"
  shows "spec_of (cb_run (new_CircuitBreaker cfg) es)
         = run (spec_step (spec_cfg_of cfg)) (SClosed 0 0) es"
  using cb_run_refines [OF cb_inv_new [OF assms(1)] assms(2)]
  by (simp add: new_CircuitBreaker_def spec_of_def state_of_def)

definition demo_cfg :: CircuitBreakerConfig where
  "demo_cfg = \<lparr>failure_threshold = 2, success_threshold = 1, open_timeout = 100,
     half_open_max_requests = 1\<rparr>"

theorem breaker_implements_spec_witness:
  "spec_of (cb_run (new_CircuitBreaker demo_cfg)
     [Failure 5, Failure 7, Allow 50 50, Allow 200 200, Success]) = SClosed 0 0"
proof -
  have ok: "cfg_ok demo_cfg"
    by (simp add: cfg_ok_def demo_cfg_def)
  have hist: "history_ok (new_CircuitBreaker demo_cfg)
      [Failure 5, Failure 7, Allow 50 50, Allow 200 200, Success]"
    by code_simp
  have "run (spec_step (spec_cfg_of demo_cfg)) (SClosed 0 0)
      [Failure 5, Failure 7, Allow 50 50, Allow 200 200, Success] = SClosed 0 0"
    by code_simp
  with breaker_implements_spec [OF ok hist] show ?thesis by simp
qed

subsection \<open>Consequences for callers\<close>

lemma spec_failures:
  assumes "0 < trip_at c" "f < trip_at c"
  shows "run (spec_step c) (SClosed f s) (map Failure ts)
    = (if f + length ts < trip_at c then SClosed (f + length ts) (if ts = [] then s else 0)
       else SOpen (unat (ts ! (trip_at c - Suc f))))"
  using assms(2)
proof (induction ts arbitrary: f s)
  case (Cons t ts)
  have stay: "run (spec_step c) (SOpen x) (map Failure us) = SOpen x" for x us
    by (induction us) auto
  show ?case
  proof (cases "trip_at c \<le> f + 1")
    case True
    with Cons.prems have "trip_at c - Suc f = 0" by simp
    with True show ?thesis by (simp add: stay)
  next
    case False
    then have "f + 1 < trip_at c" by simp
    moreover from this have "trip_at c - Suc f = Suc (trip_at c - Suc (f + 1))" by simp
    ultimately show ?thesis
      using False Cons.IH [of "f + 1" 0] by simp
  qed
qed simp

text \<open>
  Tripping: a new breaker fed nothing but failures stays CLOSED below the
  failure threshold (read as at least 1) and is OPEN from the threshold on.
\<close>

theorem failures_trip_breaker:
  assumes "cfg_ok cfg"
  shows "state_of (cb_run (new_CircuitBreaker cfg) (map Failure ts))
         = (if length ts < max 1 (nat (failure_threshold cfg)) then kClosed else kOpen)"
proof -
  have hist: "history_ok cb (map Failure ts)" if "half_open_requests cb \<noteq> - 1" for cb
    using that
    by (induction ts arbitrary: cb) (auto simp: OnFailure_def publish_open_def Let_def split: state_int.splits)
  have "spec_of (cb_run (new_CircuitBreaker cfg) (map Failure ts))
        = run (spec_step (spec_cfg_of cfg)) (SClosed 0 0) (map Failure ts)"
    using cb_run_refines [OF cb_inv_new [OF assms] hist]
    by (simp add: new_CircuitBreaker_def spec_of_def state_of_def)
  also have "\<dots> = (if length ts < trip_at (spec_cfg_of cfg)
      then SClosed (length ts) 0 else SOpen (unat (ts ! (trip_at (spec_cfg_of cfg) - 1))))"
    using spec_failures [of "spec_cfg_of cfg" 0 0 ts] by (auto simp: spec_cfg_of_def)
  finally show ?thesis
    by (auto simp: spec_of_def spec_cfg_of_def split: CircuitBreakerState.splits if_splits)
qed

theorem failures_trip_breaker_witness:
  "state_of (cb_run (new_CircuitBreaker demo_cfg) (map Failure [3, 9])) = kOpen"
  using failures_trip_breaker [of demo_cfg "[3, 9]"] by (simp add: cfg_ok_def demo_cfg_def)

text \<open>The verdicts of the admission calls of a history.\<close>

fun verdicts :: "CircuitBreaker \<Rightarrow> cb_event list \<Rightarrow> bool list" where
  "verdicts cb [] = []"
| "verdicts cb (Allow now now' # es) =
     fst (AllowRequest now now' cb) # verdicts (cb_step cb (Allow now now')) es"
| "verdicts cb (e # es) = verdicts (cb_step cb e) es"

text \<open>
  Admissions of one probe cycle, from the OPEN breaker that waits for its timeout:
  the true verdicts up to and including the call that closes the breaker or that
  sends it from HALF\_OPEN back to OPEN.
\<close>

definition ends_cycle :: "CircuitBreaker \<Rightarrow> CircuitBreaker \<Rightarrow> bool" where
  "ends_cycle cb cb' \<longleftrightarrow> state_of cb' = kClosed \<or> state_of cb = kHalfOpen \<and> state_of cb' = kOpen"

fun cycle_admissions :: "CircuitBreaker \<Rightarrow> cb_event list \<Rightarrow> nat" where
  "cycle_admissions cb [] = 0"
| "cycle_admissions cb (e # es) = count_list (verdicts cb [e]) True
     + (if ends_cycle cb (cb_step cb e) then 0 else cycle_admissions (cb_step cb e) es)"

text \<open>
  Fast rejection: while the breaker is OPEN and less than the open timeout
  has passed since it opened, every admission call is refused and none of them
  changes the breaker, whatever outcomes are reported in between.
\<close>

theorem open_window_rejects:
  assumes "state_word cb = kOpenInt"
    and "\<forall>e \<in> set es. case e of Allow now _ \<Rightarrow> now - open_entered_ms cb < open_timeout_u64 (cb_cfg cb)
                            | _ \<Rightarrow> True"
  shows "cb_run cb es = cb \<and> set (verdicts cb es) \<subseteq> {False}"
proof -
  have "cb_step cb e = cb" if "e \<in> set es" for e
    using assms that by (cases e) (auto simp: AllowRequest_def OnSuccess_def OnFailure_def)
  with assms(2) show ?thesis
  proof (induction es)
    case (Cons e es)
    then show ?case
      using assms(1) by (cases e) (auto simp: AllowRequest_def OnSuccess_def OnFailure_def)
  qed simp
qed

definition demo_open :: CircuitBreaker where
  "demo_open = (new_CircuitBreaker demo_cfg)\<lparr>state_word := kOpenInt, open_entered_ms := 10\<rparr>"

theorem open_window_rejects_witness:
  "cb_run demo_open [Allow 20 20, Success, Allow 109 109] = demo_open"
proof -
  have "\<forall>e \<in> set [Allow 20 20, Success, Allow 109 109].
      case e of Allow now _ \<Rightarrow> now - open_entered_ms demo_open < open_timeout_u64 (cb_cfg demo_open)
              | _ \<Rightarrow> True"
    by (simp add: demo_open_def new_CircuitBreaker_def demo_cfg_def open_timeout_u64_def)
  moreover have "state_word demo_open = kOpenInt"
    by (simp add: demo_open_def)
  ultimately show ?thesis
    using open_window_rejects [of demo_open "[Allow 20 20, Success, Allow 109 109]"] by blast
qed

text \<open>One call of a cycle: an OPEN breaker starts the count of slots, a HALF\_OPEN one keeps it.\<close>

lemma half_open_call:
  assumes "state_word cb = kHalfOpenInt" "unat (half_open_requests cb) + 1 < 2 ^ 64"
  shows "ends_cycle cb (cb_step cb e) \<or> state_word (cb_step cb e) = kHalfOpenInt"
    and "count_list (verdicts cb [e]) True
      \<le> of_bool (unat (half_open_requests cb) < unat (half_open_limit (cb_cfg cb)))"
    and "state_word (cb_step cb e) = kHalfOpenInt \<Longrightarrow>
      unat (half_open_requests (cb_step cb e))
        = unat (half_open_requests cb) + (case e of Allow _ _ \<Rightarrow> 1 | _ \<Rightarrow> 0)"
    and "count_list (verdicts cb [e]) True \<le> (case e of Allow _ _ \<Rightarrow> 1 | _ \<Rightarrow> 0)"
proof -
  have "half_open_requests cb \<noteq> - 1" using assms(2) by (auto simp: unat_max_u64)
  then have "unat (half_open_requests cb + 1) = unat (half_open_requests cb) + 1" by (simp add: unat_Suc_word)
  note simps = assms(1) this op_defs Let_def ends_cycle_def state_of_def word_less_nat_alt
  show "ends_cycle cb (cb_step cb e) \<or> state_word (cb_step cb e) = kHalfOpenInt"
    by (cases e) (auto simp: simps)
  show "count_list (verdicts cb [e]) True
      \<le> of_bool (unat (half_open_requests cb) < unat (half_open_limit (cb_cfg cb)))"
    by (cases e) (auto simp: simps)
  show "unat (half_open_requests (cb_step cb e))
      = unat (half_open_requests cb) + (case e of Allow _ _ \<Rightarrow> 1 | _ \<Rightarrow> 0)"
    if "state_word (cb_step cb e) = kHalfOpenInt"
    using that by (cases e) (auto simp: simps split: if_splits)
  show "count_list (verdicts cb [e]) True \<le> (case e of Allow _ _ \<Rightarrow> 1 | _ \<Rightarrow> 0)"
    by (cases e) auto
qed

lemma open_call:
  assumes "state_word cb = kOpenInt"
  shows "cb_step cb e = cb \<and> True \<notin> set (verdicts cb [e])
    \<or> state_word (cb_step cb e) = kHalfOpenInt \<and> half_open_requests (cb_step cb e) = 1
        \<and> (True \<in> set (verdicts cb [e]) \<longrightarrow> 0 < half_open_limit (cb_cfg cb))
    \<or> state_word (cb_step cb e) = kOpenInt \<and> True \<notin> set (verdicts cb [e])"
  using assms by (cases e) (auto simp: op_defs Let_def)

lemma half_open_admissions:
  assumes "state_word cb = kHalfOpenInt" "unat (half_open_requests cb) + length es < 2 ^ 64"
  shows "cycle_admissions cb es \<le> unat (half_open_limit (cb_cfg cb)) - unat (half_open_requests cb)"
  using assms
proof (induction es arbitrary: cb)
  case (Cons e es)
  have "unat (half_open_requests cb) + 1 < 2 ^ 64" using Cons.prems(2) by simp
  note call = half_open_call [OF Cons.prems(1) this, of e]
  show ?case
  proof (cases "ends_cycle cb (cb_step cb e)")
    case True
    with call(2) show ?thesis by (auto simp: of_bool_def split: if_splits)
  next
    case False
    with call(1) have h: "state_word (cb_step cb e) = kHalfOpenInt" by simp
    note req = call(3) [OF h]
    have "(case e of Allow _ _ \<Rightarrow> 1 | _ \<Rightarrow> 0) \<le> (1 :: nat)" by (cases e) simp_all
    with Cons.prems(2) req have "unat (half_open_requests (cb_step cb e)) + length es < 2 ^ 64" by simp
    from Cons.IH [OF h this] req
    have "cycle_admissions (cb_step cb e) es \<le> unat (half_open_limit (cb_cfg cb))
        - (unat (half_open_requests cb) + (case e of Allow _ _ \<Rightarrow> 1 | _ \<Rightarrow> 0))" by simp
    with call(2,4) False show ?thesis by (cases e) (auto simp: of_bool_def split: if_splits)
  qed
qed simp

lemma open_admissions:
  assumes "state_word cb = kOpenInt" "length es < 2 ^ 64"
  shows "cycle_admissions cb es \<le> unat (half_open_limit (cb_cfg cb))"
  using assms
proof (induction es arbitrary: cb)
  case (Cons e es)
  have no: "\<not> ends_cycle cb cb'" if "state_word cb' \<noteq> kClosedInt" "state_word cb' \<noteq> kTransitioningToClosedInt" for cb'
    using that Cons.prems(1) by (auto simp: ends_cycle_def state_of_def split: state_int.splits)
  have le1: "count_list (verdicts cb [e]) True \<le> of_bool (True \<in> set (verdicts cb [e]))"
    by (cases e) auto
  from open_call [OF Cons.prems(1), of e] consider
      (stay) "state_word (cb_step cb e) = kOpenInt" "True \<notin> set (verdicts cb [e])"
    | (probe) "state_word (cb_step cb e) = kHalfOpenInt" "half_open_requests (cb_step cb e) = 1"
        "True \<in> set (verdicts cb [e]) \<longrightarrow> 0 < half_open_limit (cb_cfg cb)"
    using Cons.prems(1) by metis
  then show ?case
  proof cases
    case stay
    with Cons.IH [OF stay(1)] Cons.prems(2) le1 show ?thesis by (simp add: no)
  next
    case probe
    have "cycle_admissions (cb_step cb e) es \<le> unat (half_open_limit (cb_cfg cb)) - 1"
      using half_open_admissions [OF probe(1), of es] probe(2) Cons.prems(2) by simp
    with probe le1 show ?thesis by (auto simp: no word_less_nat_alt of_bool_def split: if_splits)
  qed
qed simp

text \<open>
  (C15) Probe quota: of all the calls that an OPEN breaker receives up to the end of
  its next HALF\_OPEN period, whatever mix of admission calls and outcomes arrives, at most
  \<open>half_open_max_requests\<close> are admitted.  The call that opens the period counts.
\<close>

theorem half_open_quota:
  assumes "cfg_ok (cb_cfg cb)" "0 \<le> half_open_max_requests (cb_cfg cb)"
    and "state_word cb = kOpenInt" "length es < 2 ^ 64"
  shows "cycle_admissions cb es \<le> nat (half_open_max_requests (cb_cfg cb))"
proof -
  have "uint (half_open_limit (cb_cfg cb)) = half_open_max_requests (cb_cfg cb)"
    using assms(1,2)
    by (simp add: cfg_ok_def half_open_limit_def uint_word_of_int_eq take_bit_int_eq_self)
  then have "unat (half_open_limit (cb_cfg cb)) = nat (half_open_max_requests (cb_cfg cb))"
    by (simp add: unat_eq_nat_uint)
  with open_admissions [OF assms(3,4)] show ?thesis by simp
qed

theorem half_open_quota_witness:
  "cycle_admissions demo_open [Allow 110 110, Allow 115 115, Allow 120 120] = 1
   \<and> cycle_admissions demo_open [Allow 110 110, Allow 115 115, Allow 120 120] \<le> 1"
proof
  show "cycle_admissions demo_open [Allow 110 110, Allow 115 115, Allow 120 120] = 1" by code_simp
  show "cycle_admissions demo_open [Allow 110 110, Allow 115 115, Allow 120 120] \<le> 1"
    using half_open_quota [of demo_open "[Allow 110 110, Allow 115 115, Allow 120 120]"]
    by (simp add: demo_open_def new_CircuitBreaker_def demo_cfg_def cfg_ok_def del: cycle_admissions.simps)
qed

text \<open>
  (C16) No stranding: a HALF\_OPEN breaker whose probe outcomes were lost (quota
  used up, no report) reopens at the first call after the timeout, and after one
  more timeout it admits a fresh probe.
\<close>

theorem lost_probe_recovers:
  assumes "cfg_ok (cb_cfg cb)" "0 < open_timeout (cb_cfg cb)" "0 < half_open_max_requests (cb_cfg cb)"
    and "state_word cb = kHalfOpenInt" "half_open_limit (cb_cfg cb) \<le> half_open_requests cb"
    and "open_timeout_u64 (cb_cfg cb) \<le> t1 - half_open_probe_ms cb"
    and "open_timeout_u64 (cb_cfg cb) \<le> t2 - t1"
  shows "let (v1, cb1) = AllowRequest t0 t1 cb; (v2, cb2) = AllowRequest t2 t3 cb1 in
           \<not> v1 \<and> state_of cb1 = kOpen \<and> v2 \<and> state_of cb2 = kHalfOpen"
proof -
  have "uint (half_open_limit (cb_cfg cb)) = half_open_max_requests (cb_cfg cb)"
    using assms(1,3)
    by (simp add: cfg_ok_def half_open_limit_def uint_word_of_int_eq take_bit_int_eq_self)
  then have lim: "0 < half_open_limit (cb_cfg cb)"
    using assms(3) by (simp add: word_less_def)
  have "AllowRequest t0 t1 cb = (False, publish_open t1 (cb\<lparr>half_open_requests := half_open_requests cb + 1\<rparr>))"
    using assms by (simp add: AllowRequest_def AllowHalfOpen_def Let_def not_less)
  with assms(7) lim show ?thesis
    by (simp add: AllowRequest_def AllowHalfOpen_def state_of_def not_less
        publish_open_def publish_half_open_def)
qed

theorem lost_probe_recovers_witness:
  "let (v1, cb1) = AllowRequest 300 300 (snd (AllowRequest 110 110 demo_open));
       (v2, cb2) = AllowRequest 400 400 cb1 in
     \<not> v1 \<and> state_of cb1 = kOpen \<and> v2 \<and> state_of cb2 = kHalfOpen"
proof -
  let ?cb = "snd (AllowRequest 110 110 demo_open)"
  have "?cb = demo_open\<lparr>state_word := kHalfOpenInt, half_open_requests := 1,
      half_open_probe_ms := 110, transition_count := 1\<rparr>"
    by (simp add: AllowRequest_def AllowHalfOpen_def publish_half_open_def demo_open_def
        new_CircuitBreaker_def demo_cfg_def half_open_limit_def open_timeout_u64_def)
  then show ?thesis
    using lost_probe_recovers [of ?cb 300 400 300 400]
    by (simp add: demo_open_def new_CircuitBreaker_def demo_cfg_def cfg_ok_def
        half_open_limit_def open_timeout_u64_def)
qed

end
