(* ===== verification/BreakerThreads.thy ===== *)
theory BreakerThreads
  imports CircuitBreaker
begin

section \<open>The circuit breaker under concurrent callers\<close>

text \<open>
  The operations of \<open>CircuitBreaker\<close> one atomic access at a time, for any
  number of threads.  A program counter names the next access to a shared
  \<open>std::atomic\<close> of the call the thread is in; \<open>atomic\<close> performs it.
  The clock readings of a call travel with the program counter.  A
  \<open>compare_exchange_weak\<close> may fail spuriously: the first argument of
  \<open>atomic\<close> says whether it does.

  The interleaving is sequentially consistent.  The \<open>relaxed\<close> stores of a
  transition are ordered before its \<open>release\<close> publication, which is the
  only way another thread learns of the new state.
\<close>

datatype pc = Idle | Ret bool | Call cb_event
  \<comment> \<open>AllowRequest\<close>
  | LoadEntered u64 u64 | CasHalfOpen u64
  | HalfReqs u64 | HalfOks u64 | HalfProbe u64 | HalfCount u64 | HalfPublish u64
  | Claim u64 | StoreProbe u64 | LoadProbe u64 | CasReopen u64
  \<comment> \<open>the stores of a transition to OPEN, and what the call returns with\<close>
  | OpenEntered u64 pc | OpenOks pc | OpenReqs pc | OpenProbe pc | OpenCount pc | OpenPublish pc
  \<comment> \<open>OnSuccess\<close>
  | SLoadCounts | SCheck u64 | SCas u64 | SAdd | CasClose
  | CloseCounts | CloseOks | CloseReqs | CloseProbe | CloseCount | ClosePublish
  \<comment> \<open>OnFailure\<close>
  | FReopen u64 | FLoadCounts u64 | FCheck u64 u64 u32 | FCas u64 u64 u32 | FTrip u64 u32

definition next_success_counts :: "CircuitBreakerConfig \<Rightarrow> u64 \<Rightarrow> u64" where
  "next_success_counts cfg current =
     (let successes = SaturatingIncrement (ClosedSuccesses current) in
      if SuccessThreshold cfg \<le> successes then PackClosedCounts 0 0
      else PackClosedCounts (ClosedFailures current) successes)"

fun atomic :: "bool \<Rightarrow> pc \<Rightarrow> CircuitBreaker \<Rightarrow> pc \<times> CircuitBreaker" where
  "atomic sp (Call (Allow now now')) cb =
     ((case state_word cb of kClosedInt \<Rightarrow> Ret True | kOpenInt \<Rightarrow> LoadEntered now now'
        | kHalfOpenInt \<Rightarrow> Claim now' | _ \<Rightarrow> Ret False), cb)"
| "atomic sp (LoadEntered now now') cb =
     ((if now - open_entered_ms cb < open_timeout_u64 (cb_cfg cb) then Ret False
       else CasHalfOpen now'), cb)"
| "atomic sp (CasHalfOpen now') cb =
     (if state_word cb = kOpenInt
      then (HalfReqs now', cb\<lparr>state_word := kTransitioningToHalfOpenInt\<rparr>)
      else ((if state_word cb = kHalfOpenInt then Claim now' else Ret False), cb))"
| "atomic sp (HalfReqs now') cb = (HalfOks now', cb\<lparr>half_open_requests := 0\<rparr>)"
| "atomic sp (HalfOks now') cb = (HalfProbe now', cb\<lparr>half_open_success_count := 0\<rparr>)"
| "atomic sp (HalfProbe now') cb = (HalfCount now', cb\<lparr>half_open_probe_ms := 0\<rparr>)"
| "atomic sp (HalfCount now') cb =
     (HalfPublish now', cb\<lparr>transition_count := transition_count cb + 1\<rparr>)"
| "atomic sp (HalfPublish now') cb = (Claim now', cb\<lparr>state_word := kHalfOpenInt\<rparr>)"
| "atomic sp (Claim now) cb =
     ((if half_open_requests cb < half_open_limit (cb_cfg cb) then StoreProbe now else LoadProbe now),
      cb\<lparr>half_open_requests := half_open_requests cb + 1\<rparr>)"
| "atomic sp (StoreProbe now) cb = (Ret True, cb\<lparr>half_open_probe_ms := now\<rparr>)"
| "atomic sp (LoadProbe now) cb =
     ((if 0 < open_timeout (cb_cfg cb) \<and> open_timeout_u64 (cb_cfg cb) \<le> now - half_open_probe_ms cb
       then CasReopen now else Ret False), cb)"
| "atomic sp (CasReopen now) cb =
     (if state_word cb = kHalfOpenInt
      then (OpenEntered now (Ret False), cb\<lparr>state_word := kTransitioningToOpenInt\<rparr>)
      else (Ret False, cb))"
| "atomic sp (OpenEntered now r) cb = (OpenOks r, cb\<lparr>open_entered_ms := now\<rparr>)"
| "atomic sp (OpenOks r) cb = (OpenReqs r, cb\<lparr>half_open_success_count := 0\<rparr>)"
| "atomic sp (OpenReqs r) cb = (OpenProbe r, cb\<lparr>half_open_requests := 0\<rparr>)"
| "atomic sp (OpenProbe r) cb = (OpenCount r, cb\<lparr>half_open_probe_ms := 0\<rparr>)"
| "atomic sp (OpenCount r) cb = (OpenPublish r, cb\<lparr>transition_count := transition_count cb + 1\<rparr>)"
| "atomic sp (OpenPublish r) cb = (r, cb\<lparr>state_word := kOpenInt\<rparr>)"
| "atomic sp (Call Success) cb =
     ((case state_word cb of kClosedInt \<Rightarrow> SLoadCounts | kHalfOpenInt \<Rightarrow> SAdd | _ \<Rightarrow> Idle), cb)"
| "atomic sp SLoadCounts cb = (SCheck (closed_counts cb), cb)"
| "atomic sp (SCheck c) cb = ((if state_word cb = kClosedInt then SCas c else Idle), cb)"
| "atomic sp (SCas c) cb =
     (if closed_counts cb = c \<and> \<not> sp
      then (Idle, cb\<lparr>closed_counts := next_success_counts (cb_cfg cb) c\<rparr>)
      else (SCheck (closed_counts cb), cb))"
| "atomic sp SAdd cb =
     ((if ucast (SuccessThreshold (cb_cfg cb)) \<le> half_open_success_count cb + 1 then CasClose else Idle),
      cb\<lparr>half_open_success_count := half_open_success_count cb + 1\<rparr>)"
| "atomic sp CasClose cb =
     (if state_word cb = kHalfOpenInt
      then (CloseCounts, cb\<lparr>state_word := kTransitioningToClosedInt\<rparr>) else (Idle, cb))"
| "atomic sp CloseCounts cb = (CloseOks, cb\<lparr>closed_counts := 0\<rparr>)"
| "atomic sp CloseOks cb = (CloseReqs, cb\<lparr>half_open_success_count := 0\<rparr>)"
| "atomic sp CloseReqs cb = (CloseProbe, cb\<lparr>half_open_requests := 0\<rparr>)"
| "atomic sp CloseProbe cb = (CloseCount, cb\<lparr>half_open_probe_ms := 0\<rparr>)"
| "atomic sp CloseCount cb = (ClosePublish, cb\<lparr>transition_count := transition_count cb + 1\<rparr>)"
| "atomic sp ClosePublish cb = (Idle, cb\<lparr>state_word := kClosedInt\<rparr>)"
| "atomic sp (Call (Failure now)) cb =
     ((case state_word cb of kHalfOpenInt \<Rightarrow> FReopen now | kClosedInt \<Rightarrow> FLoadCounts now | _ \<Rightarrow> Idle), cb)"
| "atomic sp (FReopen now) cb =
     (if state_word cb = kHalfOpenInt
      then (OpenEntered now Idle, cb\<lparr>state_word := kTransitioningToOpenInt\<rparr>) else (Idle, cb))"
| "atomic sp (FLoadCounts now) cb = (FCheck now (closed_counts cb) 0, cb)"
| "atomic sp (FCheck now c f) cb =
     ((if state_word cb = kClosedInt then FCas now c f else FTrip now f), cb)"
| "atomic sp (FCas now c f) cb =
     (let f' = SaturatingIncrement (ClosedFailures c) in
      if closed_counts cb = c \<and> \<not> sp
      then (FTrip now f', cb\<lparr>closed_counts := PackClosedCounts f' 0\<rparr>)
      else (FCheck now (closed_counts cb) f', cb))"
| "atomic sp (FTrip now f) cb =
     (if FailureThreshold (cb_cfg cb) \<le> f \<and> state_word cb = kClosedInt
      then (OpenEntered now Idle, cb\<lparr>state_word := kTransitioningToOpenInt\<rparr>) else (Idle, cb))"
| "atomic sp Idle cb = (Idle, cb)"
| "atomic sp (Ret v) cb = (Ret v, cb)"

subsection \<open>The system of threads\<close>

text \<open>
  Two ghost counters observe the current epoch, an epoch being the time between
  two stores of 0 to \<open>half_open_requests_\<close>: the claims of a slot, and the calls
  that came to be admitted.  A call is admitted when its thread arrives at a point
  from which it returns \<open>true\<close>; only the fast path of a call that finds
  the breaker CLOSED is not an admission of a probe.
\<close>

record threads =
  shared :: CircuitBreaker
  pcs :: "nat \<Rightarrow> pc"
  claims :: nat
  granted :: nat

fun resets_slots :: "pc \<Rightarrow> bool" where
  "resets_slots (HalfReqs _) = True"
| "resets_slots (OpenReqs _) = True"
| "resets_slots CloseReqs = True"
| "resets_slots _ = False"

fun is_claim :: "pc \<Rightarrow> bool" where
  "is_claim (Claim _) = True"
| "is_claim _ = False"

fun admits :: "pc \<Rightarrow> bool" where
  "admits (StoreProbe _) = True"
| "admits (Ret v) = v"
| "admits _ = False"

fun fast_path :: "pc \<Rightarrow> CircuitBreaker \<Rightarrow> bool" where
  "fast_path (Call _) cb = (state_word cb = kClosedInt)"
| "fast_path _ cb = False"

definition advance :: "bool \<Rightarrow> nat \<Rightarrow> threads \<Rightarrow> threads" where
  "advance sp t s =
     (let p = pcs s t; (p', cb') = atomic sp p (shared s) in
      s\<lparr>shared := cb', pcs := (pcs s)(t := p'),
        claims := (if resets_slots p then 0 else claims s + of_bool (is_claim p)),
        granted := (if resets_slots p then 0
                    else granted s + of_bool (admits p' \<and> \<not> admits p \<and> \<not> fast_path p (shared s)))\<rparr>)"

fun between_calls :: "pc \<Rightarrow> bool" where
  "between_calls Idle = True"
| "between_calls (Ret _) = True"
| "between_calls _ = False"

inductive thread_step :: "threads \<Rightarrow> threads \<Rightarrow> bool" where
  begin_call: "between_calls (pcs s t) \<Longrightarrow> thread_step s (s\<lparr>pcs := (pcs s)(t := Call e)\<rparr>)"
| access: "\<not> between_calls (pcs s t) \<Longrightarrow> thread_step s (advance sp t s)"

definition init_threads :: "CircuitBreakerConfig \<Rightarrow> threads" where
  "init_threads cfg = \<lparr>shared = new_CircuitBreaker cfg, pcs = (\<lambda>_. Idle), claims = 0, granted = 0\<rparr>"

inductive threads_reachable :: "CircuitBreakerConfig \<Rightarrow> threads \<Rightarrow> bool" for cfg where
  start: "threads_reachable cfg (init_threads cfg)"
| step: "threads_reachable cfg s \<Longrightarrow> thread_step s s' \<Longrightarrow> threads_reachable cfg s'"

subsection \<open>Transition locks\<close>

text \<open>The transition lock a thread holds at a program counter.\<close>

fun holds_lock :: "pc \<Rightarrow> state_int option" where
  "holds_lock (HalfReqs _) = Some kTransitioningToHalfOpenInt"
| "holds_lock (HalfOks _) = Some kTransitioningToHalfOpenInt"
| "holds_lock (HalfProbe _) = Some kTransitioningToHalfOpenInt"
| "holds_lock (HalfCount _) = Some kTransitioningToHalfOpenInt"
| "holds_lock (HalfPublish _) = Some kTransitioningToHalfOpenInt"
| "holds_lock (OpenEntered _ _) = Some kTransitioningToOpenInt"
| "holds_lock (OpenOks _) = Some kTransitioningToOpenInt"
| "holds_lock (OpenReqs _) = Some kTransitioningToOpenInt"
| "holds_lock (OpenProbe _) = Some kTransitioningToOpenInt"
| "holds_lock (OpenCount _) = Some kTransitioningToOpenInt"
| "holds_lock (OpenPublish _) = Some kTransitioningToOpenInt"
| "holds_lock CloseCounts = Some kTransitioningToClosedInt"
| "holds_lock CloseOks = Some kTransitioningToClosedInt"
| "holds_lock CloseReqs = Some kTransitioningToClosedInt"
| "holds_lock CloseProbe = Some kTransitioningToClosedInt"
| "holds_lock CloseCount = Some kTransitioningToClosedInt"
| "holds_lock ClosePublish = Some kTransitioningToClosedInt"
| "holds_lock _ = None"

definition transitioning :: "state_int \<Rightarrow> bool" where
  "transitioning w \<longleftrightarrow> w \<in> {kTransitioningToOpenInt, kTransitioningToHalfOpenInt, kTransitioningToClosedInt}"

text \<open>A transition to OPEN ends the call, which reports an outcome or refuses a request.\<close>

fun ends_refused :: "pc \<Rightarrow> bool" where
  "ends_refused Idle = True"
| "ends_refused (Ret v) = (\<not> v)"
| "ends_refused _ = False"

fun resumes_ok :: "pc \<Rightarrow> bool" where
  "resumes_ok (OpenEntered _ r) = ends_refused r"
| "resumes_ok (OpenOks r) = ends_refused r"
| "resumes_ok (OpenReqs r) = ends_refused r"
| "resumes_ok (OpenProbe r) = ends_refused r"
| "resumes_ok (OpenCount r) = ends_refused r"
| "resumes_ok (OpenPublish r) = ends_refused r"
| "resumes_ok _ = True"

lemma ends_refused_free: "ends_refused p \<Longrightarrow> holds_lock p = None \<and> resumes_ok p \<and> \<not> admits p"
  by (cases p rule: ends_refused.cases) auto

lemma between_calls_free: "between_calls p \<Longrightarrow> holds_lock p = None \<and> resumes_ok p"
  by (cases p rule: between_calls.cases) auto

text \<open>The edges of the documented diagram, seen through \<open>state()\<close>.\<close>

definition diagram :: "(CircuitBreakerState \<times> CircuitBreakerState) set" where
  "diagram = {(kClosed, kOpen), (kOpen, kHalfOpen), (kHalfOpen, kClosed), (kHalfOpen, kOpen)}"

lemmas atomic_splits = if_splits state_int.splits

text \<open>What one access does to the locks, from the holder and from any other thread.\<close>

lemma atomic_holder:
  assumes "atomic sp p cb = (p', cb')" "holds_lock p = Some w" "resumes_ok p" "state_word cb = w"
  shows "resumes_ok p' \<and>
    (holds_lock p' = Some w \<and> state_word cb' = w \<or>
     holds_lock p' = None \<and> \<not> transitioning (state_word cb') \<and>
       (state_of cb = state_of cb' \<or> (state_of cb, state_of cb') \<in> diagram))"
  using assms
  by (induction sp p cb rule: atomic.induct)
    (auto simp: transitioning_def state_of_def diagram_def dest: ends_refused_free split: atomic_splits)

lemma atomic_other:
  assumes "atomic sp p cb = (p', cb')" "holds_lock p = None" "resumes_ok p"
  shows "resumes_ok p' \<and>
    (holds_lock p' = None \<and> state_word cb' = state_word cb \<or>
     holds_lock p' = Some (state_word cb') \<and> \<not> transitioning (state_word cb)
       \<and> transitioning (state_word cb') \<and>
       (state_of cb = state_of cb' \<or> (state_of cb, state_of cb') \<in> diagram))"
  using assms
  by (induction sp p cb rule: atomic.induct)
    (auto simp: transitioning_def state_of_def diagram_def Let_def split: atomic_splits)

lemma atomic_cfg: "atomic sp p cb = (p', cb') \<Longrightarrow> cb_cfg cb' = cb_cfg cb"
  by (induction sp p cb rule: atomic.induct) (auto simp: Let_def split: atomic_splits)

text \<open>
  The lock invariant: the state word is a transition value exactly when one
  thread holds the lock for it, and then it is the value that thread set.
\<close>

definition lock_held_by :: "threads \<Rightarrow> nat option \<Rightarrow> bool" where
  "lock_held_by s h \<longleftrightarrow> (transitioning (state_word (shared s)) \<longleftrightarrow> h \<noteq> None)
     \<and> (\<forall>t. resumes_ok (pcs s t)
           \<and> holds_lock (pcs s t) = (if h = Some t then Some (state_word (shared s)) else None))"

lemma advance_simps:
  assumes "atomic sp (pcs s t) (shared s) = (p', cb')"
  shows "shared (advance sp t s) = cb'" "pcs (advance sp t s) = (pcs s)(t := p')"
  using assms by (simp_all add: advance_def Let_def)

lemma lock_held_advance:
  assumes inv: "lock_held_by s h"
  shows "\<exists>h'. lock_held_by (advance sp t s) h'"
proof -
  obtain p' cb' where at: "atomic sp (pcs s t) (shared s) = (p', cb')"
    by fastforce
  note simps = lock_held_by_def advance_simps [OF at]
  from inv have ok: "resumes_ok (pcs s t)" by (simp add: lock_held_by_def)
  show ?thesis
  proof (cases "h = Some t")
    case True
    with inv have "holds_lock (pcs s t) = Some (state_word (shared s))"
      and tr: "transitioning (state_word (shared s))"
      by (simp_all add: lock_held_by_def)
    from atomic_holder [OF at this(1) ok refl] inv tr True
    have "lock_held_by (advance sp t s) (if holds_lock p' = None then None else Some t)"
      by (elim conjE disjE) (simp_all add: simps)
    then show ?thesis by blast
  next
    case False
    with inv have "holds_lock (pcs s t) = None" by (simp add: lock_held_by_def)
    from atomic_other [OF at this ok] inv False
    have "lock_held_by (advance sp t s) (if holds_lock p' = None then h else Some t)"
      by (elim conjE disjE) (simp_all add: simps)
    then show ?thesis by blast
  qed
qed

lemma lock_held_begin:
  assumes "lock_held_by s h" "between_calls (pcs s t)"
  shows "lock_held_by (s\<lparr>pcs := (pcs s)(t := Call e)\<rparr>) h"
proof -
  have "h \<noteq> Some t"
    using assms between_calls_free [OF assms(2)] by (auto simp: lock_held_by_def)
  with assms(1) show ?thesis by (simp add: lock_held_by_def)
qed

lemma reachable_lock: "threads_reachable cfg s \<Longrightarrow> \<exists>h. lock_held_by s h"
proof (induction rule: threads_reachable.induct)
  case start
  have "lock_held_by (init_threads cfg) None"
    by (simp add: lock_held_by_def init_threads_def new_CircuitBreaker_def transitioning_def)
  then show ?case by blast
next
  case (step s s')
  from step.hyps(2) step.IH show ?case
    by (cases rule: thread_step.cases) (auto intro: lock_held_advance lock_held_begin)
qed

lemma lock_owner: "lock_held_by s h \<Longrightarrow> holds_lock (pcs s t) \<noteq> None \<Longrightarrow> h = Some t"
  by (metis lock_held_by_def)

lemma advance_visible:
  assumes "lock_held_by s h"
  shows "state_of (shared (advance sp t s)) = state_of (shared s)
    \<or> (state_of (shared s), state_of (shared (advance sp t s))) \<in> diagram"
proof -
  obtain p' cb' where at: "atomic sp (pcs s t) (shared s) = (p', cb')"
    by fastforce
  have same: "state_of cb' = state_of (shared s)" if "state_word cb' = state_word (shared s)"
    using that by (simp add: state_of_def)
  from assms have ok: "resumes_ok (pcs s t)" by (simp add: lock_held_by_def)
  show ?thesis
  proof (cases "h = Some t")
    case True
    with assms have "holds_lock (pcs s t) = Some (state_word (shared s))"
      by (simp add: lock_held_by_def)
    from atomic_holder [OF at this ok refl] show ?thesis
      unfolding advance_simps [OF at] using same by argo
  next
    case False
    with assms have "holds_lock (pcs s t) = None" by (simp add: lock_held_by_def)
    from atomic_other [OF at this ok] show ?thesis
      unfolding advance_simps [OF at] using same by argo
  qed
qed

subsection \<open>The slot quota\<close>

definition slot_inv :: "threads \<Rightarrow> bool" where
  "slot_inv s \<longleftrightarrow> (claims s < 2 ^ 64 \<longrightarrow>
     unat (half_open_requests (shared s)) = claims s
     \<and> granted s = min (claims s) (unat (half_open_limit (cb_cfg (shared s)))))"

lemma atomic_requests:
  assumes "atomic sp p cb = (p', cb')"
  shows "half_open_requests cb'
    = (if resets_slots p then 0 else half_open_requests cb + of_bool (is_claim p))"
  using assms by (induction sp p cb rule: atomic.induct) (auto simp: Let_def split: atomic_splits)

text \<open>An access admits its call exactly when it claims a slot below the limit.\<close>

lemma atomic_admits:
  assumes "atomic sp p cb = (p', cb')" "resumes_ok p"
  shows "(admits p' \<and> \<not> admits p \<and> \<not> fast_path p cb)
    = (is_claim p \<and> half_open_requests cb < half_open_limit (cb_cfg cb))"
  using assms by (induction sp p cb rule: atomic.induct)
    (auto simp: Let_def dest: ends_refused_free split: atomic_splits)

lemma unat_claim:
  assumes "unat (r :: u64) = n" "Suc n < 2 ^ 64"
  shows "unat (r + 1) = Suc n"
proof -
  have "r \<noteq> - 1"
    using assms by (auto simp: unat_max_u64)
  then show ?thesis using assms(1) by (simp add: unat_Suc_word)
qed

lemma slot_inv_advance:
  assumes "slot_inv s" "resumes_ok (pcs s t)" shows "slot_inv (advance sp t s)"
proof -
  obtain p' cb' where at: "atomic sp (pcs s t) (shared s) = (p', cb')"
    by fastforce
  have ghost: "claims (advance sp t s)
      = (if resets_slots (pcs s t) then 0 else claims s + of_bool (is_claim (pcs s t)))"
    "granted (advance sp t s)
      = (if resets_slots (pcs s t) then 0 else granted s + of_bool (is_claim (pcs s t) \<and>
          half_open_requests (shared s) < half_open_limit (cb_cfg (shared s))))"
    using at atomic_admits [OF at assms(2)] by (simp_all add: advance_def Let_def)
  note simps = slot_inv_def ghost advance_simps [OF at] atomic_requests [OF at] atomic_cfg [OF at]
  consider (reset) "resets_slots (pcs s t)"
    | (claim) "\<not> resets_slots (pcs s t)" "is_claim (pcs s t)"
    | (other) "\<not> resets_slots (pcs s t)" "\<not> is_claim (pcs s t)"
    by blast
  then show ?thesis
  proof cases
    case claim
    with assms unat_claim [of "half_open_requests (shared s)" "claims s"] show ?thesis
      by (simp add: simps word_less_nat_alt)
  qed (use assms in \<open>simp_all add: simps\<close>)
qed

lemma slot_inv_begin: "slot_inv s \<Longrightarrow> slot_inv (s\<lparr>pcs := ps\<rparr>)"
  by (simp add: slot_inv_def)

lemma reachable_slots: "threads_reachable cfg s \<Longrightarrow> slot_inv s \<and> cb_cfg (shared s) = cfg"
proof (induction rule: threads_reachable.induct)
  case start
  show ?case by (simp add: slot_inv_def init_threads_def new_CircuitBreaker_def)
next
  case (step s s')
  have cfg: "cb_cfg (shared (advance sp t s)) = cb_cfg (shared s)" for sp t
    by (cases "atomic sp (pcs s t) (shared s)") (simp add: advance_simps atomic_cfg)
  have ok: "resumes_ok (pcs s t)" for t
    using reachable_lock [OF step.hyps(1)] by (auto simp: lock_held_by_def)
  from step.hyps(2) show ?case
  proof cases
    case (begin_call t e)
    then show ?thesis using step.IH by (simp add: slot_inv_begin)
  next
    case (access t sp)
    then show ?thesis using step.IH slot_inv_advance [OF _ ok] by (simp add: cfg)
  qed
qed

subsection \<open>Properties of concurrent callers\<close>

text \<open>
  (C13) However calls of any number of threads interleave, at most one thread is
  inside a state transition, and the state visible through \<open>state()\<close> moves
  only along the four edges of the documented diagram.
\<close>

theorem threads_follow_diagram:
  assumes "threads_reachable cfg s"
  shows "(\<forall>t u. holds_lock (pcs s t) \<noteq> None \<and> holds_lock (pcs s u) \<noteq> None \<longrightarrow> t = u)
    \<and> (\<forall>s'. thread_step s s' \<longrightarrow> state_of (shared s') = state_of (shared s)
         \<or> (state_of (shared s), state_of (shared s')) \<in> diagram)"
proof -
  obtain h where h: "lock_held_by s h"
    using reachable_lock [OF assms] by blast
  then have "t = u" if "holds_lock (pcs s t) \<noteq> None" "holds_lock (pcs s u) \<noteq> None" for t u
    using that by (metis lock_owner option.inject)
  moreover have "state_of (shared s') = state_of (shared s)
      \<or> (state_of (shared s), state_of (shared s')) \<in> diagram" if "thread_step s s'" for s'
    using that
  proof cases
    case (access t sp)
    with advance_visible [OF h, of sp t] show ?thesis by simp
  qed simp
  ultimately show ?thesis by blast
qed

text \<open>
  (C14) Probe quota under concurrency: between two resets of the slot counter, at
  most \<open>half_open_max_requests\<close> calls of all threads together are admitted by
  another way than finding the breaker CLOSED, as long as fewer than $2^{64}$ slots
  are claimed.
\<close>

theorem threads_quota:
  assumes "threads_reachable cfg s" "claims s < 2 ^ 64"
  shows "granted s \<le> unat (half_open_limit cfg)"
  using reachable_slots [OF assms(1)] assms(2) by (auto simp: slot_inv_def)

subsection \<open>A thread on its own\<close>

text \<open>The accesses of one call with no other thread in between.\<close>

fun solo :: "nat \<Rightarrow> pc \<Rightarrow> CircuitBreaker \<Rightarrow> pc \<times> CircuitBreaker" where
  "solo 0 p cb = (p, cb)"
| "solo (Suc n) p cb =
     (if between_calls p then (p, cb) else (let (p', cb') = atomic False p cb in solo n p' cb'))"

definition call_result :: "cb_event \<Rightarrow> CircuitBreaker \<Rightarrow> pc" where
  "call_result e cb = (case e of Allow now now' \<Rightarrow> Ret (fst (AllowRequest now now' cb)) | _ \<Rightarrow> Idle)"

lemma solo_done: "between_calls p \<Longrightarrow> solo n p cb = (p, cb)"
  by (cases n) auto

text \<open>
  The uninterrupted operations are exactly what the atomic accesses do when
  no other thread interferes: from any state that is not in transition, every
  call returns within seventeen accesses with the result and the breaker of the
  sequential model.
\<close>

theorem solo_call_is_sequential:
  assumes "\<not> transitioning (state_word cb)"
  shows "solo 17 (Call e) cb = (call_result e cb, cb_step cb e)"
proof -
  note defs = call_result_def cb_op_defs next_success_counts_def transitioning_def Let_def
  show ?thesis
  proof (cases e)
    case (Allow now now')
    with assms show ?thesis
      by (cases "state_word cb") (simp_all add: eval_nat_numeral solo_done defs)
  next
    case Success
    with assms show ?thesis
      by (cases "state_word cb") (simp_all add: eval_nat_numeral solo_done defs)
  next
    case (Failure now)
    with assms show ?thesis
      by (cases "state_word cb") (simp_all add: eval_nat_numeral solo_done defs)
  qed
qed

theorem solo_call_is_sequential_witness:
  "snd (solo 17 (Call (Failure 7)) (new_CircuitBreaker demo_cfg)) = OnFailure 7 (new_CircuitBreaker demo_cfg)"
  using solo_call_is_sequential [of "new_CircuitBreaker demo_cfg" "Failure 7"]
  by (simp add: new_CircuitBreaker_def transitioning_def)




subsection \<open>Schedules\<close>

text \<open>A schedule names the thread that moves next: it starts a call or makes its next access.\<close>

datatype action = Start nat cb_event | Go nat

fun perform :: "threads \<Rightarrow> action \<Rightarrow> threads option" where
  "perform s (Start t e) =
     (if between_calls (pcs s t) then Some (s\<lparr>pcs := (pcs s)(t := Call e)\<rparr>) else None)"
| "perform s (Go t) = (if between_calls (pcs s t) then None else Some (advance False t s))"

fun schedule :: "threads \<Rightarrow> action list \<Rightarrow> threads option" where
  "schedule s [] = Some s"
| "schedule s (a # acts) = (case perform s a of None \<Rightarrow> None | Some s' \<Rightarrow> schedule s' acts)"

lemma perform_step: "perform s a = Some s' \<Longrightarrow> thread_step s s'"
  by (cases a) (auto intro: thread_step.intros split: if_splits)

lemma schedule_reachable:
  "threads_reachable cfg s \<Longrightarrow> schedule s acts = Some s' \<Longrightarrow> threads_reachable cfg s'"
  by (induction acts arbitrary: s)
    (auto split: option.splits dest: perform_step intro: threads_reachable.step)

definition race_cfg :: CircuitBreakerConfig where
  "race_cfg = \<lparr>failure_threshold = 1, success_threshold = 1, open_timeout = 100,
     half_open_max_requests = 1\<rparr>"

text \<open>Thread 2 trips the breaker at time 0: eleven accesses.\<close>

definition trip_acts :: "action list" where
  "trip_acts = Start 2 (Failure 0) # replicate 11 (Go 2)"

text \<open>
  Thread 1 has seen HALF\_OPEN and is about to claim a slot; the probe of thread
  2 fails at time 170 and reopens the breaker.
\<close>

definition stale_claim_acts :: "action list" where
  "stale_claim_acts = trip_acts @ Start 2 (Allow 160 160) # replicate 10 (Go 2)
     @ [Start 1 (Allow 165 165), Go 1] @ Start 2 (Failure 170) # replicate 8 (Go 2)
     @ [Go 1, Go 1]"


lemma stale_claim_run:
  "map_option (\<lambda>s. (pcs s 1, state_word (shared s), open_entered_ms (shared s)))
     (schedule (init_threads race_cfg) stale_claim_acts)
   = Some (Ret True, kOpenInt, 170)"
  by code_simp

lemma schedule_witness:
  assumes "map_option f (schedule (init_threads cfg) acts) = Some r"
  shows "\<exists>s. threads_reachable cfg s \<and> f s = r"
  using assms schedule_reachable [OF threads_reachable.start] by (auto simp: map_option_case split: option.splits)



lemma stale_claim_admitted_while_open:
  "\<exists>s. threads_reachable race_cfg s \<and> pcs s 1 = Ret True \<and> state_word (shared s) = kOpenInt
     \<and> open_entered_ms (shared s) = 170"
  using schedule_witness [OF stale_claim_run] by auto

text \<open>Witnesses: a concrete run of two threads through a probe cycle.\<close>

definition probe_acts :: "action list" where
  "probe_acts = trip_acts @ Start 2 (Allow 160 160) # replicate 10 (Go 2)
     @ [Start 1 (Allow 165 165), Go 1, Go 1]"

lemma probe_run:
  "map_option (\<lambda>s. (claims s, granted s, state_word (shared s), holds_lock (pcs s 1)))
     (schedule (init_threads race_cfg) probe_acts) = Some (2, 1, kHalfOpenInt, None)"
  by code_simp

theorem threads_follow_diagram_witness:
  "\<exists>s. threads_reachable race_cfg s \<and> state_word (shared s) = kHalfOpenInt \<and>
     (\<forall>s'. thread_step s s' \<longrightarrow> state_of (shared s') = kHalfOpen \<or> (kHalfOpen, state_of (shared s')) \<in> diagram)"
proof -
  obtain s where s: "threads_reachable race_cfg s" "state_word (shared s) = kHalfOpenInt"
    using schedule_witness [OF probe_run] by auto
  then have "state_of (shared s) = kHalfOpen" by (simp add: state_of_def)
  with s threads_follow_diagram [OF s(1)] show ?thesis by metis
qed

theorem threads_quota_witness:
  "\<exists>s. threads_reachable race_cfg s \<and> claims s = 2 \<and> granted s = 1
     \<and> granted s \<le> unat (half_open_limit race_cfg)"
proof -
  obtain s where s: "threads_reachable race_cfg s" "claims s = 2" "granted s = 1"
    using schedule_witness [OF probe_run] by auto
  with threads_quota [OF s(1)] show ?thesis by auto
qed

end
