(* ===== verification/Doubles.thy ===== *)
theory Doubles
  imports Complex_Main "HOL-Library.Log_Nat" Prelude
begin

section \<open>Double precision arithmetic\<close>

text \<open>
  The C++ sources compute rates, bursts and timeouts with \<open>double\<close>.  A
  value is a rational number and each operation is the exact one followed by
  \<open>rnd\<close>, the round-to-nearest, ties-to-even rule of IEEE 754 binary64 with a
  53 bit significand.  Overflow to infinity and subnormal numbers are outside
  the model: no value of the modelled code comes near either end of the
  exponent range.
\<close>

type_synonym double = rat

definition exponent_of :: "rat \<Rightarrow> int" where
  "exponent_of x = (let (p, q) = quotient_of x; e = bitlen p - bitlen q in
     if 2 powi e \<le> x then e else e - 1)"

definition round_even :: "rat \<Rightarrow> int" where
  "round_even y = (let n = \<lfloor>y\<rfloor>; d = y - of_int n in
     if d < 1 / 2 then n else if d > 1 / 2 then n + 1 else if even n then n else n + 1)"

definition ulp :: "rat \<Rightarrow> rat" where
  "ulp x = 2 powi (exponent_of x - 52)"

definition rnd :: "rat \<Rightarrow> double" where
  "rnd x = (if x = 0 then 0
     else sgn x * of_int (round_even (\<bar>x\<bar> / ulp \<bar>x\<bar>)) * ulp \<bar>x\<bar>)"

text \<open>\<open>static_cast<uint64_t>\<close>: truncation, defined for values below $2^{64}$.\<close>

definition to_u64 :: "double \<Rightarrow> u64" where
  "to_u64 x = word_of_int \<lfloor>x\<rfloor>"

definition of_u64 :: "u64 \<Rightarrow> double" where
  "of_u64 w = rnd (of_int (uint w))"

subsection \<open>The exponent\<close>

lemma ulp_pos [simp]: "0 < ulp x"
  by (simp add: ulp_def)

lemma ulp_nonzero [simp]: "ulp x \<noteq> 0"
  using ulp_pos [of x] by linarith

lemma bitlen_powi:
  assumes "0 < (p::int)"
  shows "2 powi (bitlen p - 1) \<le> (of_int p :: rat)" "(of_int p :: rat) < 2 powi (bitlen p)"
proof -
  have pos: "0 \<le> bitlen p - 1"
    using assms bitlen_eq_zero_iff [of p] bitlen_nonneg [of p] by linarith
  have b: "2 ^ nat (bitlen p - 1) \<le> p" "p < 2 ^ nat (bitlen p)"
    using bitlen_bounds [OF assms] by auto
  from b(1) have "(of_int (2 ^ nat (bitlen p - 1)) :: rat) \<le> of_int p"
    by (simp only: of_int_le_iff)
  then show "2 powi (bitlen p - 1) \<le> (of_int p :: rat)"
    using pos by (simp add: power_int_nonneg_exp)
  from b(2) have "(of_int p :: rat) < of_int (2 ^ nat (bitlen p))"
    by (simp only: of_int_less_iff)
  then show "(of_int p :: rat) < 2 powi (bitlen p)"
    using pos by (simp add: power_int_nonneg_exp)
qed

lemma exponent_bounds:
  assumes "0 < x"
  shows "2 powi (exponent_of x) \<le> x" "x < 2 powi (exponent_of x + 1)"
proof -
  obtain p q where pq: "quotient_of x = (p, q)" by fastforce
  have q: "0 < q" using quotient_of_denom_pos [OF pq] .
  have x: "x = of_int p / of_int q" using quotient_of_div [OF pq] .
  have p: "0 < p"
    using assms q unfolding x by (simp add: zero_less_divide_iff)
  define e where "e = bitlen p - bitlen q"
  have "2 powi (e - 1) = 2 powi (bitlen p - 1) / (2 powi (bitlen q) :: rat)"
    by (simp add: e_def power_int_diff)
  also have "\<dots> \<le> of_int p / of_int q"
    using bitlen_powi [OF p] bitlen_powi [OF q] p q by (intro frac_le) auto
  finally have lo: "2 powi (e - 1) \<le> x" by (simp add: x)
  have "of_int p / of_int q < 2 powi (bitlen p) / (2 powi (bitlen q - 1) :: rat)"
    using bitlen_powi [OF p] bitlen_powi [OF q] p q by (intro frac_less) auto
  also have "\<dots> = 2 powi (e + 1)"
    by (simp add: e_def power_int_diff power_int_add_1)
  finally have hi: "x < 2 powi (e + 1)" by (simp add: x)
  have ex: "exponent_of x = (if 2 powi e \<le> x then e else e - 1)"
    by (simp add: exponent_of_def pq e_def)
  from lo hi ex show "2 powi (exponent_of x) \<le> x" "x < 2 powi (exponent_of x + 1)"
    by auto
qed

lemma ulp_le: "0 < x \<Longrightarrow> ulp x * 2 ^ 52 \<le> x"
  using exponent_bounds(1) [of x] by (simp add: ulp_def power_int_diff)

subsection \<open>Rounding error and exactness\<close>

lemma round_even_error: "\<bar>of_int (round_even y) - y\<bar> \<le> 1 / 2"
proof -
  have "of_int \<lfloor>y\<rfloor> \<le> y" "y < of_int \<lfloor>y\<rfloor> + 1" by linarith+
  then show ?thesis by (auto simp: round_even_def Let_def abs_le_iff)
qed

lemma round_even_int [simp]: "round_even (of_int n) = n"
  by (simp add: round_even_def)

lemma rnd_zero [simp]: "rnd 0 = 0"
  by (simp add: rnd_def)

lemma rnd_pos: "0 < x \<Longrightarrow> rnd x = of_int (round_even (x / ulp x)) * ulp x"
  by (simp add: rnd_def)

lemma rnd_error:
  assumes "0 \<le> x"
  shows "\<bar>rnd x - x\<bar> \<le> x / 2 ^ 53"
proof (cases "x = 0")
  case False
  with assms have x: "0 < x" by simp
  have "rnd x - x = (of_int (round_even (x / ulp x)) - x / ulp x) * ulp x"
    by (simp add: rnd_pos [OF x] left_diff_distrib)
  then have "\<bar>rnd x - x\<bar> = \<bar>of_int (round_even (x / ulp x)) - x / ulp x\<bar> * ulp x"
    by (simp add: abs_mult abs_of_pos [OF ulp_pos])
  also have "\<dots> \<le> 1 / 2 * ulp x"
    by (intro mult_right_mono round_even_error less_imp_le ulp_pos)
  also have "\<dots> \<le> x / 2 ^ 53"
    using ulp_le [OF x] by (simp add: field_simps)
  finally show ?thesis .
qed simp

text \<open>One operation loses at most a factor \<open>eps\<close>.\<close>

definition eps :: rat where "eps = 1 + 1 / 2 ^ 53"

lemma eps_nonneg [simp]: "0 \<le> eps"
  by (simp add: eps_def)

lemma rnd_upper:
  assumes "0 \<le> x" "x \<le> y" shows "rnd x \<le> y * eps"
proof -
  have "rnd x - x \<le> x / 2 ^ 53"
    using rnd_error [OF assms(1)] by linarith
  then have "rnd x \<le> x * eps" by (simp add: eps_def field_simps)
  also have "\<dots> \<le> y * eps" using assms(2) by (rule mult_right_mono) simp
  finally show ?thesis .
qed

lemma rnd_nonneg: "0 \<le> x \<Longrightarrow> 0 \<le> rnd x"
proof -
  assume "0 \<le> x"
  moreover have "x / 2 ^ 53 \<le> x" using \<open>0 \<le> x\<close> by (simp add: field_simps)
  ultimately show ?thesis using rnd_error [of x] by linarith
qed

lemma rnd_exact: "0 < x \<Longrightarrow> x / ulp x = of_int k \<Longrightarrow> rnd x = x"
  by (simp add: rnd_pos) (metis nonzero_eq_divide_eq ulp_nonzero)

text \<open>Integers up to $2^{53}$ are exact.\<close>

lemma rnd_nat:
  assumes "n \<le> 2 ^ 53"
  shows "rnd (of_nat n) = of_nat n"
proof (cases "n = 0")
  case False
  then have n: "0 < (of_nat n :: rat)" by simp
  let ?e = "exponent_of (of_nat n)"
  have "2 powi ?e \<le> (2 :: rat) ^ 53"
    using exponent_bounds(1) [OF n] assms
    by (metis (mono_tags, lifting) of_nat_le_iff of_nat_numeral of_nat_power order_trans)
  then have "2 powi ?e \<le> (2 :: rat) powi 53" by simp
  then have e: "?e \<le> 53" by (rule power_int_le_imp_le_exp [rotated]) auto
  show ?thesis
  proof (cases "?e \<le> 52")
    case True
    have "of_nat n / ulp (of_nat n) = of_nat n * 2 powi (52 - ?e)"
      by (simp add: ulp_def power_int_diff field_simps)
    also have "\<dots> = of_int (int n * 2 ^ nat (52 - ?e))"
      using True by (simp add: power_int_nonneg_exp)
    finally show ?thesis by (rule rnd_exact [OF n])
  next
    case False
    with e have e53: "?e = 53" by simp
    with exponent_bounds(1) [OF n] have "(2 :: rat) ^ 53 \<le> of_nat n" by simp
    then have "2 ^ 53 \<le> n"
      by (metis of_nat_le_iff of_nat_numeral of_nat_power)
    with assms have n53: "n = 2 ^ 53" by simp
    have "(of_nat n :: rat) / ulp (of_nat n) = of_int (2 ^ 52)"
      unfolding ulp_def e53 by (simp add: n53)
    then show ?thesis by (rule rnd_exact [OF n])
  qed
qed simp

lemma of_u64_nat: "of_u64 w = rnd (of_nat (unat w))"
  by (simp add: of_u64_def)

lemma of_u64_bounds: "of_u64 w \<le> of_nat (unat w) * eps" "0 \<le> of_u64 w"
  unfolding of_u64_nat by (intro rnd_upper rnd_nonneg of_nat_0_le_iff order_refl)+

lemma unat_word_of_int_le: "0 \<le> k \<Longrightarrow> int (unat (word_of_int k :: 'a::len word)) \<le> k"
  by (simp add: unat_eq_nat_uint uint_word_of_int_eq take_bit_int_less_eq_self_iff)

lemma to_u64_le: "0 \<le> x \<Longrightarrow> of_nat (unat (to_u64 x)) \<le> x"
proof -
  assume "0 \<le> x"
  then have "int (unat (to_u64 x)) \<le> \<lfloor>x\<rfloor>"
    unfolding to_u64_def by (intro unat_word_of_int_le) simp
  then show ?thesis by (simp add: le_floor_iff)
qed

lemma unat_to_u64: "0 \<le> x \<Longrightarrow> x < 2 ^ 64 \<Longrightarrow> unat (to_u64 x) = nat \<lfloor>x\<rfloor>"
  by (simp add: to_u64_def unat_eq_nat_uint uint_word_of_int_eq take_bit_int_eq_self floor_less_iff)

subsection \<open>Monotonicity\<close>

lemma round_even_mono:
  assumes "y \<le> z" shows "round_even y \<le> round_even z"
proof (cases "\<lfloor>y\<rfloor> = \<lfloor>z\<rfloor>")
  case True
  with assms show ?thesis by (auto simp: round_even_def Let_def)
next
  case False
  with floor_mono [OF assms] have "\<lfloor>y\<rfloor> + 1 \<le> \<lfloor>z\<rfloor>" by simp
  moreover have "round_even y \<le> \<lfloor>y\<rfloor> + 1" "\<lfloor>z\<rfloor> \<le> round_even z"
    by (simp_all add: round_even_def Let_def)
  ultimately show ?thesis by linarith
qed

lemma exponent_mono:
  assumes "0 < x" "x \<le> y" shows "exponent_of x \<le> exponent_of y"
proof (rule ccontr)
  assume "\<not> ?thesis"
  then have "(2 :: rat) powi (exponent_of y + 1) \<le> 2 powi (exponent_of x)"
    by (intro power_int_increasing) auto
  with exponent_bounds [of x] exponent_bounds [of y] assms show False by linarith
qed

lemma rnd_binade:
  assumes "0 < x"
  shows "2 powi (exponent_of x) \<le> rnd x" "rnd x \<le> 2 powi (exponent_of x + 1)"
proof -
  have u: "ulp x = 2 powi (exponent_of x) / 2 ^ 52"
    by (simp add: ulp_def power_int_diff)
  have "x < 2 * 2 powi (exponent_of x)"
    using exponent_bounds(2) [OF assms] by (simp add: power_int_add)
  with exponent_bounds(1) [OF assms] have "(2 ^ 52 :: rat) \<le> x / ulp x" "x / ulp x \<le> 2 ^ 53"
    by (simp_all add: u field_simps)
  then have "round_even (of_int (2 ^ 52)) \<le> round_even (x / ulp x)"
    "round_even (x / ulp x) \<le> round_even (of_int (2 ^ 53))"
    by (auto intro!: round_even_mono)
  then have "2 ^ 52 \<le> round_even (x / ulp x)" "round_even (x / ulp x) \<le> 2 ^ 53"
    by (simp_all only: round_even_int)
  then have "(of_int (2 ^ 52) :: rat) \<le> of_int (round_even (x / ulp x))"
    "(of_int (round_even (x / ulp x)) :: rat) \<le> of_int (2 ^ 53)"
    by (simp_all only: of_int_le_iff)
  then have "2 ^ 52 * ulp x \<le> rnd x" "rnd x \<le> 2 ^ 53 * ulp x"
    using ulp_pos [of x] by (simp_all add: rnd_pos [OF assms])
  then show "2 powi (exponent_of x) \<le> rnd x" "rnd x \<le> 2 powi (exponent_of x + 1)"
    by (simp_all add: u power_int_add_1)
qed

lemma rnd_mono:
  assumes "0 \<le> x" "x \<le> y" shows "rnd x \<le> rnd y"
proof (cases "x = 0")
  case True
  with assms show ?thesis by (simp add: rnd_nonneg)
next
  case False
  with assms have x: "0 < x" and y: "0 < y" by simp_all
  show ?thesis
  proof (cases "exponent_of x = exponent_of y")
    case True
    then have u: "ulp x = ulp y" by (simp add: ulp_def)
    have "x / ulp y \<le> y / ulp y"
      using assms(2) by (intro divide_right_mono) (auto simp: less_imp_le)
    from round_even_mono [OF this] show ?thesis
      using x y u ulp_pos [of y] by (simp add: rnd_pos mult_right_mono)
  next
    case False
    with exponent_mono [OF x assms(2)] have "exponent_of x + 1 \<le> exponent_of y" by simp
    then have "(2 :: rat) powi (exponent_of x + 1) \<le> 2 powi (exponent_of y)"
      by (intro power_int_increasing) auto
    with rnd_binade(2) [OF x] rnd_binade(1) [OF y] show ?thesis by linarith
  qed
qed

end
