(* ===== verification/RateLimiter.thy ===== *)
theory RateLimiter
  imports Doubles
begin

section \<open>Token buckets and the rate limiter\<close>

text \<open>
  Model of include/coropact/gateway/rate\_limiter.h: \<open>TokenBucket\<close> with its
  fixed-point balance and double precision refill, and \<open>RateLimiter\<close> with
  its table of per-address buckets, admission bound and eviction sweep.  Every
  reading of the steady clock is an argument.  The mutexes make each operation
  atomic, so an operation is one function.
\<close>

subsection \<open>Token bucket\<close>

record TokenBucket =
  last_refill_ms :: u64
  scaled_tokens :: u64
  tb_rate :: double
  tb_burst :: double

definition kScale :: u64 where "kScale = 1000000"

definition burst_scaled :: "double \<Rightarrow> u64" where
  "burst_scaled burst = to_u64 (rnd (burst * 1000000))"

definition new_TokenBucket :: "u64 \<Rightarrow> double \<Rightarrow> double \<Rightarrow> TokenBucket" where
  "new_TokenBucket now rate burst =
     \<lparr>last_refill_ms = now, scaled_tokens = burst_scaled burst, tb_rate = rate, tb_burst = burst\<rparr>"

definition refill_real :: "double \<Rightarrow> u64 \<Rightarrow> double" where
  "refill_real rate elapsed = rnd (rnd (rnd (of_u64 elapsed * rate) * 1000000) / 1000)"

definition refill_units :: "double \<Rightarrow> u64 \<Rightarrow> u64" where
  "refill_units rate elapsed = to_u64 (refill_real rate elapsed)"

definition TryConsume :: "u64 \<Rightarrow> TokenBucket \<Rightarrow> bool \<times> TokenBucket" where
  "TryConsume now b =
     (let current = scaled_tokens b; last = last_refill_ms b;
          elapsed = (if last < now then now - last else 0);
          refill = refill_units (tb_rate b) elapsed;
          cap = burst_scaled (tb_burst b);
          sum = current + refill;
          new_tokens = (if cap < sum then cap else sum);
          b1 = b\<lparr>last_refill_ms := now\<rparr> in
      if new_tokens < kScale then (False, b1\<lparr>scaled_tokens := new_tokens\<rparr>)
      else (True, b1\<lparr>scaled_tokens := new_tokens - kScale\<rparr>))"

definition RefilledToFull :: "u64 \<Rightarrow> TokenBucket \<Rightarrow> bool" where
  "RefilledToFull now b =
     (if tb_rate b \<le> 0 then False
      else if now \<le> last_refill_ms b then False
      else rnd (rnd (tb_burst b / tb_rate b) * 1000) \<le> of_u64 (now - last_refill_ms b))"

text \<open>A sequence of calls at the given times: how many are accepted, and the bucket after.\<close>

fun consume_all :: "TokenBucket \<Rightarrow> u64 list \<Rightarrow> nat \<times> TokenBucket" where
  "consume_all b [] = (0, b)"
| "consume_all b (t # ts) =
     (let (ok, b1) = TryConsume t b; (n, b2) = consume_all b1 ts in (of_bool ok + n, b2))"

subsection \<open>Rate limiter\<close>

record RateLimiterConfig =
  global_enabled :: bool
  global_rate :: double
  global_burst :: double
  per_ip_enabled :: bool
  per_ip_rate :: double
  per_ip_burst :: double
  per_ip_max_buckets :: nat

record RateLimiter =
  rl_config :: RateLimiterConfig
  global_bucket :: TokenBucket
  ip_buckets :: "(string \<times> TokenBucket) list"
  last_evict_ms :: u64

definition new_RateLimiter :: "u64 \<Rightarrow> RateLimiterConfig \<Rightarrow> RateLimiter" where
  "new_RateLimiter now cfg = \<lparr>rl_config = cfg,
     global_bucket = new_TokenBucket now (global_rate cfg) (global_burst cfg),
     ip_buckets = [], last_evict_ms = 0\<rparr>"

definition AllowGlobal :: "u64 \<Rightarrow> RateLimiter \<Rightarrow> bool \<times> RateLimiter" where
  "AllowGlobal now rl =
     (if \<not> global_enabled (rl_config rl) then (True, rl)
      else let (ok, b) = TryConsume now (global_bucket rl) in (ok, rl\<lparr>global_bucket := b\<rparr>))"

definition kEvictIntervalMs :: u64 where "kEvictIntervalMs = 1000"

definition EvictFullBucketsLocked :: "u64 \<Rightarrow> RateLimiter \<Rightarrow> RateLimiter" where
  "EvictFullBucketsLocked now rl =
     (if now - last_evict_ms rl < kEvictIntervalMs then rl
      else rl\<lparr>last_evict_ms := now,
              ip_buckets := filter (\<lambda>(_, b). \<not> RefilledToFull now b) (ip_buckets rl)\<rparr>)"

text \<open>The entry of a key replaced in place, as through an iterator.\<close>

definition set_bucket :: "string \<Rightarrow> TokenBucket \<Rightarrow> (string \<times> TokenBucket) list \<Rightarrow> (string \<times> TokenBucket) list" where
  "set_bucket ip b bs = map (\<lambda>(k, v). if k = ip then (k, b) else (k, v)) bs"

text \<open>
  \<open>now_e\<close> is read by the eviction sweep, \<open>now_c\<close> by the constructor of
  a new bucket, \<open>now\<close> by \<open>TryConsume\<close>.
\<close>

definition AllowPerIP :: "u64 \<Rightarrow> u64 \<Rightarrow> u64 \<Rightarrow> string \<Rightarrow> RateLimiter \<Rightarrow> bool \<times> RateLimiter" where
  "AllowPerIP now_e now_c now ip rl =
     (let cfg = rl_config rl in
      if \<not> per_ip_enabled cfg then (True, rl)
      else case map_of (ip_buckets rl) ip of
        Some b \<Rightarrow> (let (ok, b') = TryConsume now b in
                   (ok, rl\<lparr>ip_buckets := set_bucket ip b' (ip_buckets rl)\<rparr>))
      | None \<Rightarrow>
          (let rl1 = (if per_ip_max_buckets cfg \<noteq> 0 \<and> per_ip_max_buckets cfg \<le> length (ip_buckets rl)
                      then EvictFullBucketsLocked now_e rl else rl) in
           if per_ip_max_buckets cfg \<noteq> 0 \<and> per_ip_max_buckets cfg \<le> length (ip_buckets rl1)
           then (False, rl1)
           else let (ok, b) = TryConsume now (new_TokenBucket now_c (per_ip_rate cfg) (per_ip_burst cfg)) in
                (ok, rl1\<lparr>ip_buckets := (ip, b) # ip_buckets rl1\<rparr>)))"

definition per_ip_bucket_count :: "RateLimiter \<Rightarrow> nat" where
  "per_ip_bucket_count rl = length (ip_buckets rl)"

subsection \<open>Accounting of one bucket\<close>

lemma unat_plus_le: "unat (a + b :: 'a::len word) \<le> unat a + unat b"
  by (simp add: unat_word_ariths)

lemma refill_real_bounds:
  assumes "0 \<le> rate"
  shows "refill_real rate el \<le> of_nat (unat el) * rate * 1000 * eps ^ 4" "0 \<le> refill_real rate el"
proof -
  let ?n = "of_nat (unat el) :: rat"
  note n = of_u64_bounds [of el]
  have "of_u64 el * rate \<le> ?n * eps * rate"
    using n assms by (intro mult_right_mono) auto
  then have a: "rnd (of_u64 el * rate) \<le> ?n * eps * rate * eps" "0 \<le> rnd (of_u64 el * rate)"
    using n assms by (auto intro: rnd_upper rnd_nonneg)
  then have b: "rnd (rnd (of_u64 el * rate) * 1000000) \<le> ?n * eps * rate * eps * 1000000 * eps"
    "0 \<le> rnd (rnd (of_u64 el * rate) * 1000000)"
    by (auto intro: rnd_upper rnd_nonneg)
  have "refill_real rate el \<le> ?n * eps * rate * eps * 1000000 * eps / 1000 * eps"
    unfolding refill_real_def
    using b(2) divide_right_mono [OF b(1), of 1000] by (intro rnd_upper) simp_all
  also have "\<dots> = ?n * rate * 1000 * eps ^ 4"
    by (simp add: eval_nat_numeral)
  finally show "refill_real rate el \<le> ?n * rate * 1000 * eps ^ 4" .
  show "0 \<le> refill_real rate el"
    unfolding refill_real_def using b(2) by (intro rnd_nonneg) simp
qed

lemma refill_units_le:
  assumes "0 \<le> rate"
  shows "of_nat (unat (refill_units rate el)) \<le> of_nat (unat el) * rate * 1000 * eps ^ 4"
  unfolding refill_units_def
  using refill_real_bounds [OF assms] to_u64_le order_trans by blast

lemma TryConsume_account:
  assumes "TryConsume now b = (ok, b')"
  shows "unat (scaled_tokens b') + (if ok then 1000000 else 0)
      \<le> unat (scaled_tokens b)
        + unat (refill_units (tb_rate b) (if last_refill_ms b < now then now - last_refill_ms b else 0))"
    and "last_refill_ms b' = now" "tb_rate b' = tb_rate b" "tb_burst b' = tb_burst b"
    and "scaled_tokens b' \<le> burst_scaled (tb_burst b)"
proof -
  let ?r = "refill_units (tb_rate b) (if last_refill_ms b < now then now - last_refill_ms b else 0)"
  define m where "m = (if burst_scaled (tb_burst b) < scaled_tokens b + ?r
    then burst_scaled (tb_burst b) else scaled_tokens b + ?r)"
  have m: "m \<le> scaled_tokens b + ?r" "m \<le> burst_scaled (tb_burst b)"
    by (auto simp: m_def not_less)
  have res: "TryConsume now b = (if m < kScale then (False, b\<lparr>last_refill_ms := now, scaled_tokens := m\<rparr>)
      else (True, b\<lparr>last_refill_ms := now, scaled_tokens := m - kScale\<rparr>))"
    by (simp add: TryConsume_def m_def Let_def)
  have le: "unat m \<le> unat (scaled_tokens b) + unat ?r"
    using m(1) unat_plus_le [of "scaled_tokens b" ?r] by (simp add: word_le_nat_alt)
  have sub: "unat (m - kScale) + 1000000 = unat m" "m - kScale \<le> m" if "\<not> m < kScale"
    using that by (auto simp: kScale_def word_less_nat_alt word_le_nat_alt unat_sub not_less)
  show "unat (scaled_tokens b') + (if ok then 1000000 else 0) \<le> unat (scaled_tokens b) + unat ?r"
    using assms res le sub by (auto split: if_splits)
  show "last_refill_ms b' = now" "tb_rate b' = tb_rate b" "tb_burst b' = tb_burst b"
    using assms res by (auto split: if_splits)
  show "scaled_tokens b' \<le> burst_scaled (tb_burst b)"
    using assms res m(2) sub(2) by (auto split: if_splits)
qed

text \<open>Times of calls on a steady clock, starting at the last refill.\<close>

fun steady_from :: "u64 \<Rightarrow> u64 list \<Rightarrow> bool" where
  "steady_from t [] = True"
| "steady_from t (u # us) \<longleftrightarrow> t \<le> u \<and> steady_from u us"

lemma steady_from_last: "steady_from t us \<Longrightarrow> t \<le> last (t # us)"
proof (induction us arbitrary: t)
  case (Cons u us)
  then have "t \<le> u" "u \<le> last (u # us)" by simp_all
  then show ?case by (auto intro: order_trans)
qed simp

lemma consume_all_account:
  assumes "0 \<le> tb_rate b" "steady_from (last_refill_ms b) ts" "consume_all b ts = (n, b')"
  shows "of_nat n * 1000000 + of_nat (unat (scaled_tokens b'))
    \<le> of_nat (unat (scaled_tokens b))
      + of_nat (unat (last (last_refill_ms b # ts)) - unat (last_refill_ms b)) * (tb_rate b * 1000 * eps ^ 4)"
  using assms
proof (induction ts arbitrary: b n)
  case (Cons t ts)
  obtain ok b1 where tc: "TryConsume t b = (ok, b1)" by fastforce
  obtain n1 where rest: "consume_all b1 ts = (n1, b')" and n: "n = of_bool ok + n1"
    using Cons.prems(3) tc by (auto split: prod.splits)
  note acc = TryConsume_account [OF tc]
  let ?c = "tb_rate b * 1000 * eps ^ 4"
  let ?el = "if last_refill_ms b < t then t - last_refill_ms b else 0"
  let ?last = "last (t # ts)"
  have le: "last_refill_ms b \<le> t" and st: "steady_from t ts" using Cons.prems(2) by simp_all
  have el: "unat ?el = unat t - unat (last_refill_ms b)"
    using le by (auto simp: unat_sub word_le_nat_alt not_less word_less_nat_alt)
  have "t \<le> ?last" using steady_from_last [OF st] .
  then have "unat (last_refill_ms b) \<le> unat t" "unat t \<le> unat ?last"
    using le by (simp_all add: word_le_nat_alt)
  then have split: "unat ?last - unat (last_refill_ms b) = (unat t - unat (last_refill_ms b)) + (unat ?last - unat t)"
    by simp
  have step: "of_bool ok * 1000000 + of_nat (unat (scaled_tokens b1))
      \<le> of_nat (unat (scaled_tokens b)) + of_nat (unat t - unat (last_refill_ms b)) * ?c"
  proof -
    have "(of_nat (unat (scaled_tokens b1) + (if ok then 1000000 else 0)) :: rat)
        \<le> of_nat (unat (scaled_tokens b) + unat (refill_units (tb_rate b) ?el))"
      using acc(1) by (simp only: of_nat_le_iff)
    then have "of_bool ok * 1000000 + of_nat (unat (scaled_tokens b1))
        \<le> of_nat (unat (scaled_tokens b)) + (of_nat (unat (refill_units (tb_rate b) ?el)) :: rat)"
      by (cases ok) (simp_all only: of_nat_add if_True if_False of_bool_eq of_nat_numeral of_nat_0 algebra_simps)
    also have "(of_nat (unat (refill_units (tb_rate b) ?el)) :: rat) \<le> of_nat (unat ?el) * tb_rate b * 1000 * eps ^ 4"
      by (rule refill_units_le [OF Cons.prems(1)])
    finally show ?thesis unfolding el by (simp only: mult.assoc add_left_mono)
  qed
  have "of_nat n1 * 1000000 + of_nat (unat (scaled_tokens b'))
      \<le> of_nat (unat (scaled_tokens b1)) + of_nat (unat ?last - unat t) * ?c"
    using Cons.IH [of b1 n1] Cons.prems(1) st rest acc by simp
  with step have "of_nat n * 1000000 + of_nat (unat (scaled_tokens b'))
      \<le> of_nat (unat (scaled_tokens b)) + of_nat (unat t - unat (last_refill_ms b)) * ?c
        + of_nat (unat ?last - unat t) * ?c"
    unfolding n of_nat_add of_nat_of_bool distrib_right by linarith
  then show ?case
    unfolding list.simps last_ConsR [OF list.distinct(2)] split of_nat_add distrib_right by linarith
qed simp

subsection \<open>Rate, burst and starvation\<close>

lemma burst_scaled_le: "0 \<le> burst \<Longrightarrow> of_nat (unat (burst_scaled burst)) \<le> burst * 1000000 * eps"
  unfolding burst_scaled_def
  by (rule order_trans [OF to_u64_le rnd_upper]) (auto intro: rnd_nonneg)

lemma admitted_bound:
  assumes "0 \<le> tb_rate b" "0 \<le> tb_burst b" "scaled_tokens b \<le> burst_scaled (tb_burst b)"
    and "steady_from (last_refill_ms b) ts"
  shows "of_nat (fst (consume_all b ts))
    \<le> tb_burst b * eps
      + tb_rate b * (of_nat (unat (last (last_refill_ms b # ts)) - unat (last_refill_ms b)) / 1000) * eps ^ 4"
proof -
  obtain n b' where run: "consume_all b ts = (n, b')" by fastforce
  let ?T = "of_nat (unat (last (last_refill_ms b # ts)) - unat (last_refill_ms b)) :: rat"
  have "of_nat (unat (scaled_tokens b)) \<le> (of_nat (unat (burst_scaled (tb_burst b))) :: rat)"
    using assms(3) by (simp only: of_nat_le_iff word_le_nat_alt)
  also have "\<dots> \<le> tb_burst b * 1000000 * eps" by (rule burst_scaled_le [OF assms(2)])
  finally have tok: "of_nat (unat (scaled_tokens b)) \<le> tb_burst b * 1000000 * eps" .
  have "(0 :: rat) \<le> of_nat (unat (scaled_tokens b'))" by (rule of_nat_0_le_iff)
  with consume_all_account [OF assms(1,4) run] tok
  have "of_nat n * 1000000 \<le> tb_burst b * 1000000 * eps + ?T * (tb_rate b * 1000 * eps ^ 4)"
    by linarith
  also have "\<dots> = (tb_burst b * eps + tb_rate b * (?T / 1000) * eps ^ 4) * 1000000"
    by (simp add: distrib_right)
  finally have "of_nat n \<le> tb_burst b * eps + tb_rate b * (?T / 1000) * eps ^ 4"
    by (rule mult_right_le_imp_le) simp
  then show ?thesis unfolding run fst_conv .
qed

text \<open>
  (C21) The rate limit: over any sequence of calls on a steady clock, the number
  of accepted requests is at most the burst plus the rate times the elapsed
  seconds, up to the rounding of five double operations (a relative error below
  $2^{-50}$).
\<close>

theorem admitted_rate_bound:
  assumes "0 \<le> tb_rate b" "0 \<le> tb_burst b" "scaled_tokens b \<le> burst_scaled (tb_burst b)"
    and "steady_from (last_refill_ms b) ts"
  shows "of_nat (fst (consume_all b ts))
    \<le> tb_burst b * eps
      + tb_rate b * (of_nat (unat (last (last_refill_ms b # ts)) - unat (last_refill_ms b)) / 1000) * eps ^ 4"
  by (rule admitted_bound [OF assms])

definition demo_bucket :: TokenBucket where
  "demo_bucket = new_TokenBucket 0 10 2"

lemma refill_units_0 [simp]: "refill_units rate 0 = 0"
  by (simp add: refill_units_def refill_real_def of_u64_def to_u64_def)

lemma demo_units: "refill_units 10 100 = 1000000" "burst_scaled 2 = 2000000"
  by code_simp+

theorem admitted_rate_bound_witness:
  "of_nat (fst (consume_all demo_bucket [0, 0, 0, 100])) \<le> 2 * eps + 10 * (100 / 1000) * eps ^ 4
   \<and> fst (consume_all demo_bucket [0, 0, 0, 100]) = 3"
proof -
  have "consume_all demo_bucket [0, 0, 0, 100] = (3, demo_bucket\<lparr>last_refill_ms := 100, scaled_tokens := 0\<rparr>)"
    by (simp add: demo_bucket_def new_TokenBucket_def TryConsume_def kScale_def demo_units)
  then show ?thesis
    using admitted_rate_bound [of demo_bucket "[0, 0, 0, 100]"]
    by (simp add: demo_bucket_def new_TokenBucket_def)
qed

lemma TryConsume_same_time:
  assumes "scaled_tokens b \<le> burst_scaled (tb_burst b)"
  shows "TryConsume (last_refill_ms b) b
    = (if scaled_tokens b < kScale then (False, b) else (True, b\<lparr>scaled_tokens := scaled_tokens b - kScale\<rparr>))"
  using assms by (cases b) (auto simp: TryConsume_def Let_def not_less)

lemma fst_consume_all:
  "fst (consume_all b (t # ts)) = of_bool (fst (TryConsume t b)) + fst (consume_all (snd (TryConsume t b)) ts)"
  by (simp split: prod.split)

text \<open>
  The burst: of $k$ requests at the instant of the last refill exactly
  $\min(k, t)$ are accepted, where $t$ is the number of whole tokens in the
  bucket.
\<close>

theorem burst_exact:
  assumes "scaled_tokens b \<le> burst_scaled (tb_burst b)"
  shows "fst (consume_all b (replicate k (last_refill_ms b))) = min k (unat (scaled_tokens b) div 1000000)"
  using assms
proof (induction k arbitrary: b)
  case (Suc k)
  note step = TryConsume_same_time [OF Suc.prems]
  show ?case
  proof (cases "scaled_tokens b < kScale")
    case True
    have "fst (consume_all b (replicate k (last_refill_ms b))) = min k 0"
      using Suc True by (simp add: word_less_nat_alt kScale_def)
    with True step show ?thesis
      by (simp add: fst_consume_all word_less_nat_alt kScale_def del: consume_all.simps)
  next
    case False
    let ?b = "b\<lparr>scaled_tokens := scaled_tokens b - kScale\<rparr>"
    from False have ge: "1000000 \<le> unat (scaled_tokens b)"
      by (simp add: word_less_nat_alt kScale_def)
    have sub: "unat (scaled_tokens ?b) = unat (scaled_tokens b) - 1000000"
      using False by (simp add: unat_sub kScale_def word_less_nat_alt word_le_nat_alt)
    have "scaled_tokens ?b \<le> burst_scaled (tb_burst ?b)"
      using Suc.prems sub by (simp add: word_le_nat_alt)
    from Suc.IH [OF this] ge sub step False show ?thesis
      by (simp add: fst_consume_all le_div_geq del: consume_all.simps)
  qed
qed simp

theorem burst_exact_witness: "fst (consume_all demo_bucket (replicate 5 0)) = 2"
  using burst_exact [of demo_bucket 5] by (simp add: demo_bucket_def new_TokenBucket_def demo_units)

text \<open>Times one millisecond apart.\<close>

fun every_ms :: "u64 \<Rightarrow> u64 list \<Rightarrow> bool" where
  "every_ms t [] = True"
| "every_ms t (u # us) \<longleftrightarrow> u = t + 1 \<and> t < u \<and> every_ms u us"

text \<open>
  (C23) Starvation: each call truncates the refill of its own interval and moves
  the refill time forward, so the fraction is lost.  A bucket with less than one
  token whose refill for one millisecond truncates to nothing never accepts a
  request of a client that calls every millisecond, for however long.
\<close>

theorem polling_starves:
  assumes "refill_units (tb_rate b) 1 = 0" "scaled_tokens b < kScale" "every_ms (last_refill_ms b) ts"
  shows "fst (consume_all b ts) = 0"
  using assms
proof (induction ts arbitrary: b)
  case (Cons t ts)
  obtain ok b1 where tc: "TryConsume t b = (ok, b1)" by fastforce
  have "t - last_refill_ms b = 1" "last_refill_ms b < t"
    using Cons.prems(3) by (metis add_diff_cancel_left' every_ms.simps(2))+
  then have el: "(if last_refill_ms b < t then t - last_refill_ms b else 0) = 1" by simp
  have cap: "(if burst_scaled (tb_burst b) < scaled_tokens b + 0
      then burst_scaled (tb_burst b) else scaled_tokens b + 0) < kScale"
    using Cons.prems(2) by auto
  have "\<not> ok \<and> scaled_tokens b1 < kScale"
    using tc cap unfolding TryConsume_def Let_def el Cons.prems(1) by (auto split: if_splits)
  moreover have "every_ms (last_refill_ms b1) ts" "refill_units (tb_rate b1) 1 = 0"
    using TryConsume_account [OF tc] Cons.prems(1,3) by auto
  ultimately have "fst (consume_all b1 ts) = 0" by (intro Cons.IH) auto
  with tc \<open>\<not> ok \<and> _\<close> show ?case
    by (simp add: fst_consume_all del: consume_all.simps)
qed simp

theorem polling_starves_witness:
  "fst (consume_all ((new_TokenBucket 0 (1 / 2048) 5)\<lparr>scaled_tokens := 999999\<rparr>) [1, 2, 3]) = 0"
proof -
  have "refill_units (1 / 2048) 1 = 0" by code_simp
  then show ?thesis
    using polling_starves [of "(new_TokenBucket 0 (1 / 2048) 5)\<lparr>scaled_tokens := 999999\<rparr>" "[1, 2, 3]"]
    by (simp add: new_TokenBucket_def kScale_def)
qed

subsection \<open>Eviction\<close>

lemma TryConsume_full:
  assumes "unat (scaled_tokens b) + unat (refill_units (tb_rate b) (now - last_refill_ms b)) < 2 ^ 64"
    and "unat (burst_scaled (tb_burst b))
       \<le> unat (scaled_tokens b) + unat (refill_units (tb_rate b) (now - last_refill_ms b))"
    and "last_refill_ms b \<le> now"
  shows "TryConsume now b = (let m = burst_scaled (tb_burst b) in
    if m < kScale then (False, b\<lparr>last_refill_ms := now, scaled_tokens := m\<rparr>)
    else (True, b\<lparr>last_refill_ms := now, scaled_tokens := m - kScale\<rparr>))"
proof -
  let ?r = "refill_units (tb_rate b) (now - last_refill_ms b)"
  have el: "refill_units (tb_rate b) (if last_refill_ms b < now then now - last_refill_ms b else 0) = ?r"
    using assms(3) by auto
  have "unat (scaled_tokens b + ?r) = unat (scaled_tokens b) + unat ?r"
    using assms(1) by (simp add: unat_word_ariths)
  with assms(2) have "burst_scaled (tb_burst b) \<le> scaled_tokens b + ?r"
    by (simp add: word_le_nat_alt)
  then have "(if burst_scaled (tb_burst b) < scaled_tokens b + ?r then burst_scaled (tb_burst b)
      else scaled_tokens b + ?r) = burst_scaled (tb_burst b)" by auto
  then show ?thesis by (simp only: TryConsume_def Let_def el)
qed

text \<open>
  Whole-number settings whose refill arithmetic is exact: a rate that divides
  the burst, and a burst small enough for a 53 bit significand.
\<close>

definition exact_settings :: "nat \<Rightarrow> nat \<Rightarrow> bool" where
  "exact_settings R B \<longleftrightarrow> 0 < R \<and> R dvd B \<and> B * 1000000000 \<le> 2 ^ 53"

lemma refill_covers_burst:
  assumes "exact_settings R B" "of_nat B / of_nat R * 1000 \<le> (of_nat el :: rat)" "el \<le> 2 ^ 53"
  shows "of_nat B * 1000000 \<le> rnd (rnd (rnd (of_nat el * of_nat R) * 1000000) / 1000)"
proof -
  have R: "0 < (of_nat R :: rat)" and B: "B * 1000000000 \<le> 2 ^ 53"
    using assms(1) by (auto simp: exact_settings_def)
  have "of_nat B * 1000 \<le> (of_nat el * of_nat R :: rat)"
    using assms(2) R by (simp add: field_simps)
  then have "rnd (of_nat (B * 1000)) \<le> rnd (of_nat el * of_nat R)"
    by (intro rnd_mono) auto
  then have "of_nat (B * 1000) \<le> rnd (of_nat el * of_nat R)"
    using B by (subst (asm) rnd_nat) auto
  then have "rnd (of_nat (B * 1000000000)) \<le> rnd (rnd (of_nat el * of_nat R) * 1000000)"
    by (intro rnd_mono) auto
  then have "of_nat (B * 1000000000) \<le> rnd (rnd (of_nat el * of_nat R) * 1000000)"
    using B by (subst (asm) rnd_nat) auto
  then have "rnd (of_nat (B * 1000000)) \<le> rnd (rnd (rnd (of_nat el * of_nat R) * 1000000) / 1000)"
    by (intro rnd_mono) auto
  then show ?thesis
    using B by (subst (asm) rnd_nat) auto
qed

lemma full_ms_exact:
  assumes "exact_settings R B"
  shows "rnd (rnd (of_nat B / of_nat R) * 1000) = of_nat B / of_nat R * 1000"
proof -
  obtain k where k: "B = R * k" and "0 < R" and B: "B * 1000000000 \<le> 2 ^ 53"
    using assms unfolding exact_settings_def dvd_def by blast
  then have q: "of_nat B / of_nat R = (of_nat k :: rat)" by simp
  have "k \<le> B" using k \<open>0 < R\<close> by simp
  with B have "k * 1000 \<le> 2 ^ 53" "k \<le> 2 ^ 53" by linarith+
  then have "rnd (of_nat k) = of_nat k" "rnd (of_nat (k * 1000)) = of_nat (k * 1000)"
    by (simp_all only: rnd_nat)
  then show ?thesis by (simp add: q)
qed

lemma burst_scaled_exact:
  assumes "exact_settings R B"
  shows "unat (burst_scaled (of_nat B)) = B * 1000000"
proof -
  let ?n = "of_nat (B * 1000000) :: rat"
  have B: "B * 1000000 \<le> 2 ^ 53" using assms by (simp add: exact_settings_def)
  have "of_nat B * 1000000 = ?n" by simp
  then have eq: "burst_scaled (of_nat B) = to_u64 ?n"
    unfolding burst_scaled_def using rnd_nat [OF B] by (simp only:)
  have "B * 1000000 < 2 ^ 64" using B by simp
  then have "?n < of_nat (2 ^ 64)" by (simp only: of_nat_less_iff)
  then have "?n < 2 ^ 64" by simp
  with unat_to_u64 [of ?n] show ?thesis unfolding eq by (simp only: of_nat_0_le_iff floor_of_nat nat_int)
qed

lemma eps_pow: "eps ^ 4 \<le> 2"
  by (simp add: eps_def power4_eq_xxxx)

lemma refill_real_small:
  assumes "unat el * R * 2000 < 2 ^ 63"
  shows "refill_real (of_nat R) el < 2 ^ 63"
proof -
  have "refill_real (of_nat R) el \<le> of_nat (unat el) * of_nat R * 1000 * eps ^ 4"
    by (rule refill_real_bounds) simp
  also have "\<dots> \<le> of_nat (unat el) * of_nat R * 1000 * 2"
    by (intro mult_left_mono mult_nonneg_nonneg of_nat_0_le_iff eps_pow) simp
  also have "\<dots> = of_nat (unat el * R * 2000)" by simp
  also have "\<dots> < of_nat (2 ^ 63)" using assms by (simp only: of_nat_less_iff)
  finally show ?thesis by simp
qed

lemma unat_refill_units:
  assumes "unat el * R * 2000 < 2 ^ 63"
  shows "unat (refill_units (of_nat R) el) = nat \<lfloor>refill_real (of_nat R) el\<rfloor>"
    and "unat (refill_units (of_nat R) el) < 2 ^ 63"
proof -
  note small = refill_real_small [OF assms]
  have nn: "0 \<le> refill_real (of_nat R) el" by (rule refill_real_bounds) simp
  show eq: "unat (refill_units (of_nat R) el) = nat \<lfloor>refill_real (of_nat R) el\<rfloor>"
    unfolding refill_units_def using nn small by (intro unat_to_u64) simp_all
  have "\<lfloor>refill_real (of_nat R) el\<rfloor> < 2 ^ 63"
    using small by (simp add: floor_less_iff)
  then show "unat (refill_units (of_nat R) el) < 2 ^ 63"
    using nn unfolding eq by (simp add: nat_less_iff)
qed

lemma refill_full:
  assumes "exact_settings R B" "of_nat B / of_nat R * 1000 \<le> (of_nat (unat el) :: rat)" "unat el \<le> 2 ^ 53"
    and "unat el * R * 2000 < 2 ^ 63"
  shows "B * 1000000 \<le> unat (refill_units (of_nat R) el)"
proof -
  have "of_u64 el = of_nat (unat el)"
    unfolding of_u64_nat using assms(3) by (rule rnd_nat)
  then have "of_nat B * 1000000 \<le> refill_real (of_nat R) el"
    using refill_covers_burst [OF assms(1,2,3)] by (simp only: refill_real_def)
  then have "int (B * 1000000) \<le> \<lfloor>refill_real (of_nat R) el\<rfloor>"
    by (simp add: le_floor_iff)
  then show ?thesis
    unfolding unat_refill_units [OF assms(4)] by linarith
qed

text \<open>
  (C22) Eviction loses nothing when the refill arithmetic is exact, that is, for
  whole numbers as rate and burst, the rate dividing the burst, and bursts and idle times
  that stay within the precision of a \<open>double\<close>: a bucket that \<open>RefilledToFull\<close> reports full can
  be dropped and created anew, and the next call has the same verdict and leaves the same bucket.
\<close>

theorem eviction_lossless:
  assumes "exact_settings R B" "tb_rate b = of_nat R" "tb_burst b = of_nat B"
    and "scaled_tokens b \<le> burst_scaled (tb_burst b)" "RefilledToFull now_e b"
    and "now_e \<le> now_c" "now_c \<le> now"
    and "unat (now - last_refill_ms b) \<le> 2 ^ 53" "unat (now - last_refill_ms b) * R * 2000 < 2 ^ 63"
  shows "TryConsume now b = TryConsume now (new_TokenBucket now_c (tb_rate b) (tb_burst b))"
proof -
  let ?b' = "new_TokenBucket now_c (tb_rate b) (tb_burst b)"
  have R: "0 < (of_nat R :: rat)" using assms(1) by (simp add: exact_settings_def)
  have last: "last_refill_ms b < now_e"
    using assms(5) by (auto simp: RefilledToFull_def split: if_splits)
  have cap: "unat (burst_scaled (tb_burst b)) = B * 1000000"
    using burst_scaled_exact [OF assms(1)] assms(3) by simp
  have B: "B * 1000000 < 2 ^ 63" using assms(1) by (simp add: exact_settings_def)
  have tok: "unat (scaled_tokens b) \<le> B * 1000000"
    using assms(4) cap by (simp add: word_le_nat_alt)
  have order: "unat (now_e - last_refill_ms b) \<le> unat (now - last_refill_ms b)"
    "unat (now - now_c) \<le> unat (now - last_refill_ms b)" "last_refill_ms b \<le> now"
    using last assms(6,7) by (auto simp: unat_sub word_le_nat_alt word_less_nat_alt)
  have "of_nat B / of_nat R * 1000 \<le> of_u64 (now_e - last_refill_ms b)"
    using assms(2,3,5) full_ms_exact [OF assms(1)] by (auto simp: RefilledToFull_def split: if_splits)
  also have "\<dots> = of_nat (unat (now_e - last_refill_ms b))"
    unfolding of_u64_nat using order(1) assms(8) by (intro rnd_nat) simp
  also have "\<dots> \<le> (of_nat (unat (now - last_refill_ms b)) :: rat)"
    using order(1) by (simp only: of_nat_le_iff)
  finally have long: "of_nat B / of_nat R * 1000 \<le> (of_nat (unat (now - last_refill_ms b)) :: rat)" .
  have small: "unat (now - now_c) * R * 2000 < 2 ^ 63"
    using order(2) assms(9) by (meson le_less_trans mult_le_mono1)
  have "TryConsume now b = (let m = burst_scaled (tb_burst b) in
      if m < kScale then (False, b\<lparr>last_refill_ms := now, scaled_tokens := m\<rparr>)
      else (True, b\<lparr>last_refill_ms := now, scaled_tokens := m - kScale\<rparr>))"
    using refill_full [OF assms(1) long assms(8,9)] unat_refill_units(2) [OF assms(9)] tok B order(3)
    by (intro TryConsume_full) (auto simp: assms(2) cap)
  moreover have "TryConsume now ?b' = (let m = burst_scaled (tb_burst ?b') in
      if m < kScale then (False, ?b'\<lparr>last_refill_ms := now, scaled_tokens := m\<rparr>)
      else (True, ?b'\<lparr>last_refill_ms := now, scaled_tokens := m - kScale\<rparr>))"
    using unat_refill_units(2) [OF small] assms(2,7) cap B
    by (intro TryConsume_full) (auto simp: new_TokenBucket_def)
  ultimately show ?thesis
    by (cases b) (simp add: new_TokenBucket_def Let_def)
qed

theorem eviction_lossless_witness:
  "TryConsume 2001 ((new_TokenBucket 0 1 2)\<lparr>scaled_tokens := 0\<rparr>)
   = TryConsume 2001 (new_TokenBucket 2000 1 2)"
proof -
  let ?b = "(new_TokenBucket 0 1 2)\<lparr>scaled_tokens := 0\<rparr>"
  have full: "RefilledToFull 2000 ?b" by code_simp
  have "exact_settings 1 2" by (simp add: exact_settings_def)
  from eviction_lossless [OF this, of ?b 2000 2000 2001] full show ?thesis
    by (simp add: new_TokenBucket_def)
qed

text \<open>
  With settings that are not exact the report can be early: at a rate of
  0.7 and a burst of 14.7, a drained bucket counts as refilled to full after
  21 seconds although it is one unit short, and dropping it leaves the next
  caller with one unit more than keeping it.
\<close>

lemma eviction_gains_a_unit:
  "let b = (new_TokenBucket 0 (rnd (7 / 10)) (rnd (147 / 10)))\<lparr>scaled_tokens := 0\<rparr>;
       fresh = new_TokenBucket 21000 (rnd (7 / 10)) (rnd (147 / 10)) in
   RefilledToFull 21000 b \<and>
   scaled_tokens (snd (TryConsume 21000 b)) + 1 = scaled_tokens (snd (TryConsume 21000 fresh))"
proof -
  have units: "refill_units (rnd (7 / 10)) 21000 = 14699999" "burst_scaled (rnd (147 / 10)) = 14700000"
    by code_simp+
  have "RefilledToFull 21000 ((new_TokenBucket 0 (rnd (7 / 10)) (rnd (147 / 10)))\<lparr>scaled_tokens := 0\<rparr>)"
    by code_simp
  then show ?thesis
    by (simp add: new_TokenBucket_def TryConsume_def kScale_def units)
qed

subsection \<open>The table of buckets\<close>

definition table_ok :: "RateLimiter \<Rightarrow> bool" where
  "table_ok rl \<longleftrightarrow> distinct (map fst (ip_buckets rl))
     \<and> (per_ip_max_buckets (rl_config rl) \<noteq> 0 \<longrightarrow> length (ip_buckets rl) \<le> per_ip_max_buckets (rl_config rl))"

lemma set_bucket_keys [simp]:
  "map fst (set_bucket ip b bs) = map fst bs" "length (set_bucket ip b bs) = length bs"
  by (auto simp: set_bucket_def)

lemma map_of_set_bucket:
  "map_of (set_bucket ip b bs) k = (if k = ip \<and> map_of bs ip \<noteq> None then Some b else map_of bs k)"
  by (induction bs) (auto simp: set_bucket_def)

lemma distinct_map_filter: "distinct (map f xs) \<Longrightarrow> distinct (map f (filter P xs))"
  by (induction xs) auto

lemma Evict_simps [simp]:
  "rl_config (EvictFullBucketsLocked now rl) = rl_config rl"
  "global_bucket (EvictFullBucketsLocked now rl) = global_bucket rl"
  by (simp_all add: EvictFullBucketsLocked_def)

lemma Evict_table_ok: "table_ok rl \<Longrightarrow> table_ok (EvictFullBucketsLocked now rl)"
  by (auto simp: table_ok_def EvictFullBucketsLocked_def intro: distinct_map_filter
      order_trans [OF length_filter_le])

lemma map_of_filter_other:
  assumes "distinct (map fst bs)"
  shows "map_of (filter (\<lambda>(_, b). P b) bs) k
    = (case map_of bs k of Some b \<Rightarrow> if P b then Some b else None | None \<Rightarrow> None)"
  using assms
  by (induction bs) (auto simp: map_of_eq_None_iff split: option.splits)

lemma map_of_Evict:
  assumes "table_ok rl"
  shows "map_of (ip_buckets (EvictFullBucketsLocked now rl)) k = map_of (ip_buckets rl) k
    \<or> map_of (ip_buckets (EvictFullBucketsLocked now rl)) k = None
       \<and> (\<exists>b. map_of (ip_buckets rl) k = Some b \<and> RefilledToFull now b)"
  using assms map_of_filter_other [of "ip_buckets rl" "\<lambda>b. \<not> RefilledToFull now b" k]
  by (auto simp: EvictFullBucketsLocked_def table_ok_def split: option.splits)

lemma AllowPerIP_config [simp]:
  "rl_config (snd (AllowPerIP now_e now_c now ip rl)) = rl_config rl"
  by (auto simp: AllowPerIP_def Let_def split: option.splits prod.splits)

lemma AllowPerIP_table_ok:
  assumes "table_ok rl" shows "table_ok (snd (AllowPerIP now_e now_c now ip rl))"
proof -
  let ?rl1 = "if per_ip_max_buckets (rl_config rl) \<noteq> 0
      \<and> per_ip_max_buckets (rl_config rl) \<le> length (ip_buckets rl)
    then EvictFullBucketsLocked now_e rl else rl"
  have ok1: "table_ok ?rl1" "rl_config ?rl1 = rl_config rl"
    using assms Evict_table_ok by simp_all
  show ?thesis
  proof (cases "map_of (ip_buckets rl) ip")
    case None
    then have "map_of (ip_buckets ?rl1) ip = None"
      using map_of_Evict [OF assms, of now_e ip] by auto
    then have "ip \<notin> fst ` set (ip_buckets ?rl1)" by (simp add: map_of_eq_None_iff)
    with ok1 None assms show ?thesis
      by (auto simp: AllowPerIP_def Let_def table_ok_def split: prod.splits)
  next
    case (Some b)
    with assms show ?thesis
      by (auto simp: AllowPerIP_def Let_def table_ok_def split: prod.splits)
  qed
qed

text \<open>A sequence of calls, each with its three clock readings.\<close>

definition allow_call :: "RateLimiter \<Rightarrow> u64 \<times> u64 \<times> u64 \<times> string \<Rightarrow> RateLimiter" where
  "allow_call rl c = (case c of (now_e, now_c, now, ip) \<Rightarrow> snd (AllowPerIP now_e now_c now ip rl))"

text \<open>
  Whatever addresses call and whatever the clock reads, the table of a
  limiter never has two buckets for one address and, when a cap is configured,
  never more buckets than the cap.
\<close>

theorem per_ip_table_bounded:
  "let rl = run allow_call (new_RateLimiter now0 cfg) calls in
   distinct (map fst (ip_buckets rl)) \<and>
   (per_ip_max_buckets cfg = 0 \<or> per_ip_bucket_count rl \<le> per_ip_max_buckets cfg)"
proof -
  let ?P = "\<lambda>rl. table_ok rl \<and> rl_config rl = cfg"
  have "?P (run allow_call (new_RateLimiter now0 cfg) calls)"
  proof (rule run_invariant)
    show "?P (new_RateLimiter now0 cfg)" by (simp add: new_RateLimiter_def table_ok_def)
    show "\<And>e s. ?P s \<Longrightarrow> ?P (allow_call s e)"
      by (auto simp: allow_call_def AllowPerIP_table_ok split: prod.splits)
  qed
  then show ?thesis by (auto simp: table_ok_def per_ip_bucket_count_def Let_def)
qed

text \<open>
  One address cannot spend the tokens of another.  A call for an address
  that has a bucket gets the verdict of that bucket and writes that bucket only;
  a call for a new address leaves every other bucket as it was, except that it
  may drop buckets that report themselves full; the global bucket is untouched.
\<close>

theorem per_ip_isolation:
  assumes "table_ok rl" and "per_ip_enabled (rl_config rl)"
  shows "let r = AllowPerIP now_e now_c now ip rl in
    global_bucket (snd r) = global_bucket rl
    \<and> (\<forall>b. map_of (ip_buckets rl) ip = Some b \<longrightarrow>
         fst r = fst (TryConsume now b) \<and> map_of (ip_buckets (snd r)) ip = Some (snd (TryConsume now b)))
    \<and> (\<forall>ip'. ip' \<noteq> ip \<longrightarrow>
         map_of (ip_buckets (snd r)) ip' = map_of (ip_buckets rl) ip'
         \<or> map_of (ip_buckets rl) ip = None \<and> map_of (ip_buckets (snd r)) ip' = None
           \<and> (\<exists>b. map_of (ip_buckets rl) ip' = Some b \<and> RefilledToFull now_e b))"
proof (unfold Let_def, intro conjI allI impI)
  let ?r = "AllowPerIP now_e now_c now ip rl"
  show "global_bucket (snd ?r) = global_bucket rl"
    by (auto simp: AllowPerIP_def Let_def split: option.splits prod.splits)
  show "fst ?r = fst (TryConsume now b)" "map_of (ip_buckets (snd ?r)) ip = Some (snd (TryConsume now b))"
    if "map_of (ip_buckets rl) ip = Some b" for b
    using that assms(2) by (auto simp: AllowPerIP_def Let_def map_of_set_bucket split: prod.splits)
  show "map_of (ip_buckets (snd ?r)) ip' = map_of (ip_buckets rl) ip'
      \<or> map_of (ip_buckets rl) ip = None \<and> map_of (ip_buckets (snd ?r)) ip' = None
        \<and> (\<exists>b. map_of (ip_buckets rl) ip' = Some b \<and> RefilledToFull now_e b)"
    if "ip' \<noteq> ip" for ip'
    using that assms(2) map_of_Evict [OF assms(1), of now_e ip']
    by (auto simp: AllowPerIP_def Let_def map_of_set_bucket split: option.splits prod.splits)
qed

theorem per_ip_isolation_witness:
  "let cfg = \<lparr>global_enabled = False, global_rate = 1000, global_burst = 2000, per_ip_enabled = True,
              per_ip_rate = 1, per_ip_burst = 2, per_ip_max_buckets = 100\<rparr>;
       rl = (new_RateLimiter 0 cfg)\<lparr>ip_buckets := [(''10.0.0.1'', new_TokenBucket 0 1 2)]\<rparr> in
   map_of (ip_buckets (snd (AllowPerIP 5 5 5 ''10.0.0.2'' rl))) ''10.0.0.1'' = Some (new_TokenBucket 0 1 2)
   \<and> fst (AllowPerIP 5 5 5 ''10.0.0.1'' rl) = fst (TryConsume 5 (new_TokenBucket 0 1 2))"
proof -
  let ?cfg = "\<lparr>global_enabled = False, global_rate = 1000, global_burst = 2000, per_ip_enabled = True,
              per_ip_rate = 1, per_ip_burst = 2, per_ip_max_buckets = 100\<rparr>"
  let ?rl = "(new_RateLimiter 0 ?cfg)\<lparr>ip_buckets := [(''10.0.0.1'', new_TokenBucket 0 1 2)]\<rparr>"
  have ok: "table_ok ?rl" "per_ip_enabled (rl_config ?rl)"
    by (simp_all add: table_ok_def new_RateLimiter_def)
  have "map_of (ip_buckets (snd (AllowPerIP 5 5 5 ''10.0.0.2'' ?rl))) ''10.0.0.1'' \<noteq> None"
    by (simp add: AllowPerIP_def new_RateLimiter_def Let_def split: prod.split)
  moreover have "map_of (ip_buckets (snd (AllowPerIP 5 5 5 ''10.0.0.2'' ?rl))) ''10.0.0.1''
      = map_of (ip_buckets ?rl) ''10.0.0.1''
    \<or> map_of (ip_buckets (snd (AllowPerIP 5 5 5 ''10.0.0.2'' ?rl))) ''10.0.0.1'' = None"
    using per_ip_isolation [OF ok, of 5 5 5 "''10.0.0.2''", unfolded Let_def,
        THEN conjunct2, THEN conjunct2, THEN spec, of "''10.0.0.1''"] by auto
  ultimately show ?thesis
    using per_ip_isolation [OF ok, of 5 5 5 "''10.0.0.1''"] by (auto simp: Let_def)
qed

end
