(* ===== verification/CasLoops.thy ===== *)
theory CasLoops
  imports Prelude
begin

text \<open>
  Threads that update one shared atomic cell by compare-and-swap loops and
  read-modify-write instructions, as the peer weights and the request slots of
  an upstream do.  A loop of the form
  \<open>cur = cell.load(); while (guard(cur) && !cell.compare_exchange_weak(cur, upd(cur)))\<close>
  is taken apart into its atomic accesses: the load, each failing exchange
  (which reloads \<open>cur\<close>, and may fail spuriously), the successful exchange, and
  leaving the loop because the guard fails.  The log lists the updates in the
  order in which they hit the cell.
\<close>

datatype ('op, 'v) cas_pc = Idle | Looping 'op 'v

record ('op, 'v) cas_state =
  cell :: 'v
  pcs :: "nat \<Rightarrow> ('op, 'v) cas_pc"
  committed :: "(nat \<times> 'op) list"

inductive cas_step ::
  "('op \<Rightarrow> bool) \<Rightarrow> ('op \<Rightarrow> 'v \<Rightarrow> bool) \<Rightarrow> ('op \<Rightarrow> 'v \<Rightarrow> 'v) \<Rightarrow>
   ('op, 'v) cas_state \<Rightarrow> ('op, 'v) cas_state \<Rightarrow> bool"
  for rmw :: "'op \<Rightarrow> bool" and guard :: "'op \<Rightarrow> 'v \<Rightarrow> bool" and upd :: "'op \<Rightarrow> 'v \<Rightarrow> 'v" where
  load: "\<lbrakk>pcs s t = Idle; \<not> rmw op\<rbrakk> \<Longrightarrow>
    cas_step rmw guard upd s (s\<lparr>pcs := (pcs s)(t := Looping op (cell s))\<rparr>)"
| swap: "\<lbrakk>pcs s t = Looping op (cell s); guard op (cell s)\<rbrakk> \<Longrightarrow>
    cas_step rmw guard upd s
      (s\<lparr>cell := upd op (cell s), pcs := (pcs s)(t := Idle), committed := committed s @ [(t, op)]\<rparr>)"
| retry: "\<lbrakk>pcs s t = Looping op cur; guard op cur\<rbrakk> \<Longrightarrow>
    cas_step rmw guard upd s (s\<lparr>pcs := (pcs s)(t := Looping op (cell s))\<rparr>)"
| leave: "\<lbrakk>pcs s t = Looping op cur; \<not> guard op cur\<rbrakk> \<Longrightarrow>
    cas_step rmw guard upd s (s\<lparr>pcs := (pcs s)(t := Idle)\<rparr>)"
| fetch: "\<lbrakk>pcs s t = Idle; rmw op\<rbrakk> \<Longrightarrow>
    cas_step rmw guard upd s (s\<lparr>cell := upd op (cell s), committed := committed s @ [(t, op)]\<rparr>)"

inductive cas_reachable for rmw guard upd v0 where
  init: "cas_reachable rmw guard upd v0 \<lparr>cell = v0, pcs = (\<lambda>_. Idle), committed = []\<rparr>"
| step: "\<lbrakk>cas_reachable rmw guard upd v0 s; cas_step rmw guard upd s s'\<rbrakk> \<Longrightarrow>
    cas_reachable rmw guard upd v0 s'"

text \<open>Replaying the log one call after the other; \<^const>\<open>None\<close> when a loop would not have updated.\<close>

fun replay :: "('op \<Rightarrow> bool) \<Rightarrow> ('op \<Rightarrow> 'v \<Rightarrow> bool) \<Rightarrow> ('op \<Rightarrow> 'v \<Rightarrow> 'v) \<Rightarrow> 'v \<Rightarrow> (nat \<times> 'op) list \<Rightarrow> 'v option" where
  "replay rmw guard upd v [] = Some v"
| "replay rmw guard upd v ((t, op) # l) =
    (if rmw op \<or> guard op v then replay rmw guard upd (upd op v) l else None)"

lemma replay_snoc:
  "replay rmw guard upd v (l @ [(t, op)]) =
    (case replay rmw guard upd v l of
       None \<Rightarrow> None
     | Some v' \<Rightarrow> if rmw op \<or> guard op v' then Some (upd op v') else None)"
  by (induction l arbitrary: v) (simp_all add: split_paired_all)

text \<open>The concurrent updates are linearizable: the log, run sequentially, gives the cell.\<close>

lemma cas_linearizable:
  assumes "cas_reachable rmw guard upd v0 s"
  shows "replay rmw guard upd v0 (committed s) = Some (cell s)"
  using assms
proof induction
  case (step s s')
  from step.hyps(2) show ?case
    using step.IH by cases (simp_all add: replay_snoc)
qed simp

text \<open>A schedule names the thread that moves and the access it makes; a disabled access is a no-op.\<close>

datatype 'op cas_access = Load 'op | Exchange | Fetch 'op

definition cas_init :: "'v \<Rightarrow> ('op, 'v) cas_state" where
  "cas_init v = \<lparr>cell = v, pcs = (\<lambda>_. Idle), committed = []\<rparr>"

fun cas_exec ::
  "('op \<Rightarrow> bool) \<Rightarrow> ('op \<Rightarrow> 'v \<Rightarrow> bool) \<Rightarrow> ('op \<Rightarrow> 'v \<Rightarrow> 'v) \<Rightarrow>
   ('op, 'v) cas_state \<Rightarrow> nat \<times> 'op cas_access \<Rightarrow> ('op, 'v) cas_state" where
  "cas_exec rmw guard upd s (t, Load op) =
     (if pcs s t = Idle \<and> \<not> rmw op then s\<lparr>pcs := (pcs s)(t := Looping op (cell s))\<rparr> else s)"
| "cas_exec rmw guard upd s (t, Exchange) =
     (case pcs s t of
        Idle \<Rightarrow> s
      | Looping op cur \<Rightarrow>
          if \<not> guard op cur then s\<lparr>pcs := (pcs s)(t := Idle)\<rparr>
          else if cur = cell s
          then s\<lparr>cell := upd op (cell s), pcs := (pcs s)(t := Idle), committed := committed s @ [(t, op)]\<rparr>
          else s\<lparr>pcs := (pcs s)(t := Looping op (cell s))\<rparr>)"
| "cas_exec rmw guard upd s (t, Fetch op) =
     (if pcs s t = Idle \<and> rmw op
      then s\<lparr>cell := upd op (cell s), committed := committed s @ [(t, op)]\<rparr> else s)"

lemma cas_exec_step: "cas_exec rmw guard upd s e = s \<or> cas_step rmw guard upd s (cas_exec rmw guard upd s e)"
  by (cases "(rmw, guard, upd, s, e)" rule: cas_exec.cases)
    (auto split: cas_pc.split intro: cas_step.intros)

lemma cas_exec_reachable: "cas_reachable rmw guard upd v (run (cas_exec rmw guard upd) (cas_init v) es)"
proof (rule run_invariant)
  show "cas_reachable rmw guard upd v (cas_init v)" unfolding cas_init_def by (rule cas_reachable.init)
  show "cas_reachable rmw guard upd v (cas_exec rmw guard upd s e)" if "cas_reachable rmw guard upd v s" for s e
    using that cas_exec_step [of rmw guard upd s e] cas_reachable.step [OF that] by fastforce
qed

text \<open>The contract of a cell: the updates that pass their guard keep an invariant.\<close>

locale cas_cell =
  fixes rmw :: "'op \<Rightarrow> bool" and guard :: "'op \<Rightarrow> 'v \<Rightarrow> bool" and upd :: "'op \<Rightarrow> 'v \<Rightarrow> 'v"
    and inv :: "'v \<Rightarrow> bool"
  assumes upd_inv: "inv v \<Longrightarrow> rmw op \<or> guard op v \<Longrightarrow> inv (upd op v)"
begin

lemma replay_inv: "replay rmw guard upd v l = Some v' \<Longrightarrow> inv v \<Longrightarrow> inv v'"
proof (induction l arbitrary: v)
  case (Cons e l)
  then show ?case by (cases e) (auto split: if_splits intro: upd_inv)
qed simp

lemma reachable_inv: "cas_reachable rmw guard upd v0 s \<Longrightarrow> inv v0 \<Longrightarrow> inv (cell s)"
  by (rule replay_inv [OF cas_linearizable])

end

end
