(* ===== verification/Strings.thy ===== *)
theory Strings
  imports Prelude
begin

text \<open>
  The parts of the C++ string library that several components use:
  \<open>std::to_string\<close> on integers and the decimal value of a digit string.  A
  string is a list of characters.
\<close>

subsection \<open>Decimal numbers\<close>

definition digit_char :: "nat \<Rightarrow> char" where
  "digit_char d = char_of (48 + d)"

fun to_string_nat :: "nat \<Rightarrow> string" where
  "to_string_nat n = (if n < 10 then [digit_char n] else to_string_nat (n div 10) @ [digit_char (n mod 10)])"

declare to_string_nat.simps [simp del]

definition to_string :: "int \<Rightarrow> string" where
  "to_string i = (if i < 0 then CHR ''-'' # to_string_nat (nat (- i)) else to_string_nat (nat i))"

definition is_digit :: "char \<Rightarrow> bool" where
  "is_digit c \<longleftrightarrow> 48 \<le> (of_char c :: nat) \<and> (of_char c :: nat) \<le> 57"

definition digit_val :: "char \<Rightarrow> nat" where
  "digit_val c = of_char c - 48"

definition dec_value :: "string \<Rightarrow> nat" where
  "dec_value s = foldl (\<lambda>a c. 10 * a + digit_val c) 0 s"

lemma digit_char_simps [simp]:
  assumes "d < 10"
  shows "is_digit (digit_char d)" "digit_val (digit_char d) = d" "of_char (digit_char d) = (48 + d :: nat)"
  using assms by (simp_all add: digit_char_def is_digit_def digit_val_def)

lemma dec_value_snoc: "dec_value (s @ [c]) = 10 * dec_value s + digit_val c"
  by (simp add: dec_value_def)

lemma to_string_nat_digits: "c \<in> set (to_string_nat n) \<Longrightarrow> is_digit c"
proof (induction n rule: to_string_nat.induct)
  case (1 n)
  then show ?case by (subst (asm) (2) to_string_nat.simps) (auto split: if_splits)
qed

lemma dec_value_to_string_nat [simp]: "dec_value (to_string_nat n) = n"
proof (induction n rule: to_string_nat.induct)
  case (1 n)
  show ?case
  proof (cases "n < 10")
    case True
    then show ?thesis by (subst to_string_nat.simps) (simp add: dec_value_def)
  next
    case False
    then show ?thesis using 1 by (subst to_string_nat.simps) (simp add: dec_value_snoc)
  qed
qed

lemma to_string_nat_inject [simp]: "to_string_nat m = to_string_nat n \<longleftrightarrow> m = n"
  by (metis dec_value_to_string_nat)

lemma to_string_nat_nonempty [simp]: "to_string_nat n \<noteq> []"
  by (subst to_string_nat.simps) auto

lemma not_digit_sep [simp]:
  "\<not> is_digit CHR '';''" "\<not> is_digit CHR '':''" "\<not> is_digit CHR ''-''" "\<not> is_digit CHR ''#''"
  by (simp_all add: is_digit_def)

lemma to_string_inject [simp]: "to_string i = to_string j \<longleftrightarrow> i = j"
proof
  have minus: "CHR ''-'' # s \<noteq> to_string_nat n" for s n
    using to_string_nat_digits [of "CHR ''-''" n] by (metis list.set_intros(1) not_digit_sep(3))
  assume "to_string i = to_string j"
  then show "i = j"
    using minus by (auto simp: to_string_def split: if_splits dest: sym)
qed simp

lemma to_string_no_semicolon: "CHR '';'' \<notin> set (to_string i)"
  by (auto simp: to_string_def dest: to_string_nat_digits)

end
