(* ===== verification/Upstream.thy ===== *)
theory Upstream
  imports CasLoops Strings CircuitBreaker
begin

text \<open>
  \<open>UpstreamPeer\<close>, \<open>Upstream\<close> and \<open>UpstreamRegistry\<close>
  (\<open>include/coropact/gateway/upstream_peer.h\<close>, \<open>upstream.h\<close>, \<open>upstream_registry.h\<close>):
  one backend with its passive health state, a group of backends with its
  breaker and its bounded number of request slots, and the table of groups.
  The C++ \<open>int\<close> fields are integers; \<open>fails\<close>, the clock readings and the slot
  counter are 64-bit words.  The two compare-and-swap loops are given both
  sequentially and as instances of the threads of \<open>CasLoops\<close>.
\<close>

section \<open>A peer\<close>

record UpstreamPeerConfig =
  peer_name :: string
  peer_host :: string
  peer_port :: u16
  cfg_weight :: int
  max_fails :: int
  fail_timeout :: int

record UpstreamPeer =
  peer_config :: UpstreamPeerConfig
  down :: bool
  active :: int
  requests :: u64
  fails :: u64
  checked_ms :: u64
  accessed_ms :: u64
  effective_weight :: int
  host_port :: string

definition new_UpstreamPeer :: "UpstreamPeerConfig \<Rightarrow> UpstreamPeer" where
  "new_UpstreamPeer cfg =
     \<lparr>peer_config = cfg, down = False, active = 0, requests = 0, fails = 0, checked_ms = 0,
      accessed_ms = 0, effective_weight = cfg_weight cfg,
      host_port = peer_host cfg @ '':'' @ to_string (uint (peer_port cfg))\<rparr>"

definition IsUp :: "UpstreamPeer \<Rightarrow> bool" where
  "IsUp p \<longleftrightarrow> \<not> down p"

text \<open>\<open>static_cast<int>(fails)\<close> keeps the low 32 bits and reads them as a signed number.\<close>

definition int_of_u64 :: "u64 \<Rightarrow> int" where
  "int_of_u64 w = sint (ucast w :: u32)"

definition AvailableAt :: "u64 \<Rightarrow> UpstreamPeer \<Rightarrow> bool" where
  "AvailableAt now_ms p \<longleftrightarrow>
     (if \<not> IsUp p then False
      else if int_of_u64 (fails p) < max_fails (peer_config p) then True
      else checked_ms p \<le> now_ms \<and> word_of_int (fail_timeout (peer_config p)) \<le> now_ms - checked_ms p)"

definition peer_weight :: "UpstreamPeer \<Rightarrow> int" where
  "peer_weight p = cfg_weight (peer_config p)"

text \<open>The guard and the update of the two loops on \<open>effective_weight\<close>.\<close>

datatype weight_op = Demote | Promote

fun weight_guard :: "int \<Rightarrow> weight_op \<Rightarrow> int \<Rightarrow> bool" where
  "weight_guard w Demote cur \<longleftrightarrow> 0 < cur"
| "weight_guard w Promote cur \<longleftrightarrow> cur < w"

fun weight_upd :: "weight_op \<Rightarrow> int \<Rightarrow> int" where
  "weight_upd Demote cur = cur - 1"
| "weight_upd Promote cur = cur + 1"

definition weight_loop :: "weight_op \<Rightarrow> UpstreamPeer \<Rightarrow> int" where
  "weight_loop op p = (let cur = effective_weight p in
     if weight_guard (peer_weight p) op cur then weight_upd op cur else cur)"

definition peer_OnFailure :: "u64 \<Rightarrow> UpstreamPeer \<Rightarrow> UpstreamPeer" where
  "peer_OnFailure now_ms p =
     p\<lparr>fails := fails p + 1, checked_ms := now_ms, effective_weight := weight_loop Demote p\<rparr>"

definition peer_OnSuccess :: "UpstreamPeer \<Rightarrow> UpstreamPeer" where
  "peer_OnSuccess p = p\<lparr>fails := 0, effective_weight := weight_loop Promote p\<rparr>"

section \<open>A group of peers\<close>

record UpstreamConfig =
  upstream_name :: string
  circuit_breaker_cfg :: CircuitBreakerConfig
  circuit_breaker_enabled :: bool
  max_concurrent_requests :: u64
  request_timeout :: int

record Upstream =
  upstream_config :: UpstreamConfig
  peers :: "UpstreamPeer list"
  upstream_cb :: "CircuitBreaker option"
  active_requests :: u64

definition new_Upstream :: "UpstreamConfig \<Rightarrow> Upstream" where
  "new_Upstream cfg = \<lparr>upstream_config = cfg, peers = [], upstream_cb = None, active_requests = 0\<rparr>"

definition AddPeer :: "UpstreamPeer \<Rightarrow> Upstream \<Rightarrow> Upstream" where
  "AddPeer p u = u\<lparr>peers := peers u @ [p]\<rparr>"

definition set_circuit_breaker :: "CircuitBreaker option \<Rightarrow> Upstream \<Rightarrow> Upstream" where
  "set_circuit_breaker cb u = u\<lparr>upstream_cb := cb\<rparr>"

datatype slot_op = Acquire | Release

fun slot_guard :: "u64 \<Rightarrow> slot_op \<Rightarrow> u64 \<Rightarrow> bool" where
  "slot_guard limit Acquire cur \<longleftrightarrow> cur < limit"
| "slot_guard limit Release cur \<longleftrightarrow> True"

fun slot_upd :: "slot_op \<Rightarrow> u64 \<Rightarrow> u64" where
  "slot_upd Acquire cur = cur + 1"
| "slot_upd Release cur = cur - 1"

text \<open>Which of the two are single \<open>fetch_add\<close> and \<open>fetch_sub\<close> instructions.\<close>

fun slot_rmw :: "u64 \<Rightarrow> slot_op \<Rightarrow> bool" where
  "slot_rmw limit Acquire \<longleftrightarrow> limit = 0"
| "slot_rmw limit Release \<longleftrightarrow> True"

definition TryAcquireRequestSlot :: "Upstream \<Rightarrow> bool \<times> Upstream" where
  "TryAcquireRequestSlot u =
     (let limit = max_concurrent_requests (upstream_config u);
          u' = u\<lparr>active_requests := slot_upd Acquire (active_requests u)\<rparr> in
      if limit = 0 then (True, u')
      else if slot_guard limit Acquire (active_requests u) then (True, u')
      else (False, u))"

definition ReleaseRequestSlot :: "Upstream \<Rightarrow> Upstream" where
  "ReleaseRequestSlot u = u\<lparr>active_requests := slot_upd Release (active_requests u)\<rparr>"

section \<open>The table of groups\<close>

text \<open>\<open>emplace\<close> keeps the entry that is already there.\<close>

type_synonym UpstreamRegistry = "(string \<times> Upstream) list"

definition registry_Add :: "Upstream \<Rightarrow> UpstreamRegistry \<Rightarrow> UpstreamRegistry" where
  "registry_Add u r =
     (let n = upstream_name (upstream_config u) in
      case map_of r n of Some _ \<Rightarrow> r | None \<Rightarrow> (n, u) # r)"

definition registry_Find :: "string \<Rightarrow> UpstreamRegistry \<Rightarrow> Upstream option" where
  "registry_Find n r = map_of r n"

lemma registry_Find_Add:
  "registry_Find n (registry_Add u r) =
     (if n = upstream_name (upstream_config u) \<and> registry_Find n r = None then Some u else registry_Find n r)"
  by (auto simp: registry_Find_def registry_Add_def Let_def split: option.splits)

section \<open>Passive health\<close>

lemma int_of_u64_small: "unat w < 2 ^ 31 \<Longrightarrow> int_of_u64 w = int (unat w)"
proof -
  assume "unat w < 2 ^ 31"
  then have "int (unat w) < int (2 ^ 31)" by (simp only: of_nat_less_iff)
  then have "uint w < 2 ^ 31" by simp
  moreover have "- (2 ^ 31) \<le> uint w" by (rule order_trans [OF _ uint_ge_0]) simp
  ultimately show ?thesis
    by (simp add: int_of_u64_def signed_ucast_eq signed_take_bit_int_eq_self)
qed

lemma peer_frame [simp]:
  "peer_config (peer_OnFailure now p) = peer_config p" "down (peer_OnFailure now p) = down p"
  "active (peer_OnFailure now p) = active p" "peer_config (peer_OnSuccess p) = peer_config p"
  "down (peer_OnSuccess p) = down p" "active (peer_OnSuccess p) = active p"
  by (simp_all add: peer_OnFailure_def peer_OnSuccess_def)

definition failures :: "UpstreamPeer \<Rightarrow> u64 list \<Rightarrow> UpstreamPeer" where
  "failures p ts = run (\<lambda>p t. peer_OnFailure t p) p ts"

lemma failures_frame [simp]:
  "peer_config (failures p ts) = peer_config p" "down (failures p ts) = down p"
  unfolding failures_def by (rule run_preserves, simp)+

lemma failures_counts:
  "fails (failures p ts) = fails p + of_nat (length ts)"
  "checked_ms (failures p ts) = last (checked_ms p # ts)"
  unfolding failures_def by (induction ts arbitrary: p) (simp_all add: peer_OnFailure_def)

text \<open>
  Passive health.  After a success and then a run of failures, a peer that
  is up is offered to the balancers exactly while the run is shorter than
  \<open>max_fails\<close>, and again once \<open>fail_timeout\<close> milliseconds have passed since the
  last failure; a clock reading before the last failure keeps it out.
\<close>

theorem passive_ejection:
  assumes "IsUp p" and "ts \<noteq> []" and "length ts < 2 ^ 31"
  shows "AvailableAt now (failures (peer_OnSuccess p) ts) \<longleftrightarrow>
      int (length ts) < max_fails (peer_config p)
      \<or> last ts \<le> now \<and> word_of_int (fail_timeout (peer_config p)) \<le> now - last ts"
proof -
  have "unat (of_nat (length ts) :: u64) = length ts"
    using assms(3) by (simp add: unat_of_nat_small)
  then have "int_of_u64 (fails (failures (peer_OnSuccess p) ts)) = int (length ts)"
    using assms(3) int_of_u64_small [of "of_nat (length ts)"]
    by (simp add: failures_counts) (simp add: peer_OnSuccess_def)
  then show ?thesis
    using assms(1,2) by (auto simp: AvailableAt_def IsUp_def failures_counts)
qed

definition demo_peer :: UpstreamPeer where
  "demo_peer = new_UpstreamPeer \<lparr>peer_name = ''127.0.0.1:9001'', peer_host = ''127.0.0.1'', peer_port = 9001,
     cfg_weight = 2, max_fails = 3, fail_timeout = 10000\<rparr>"

theorem passive_ejection_witness:
  "AvailableAt 120 (failures (peer_OnSuccess demo_peer) [100, 110])
   \<and> \<not> AvailableAt 130 (failures (peer_OnSuccess demo_peer) [100, 110, 120])
   \<and> AvailableAt 10120 (failures (peer_OnSuccess demo_peer) [100, 110, 120])"
proof -
  have up: "IsUp demo_peer" "max_fails (peer_config demo_peer) = 3" "fail_timeout (peer_config demo_peer) = 10000"
    by (simp_all add: demo_peer_def new_UpstreamPeer_def IsUp_def)
  show ?thesis
    using passive_ejection [OF up(1), of "[100, 110]" 120] passive_ejection [OF up(1), of "[100, 110, 120]" 130]
      passive_ejection [OF up(1), of "[100, 110, 120]" 10120]
    by (simp add: up)
qed

section \<open>Weights and slots under concurrency\<close>

interpretation weight_cell: cas_cell "\<lambda>_. False" "weight_guard w" weight_upd "\<lambda>v. 0 \<le> v \<and> v \<le> w" for w
proof unfold_locales
  fix v and op :: weight_op
  assume "0 \<le> v \<and> v \<le> w" "False \<or> weight_guard w op v"
  then show "0 \<le> weight_upd op v \<and> weight_upd op v \<le> w" by (cases op) auto
qed

text \<open>
  However the failures and successes that any number of threads report
  interleave, access by access, the effective weight of a peer stays between 0
  and the configured weight, and equals the result of the committed updates
  taken one after the other.
\<close>

theorem effective_weight_bounded:
  assumes "0 \<le> w" and "cas_reachable (\<lambda>_. False) (weight_guard w) weight_upd w s"
  shows "0 \<le> cell s \<and> cell s \<le> w
    \<and> replay (\<lambda>_. False) (weight_guard w) weight_upd w (committed s) = Some (cell s)"
  using weight_cell.reachable_inv [OF assms(2)] cas_linearizable [OF assms(2)] assms(1) by simp

theorem effective_weight_bounded_witness:
  "let s = run (cas_exec (\<lambda>_. False) (weight_guard 1) weight_upd) (cas_init (1 :: int))
             [(0, Load Demote), (1, Load Demote), (1, Exchange), (0, Exchange)] in
   committed s = [(1, Demote)] \<and> pcs s 0 = Looping Demote 0 \<and> 0 \<le> cell s \<and> cell s \<le> 1"
  using effective_weight_bounded [of 1, OF _ cas_exec_reachable,
      of "[(0, Load Demote), (1, Load Demote), (1, Exchange), (0, Exchange)]"]
  by (simp add: Let_def cas_init_def)

text \<open>Threads give back only slots that were taken.\<close>

definition acquired :: "(nat \<times> slot_op) list \<Rightarrow> nat" where
  "acquired l = length (filter (\<lambda>e. snd e = Acquire) l)"

definition released :: "(nat \<times> slot_op) list \<Rightarrow> nat" where
  "released l = length (filter (\<lambda>e. snd e = Release) l)"

definition balanced :: "(nat \<times> slot_op) list \<Rightarrow> bool" where
  "balanced l \<longleftrightarrow> (\<forall>n \<le> length l. released (take n l) \<le> acquired (take n l))"

lemma count_snoc [simp]:
  "acquired (l @ [e]) = acquired l + (if snd e = Acquire then 1 else 0)"
  "released (l @ [e]) = released l + (if snd e = Release then 1 else 0)"
  by (simp_all add: acquired_def released_def)

lemma balanced_snocD: "balanced (l @ [e]) \<Longrightarrow> balanced l \<and> released (l @ [e]) \<le> acquired (l @ [e])"
  unfolding balanced_def
  by (metis append_eq_conv_conj le_SucI length_append_singleton order_refl take_append take_all
      append.right_neutral diff_is_0_eq take0)

lemma acquired_le: "acquired l \<le> length l"
  by (simp add: acquired_def)

lemma slot_replay:
  assumes "replay (slot_rmw limit) (slot_guard limit) slot_upd 0 l = Some v"
    and "balanced l" and "length l < 2 ^ 64"
  shows "unat v + released l = acquired l \<and> (limit \<noteq> 0 \<longrightarrow> v \<le> limit)"
  using assms
proof (induction l arbitrary: v rule: rev_induct)
  case Nil
  then show ?case by (simp add: acquired_def released_def)
next
  case (snoc e l)
  obtain t op where e: "e = (t, op)" by (cases e)
  with snoc.prems(1) obtain u where u: "replay (slot_rmw limit) (slot_guard limit) slot_upd 0 l = Some u"
      "slot_rmw limit op \<or> slot_guard limit op u" "v = slot_upd op u"
    by (auto simp: replay_snoc split: option.splits if_splits)
  have bal: "balanced l" "released (l @ [e]) \<le> acquired (l @ [e])"
    using balanced_snocD [OF snoc.prems(2)] by auto
  have IH: "unat u + released l = acquired l" "limit \<noteq> 0 \<longrightarrow> u \<le> limit"
    using snoc.IH [OF u(1) bal(1)] snoc.prems(3) by auto
  have "unat u < length l + 1" using IH(1) acquired_le [of l] by linarith
  then have "u \<noteq> - 1" using snoc.prems(3) unat_max_u64 by auto
  show ?case
  proof (cases op)
    case Acquire
    with u IH e \<open>u \<noteq> - 1\<close> show ?thesis
      by (auto simp: unat_Suc_word word_le_nat_alt word_less_nat_alt)
  next
    case Release
    with bal(2) IH(1) e have "0 < unat u" by simp
    then have "unat (u - 1) = unat u - 1" by (simp add: unat_sub word_le_nat_alt)
    with Release u(3) IH e \<open>0 < unat u\<close> show ?thesis
      by (auto simp: word_le_nat_alt)
  qed
qed

text \<open>
  (C24) The bulkhead.  Whatever threads acquire and release request slots of an
  upstream concurrently, as long as only acquired slots are released, the
  counter is the number of slots in use and never exceeds
  \<open>max_concurrent_requests\<close> when that is not 0.
\<close>

theorem request_slots_bounded:
  assumes "cas_reachable (slot_rmw limit) (slot_guard limit) slot_upd 0 s"
    and "balanced (committed s)" and "length (committed s) < 2 ^ 64"
  shows "unat (cell s) = acquired (committed s) - released (committed s)
    \<and> (limit \<noteq> 0 \<longrightarrow> cell s \<le> limit)"
  using slot_replay [OF cas_linearizable [OF assms(1)] assms(2,3)] by linarith

theorem request_slots_bounded_witness:
  "let s = run (cas_exec (slot_rmw 1) (slot_guard 1) slot_upd) (cas_init 0)
             [(0, Load Acquire), (1, Load Acquire), (0, Exchange), (1, Exchange), (1, Exchange),
              (0, Fetch Release), (1, Load Acquire), (1, Exchange)] in
   committed s = [(0, Acquire), (0, Release), (1, Acquire)] \<and> unat (cell s) = 1"
proof -
  define s where "s = run (cas_exec (slot_rmw 1) (slot_guard 1) slot_upd) (cas_init 0)
             [(0, Load Acquire), (1, Load Acquire), (0, Exchange), (1, Exchange), (1, Exchange),
              (0, Fetch Release), (1, Load Acquire), (1, Exchange)]"
  have reach: "cas_reachable (slot_rmw 1) (slot_guard 1) slot_upd 0 s"
    unfolding s_def by (rule cas_exec_reachable)
  have l: "committed s = [(0, Acquire), (0, Release), (1, Acquire)]"
    unfolding s_def by code_simp
  have "balanced (committed s)"
    unfolding l by (auto simp: balanced_def acquired_def released_def le_Suc_eq numeral_2_eq_2)
  with request_slots_bounded [OF reach] show ?thesis
    unfolding s_def [symmetric] Let_def by (simp add: l acquired_def released_def)
qed

end
