(* ===== verification/MurmurHash.thy ===== *)
theory MurmurHash
  imports Prelude
begin

text \<open>
  The two MurmurHash3 variants of \<open>include/coropact/ds/murmurhash32.h\<close> and
  \<open>murmurhash64.h\<close>, on lists of bytes.  A string is hashed as the list of its
  bytes.  The 32-bit variant reads its blocks through a \<open>uint32_t\<close> pointer; the
  model takes the little-endian byte order of the supported platforms.
\<close>

unbundle bit_operations_syntax

subsection \<open>32 bits\<close>

definition rotl32 :: "u32 \<Rightarrow> nat \<Rightarrow> u32" where
  "rotl32 x r = push_bit r x OR drop_bit (32 - r) x"

definition load32 :: "u8 \<Rightarrow> u8 \<Rightarrow> u8 \<Rightarrow> u8 \<Rightarrow> u32" where
  "load32 b0 b1 b2 b3 =
     ucast b0 OR push_bit 8 (ucast b1) OR push_bit 16 (ucast b2) OR push_bit 24 (ucast b3)"

definition mix32 :: "u32 \<Rightarrow> u32" where
  "mix32 k = rotl32 (k * 0xcc9e2d51) 15 * 0x1b873593"

fun body32 :: "u8 list \<Rightarrow> u32 \<Rightarrow> u8 list \<times> u32" where
  "body32 (b0 # b1 # b2 # b3 # rest) h1 =
     body32 rest (rotl32 (h1 XOR mix32 (load32 b0 b1 b2 b3)) 13 * 5 + 0xe6546b64)"
| "body32 tail h1 = (tail, h1)"

fun tail32 :: "u8 list \<Rightarrow> u32 \<Rightarrow> u32" where
  "tail32 [t0, t1, t2] h1 = h1 XOR mix32 (push_bit 16 (ucast t2) XOR push_bit 8 (ucast t1) XOR ucast t0)"
| "tail32 [t0, t1] h1 = h1 XOR mix32 (push_bit 8 (ucast t1) XOR ucast t0)"
| "tail32 [t0] h1 = h1 XOR mix32 (ucast t0)"
| "tail32 _ h1 = h1"

definition fmix32 :: "u32 \<Rightarrow> u32" where
  "fmix32 h = (let h = h XOR drop_bit 16 h; h = h * 0x85ebca6b;
                   h = h XOR drop_bit 13 h; h = h * 0xc2b2ae35 in h XOR drop_bit 16 h)"

definition MurmurHash3_x86_32 :: "u8 list \<Rightarrow> u32 \<Rightarrow> u32" where
  "MurmurHash3_x86_32 key seed =
     (let (tail, h1) = body32 key seed in fmix32 (tail32 tail h1 XOR of_nat (length key)))"

definition bytes_of :: "string \<Rightarrow> u8 list" where
  "bytes_of s = map of_char s"

definition MurmurHash3 :: "string \<Rightarrow> u32 \<Rightarrow> u32" where
  "MurmurHash3 s seed = MurmurHash3_x86_32 (bytes_of s) seed"

subsection \<open>64 bits\<close>

definition rotl64 :: "u64 \<Rightarrow> nat \<Rightarrow> u64" where
  "rotl64 x r = push_bit r x OR drop_bit (64 - r) x"

definition fmix64 :: "u64 \<Rightarrow> u64" where
  "fmix64 k = (let k = k XOR drop_bit 33 k; k = k * 0xff51afd7ed558ccd;
                   k = k XOR drop_bit 33 k; k = k * 0xc4ceb9fe1a85ec53 in k XOR drop_bit 33 k)"

text \<open>Little-endian value of eight bytes, and of the up to eight bytes of a tail.\<close>

fun le64 :: "u8 list \<Rightarrow> u64" where
  "le64 [] = 0"
| "le64 (b # bs) = ucast b OR push_bit 8 (le64 bs)"

definition Load64LE :: "u8 list \<Rightarrow> u64" where
  "Load64LE p = le64 (take 8 p)"

fun tail_value :: "u8 list \<Rightarrow> u64" where
  "tail_value [] = 0"
| "tail_value (b # bs) = push_bit 8 (tail_value bs) XOR ucast b"

definition mix64_1 :: "u64 \<Rightarrow> u64" where
  "mix64_1 k = rotl64 (k * 0x87c37b91114253d5) 31 * 0x4cf5ad432745937f"

definition mix64_2 :: "u64 \<Rightarrow> u64" where
  "mix64_2 k = rotl64 (k * 0x4cf5ad432745937f) 33 * 0x87c37b91114253d5"

function body64 :: "u8 list \<Rightarrow> u64 \<Rightarrow> u64 \<Rightarrow> u8 list \<times> u64 \<times> u64" where
  "body64 data h1 h2 =
     (if length data < 16 then (data, h1, h2)
      else let h1 = (rotl64 (h1 XOR mix64_1 (Load64LE data)) 27 + h2) * 5 + 0x52dce729;
               h2 = (rotl64 (h2 XOR mix64_2 (Load64LE (drop 8 data))) 31 + h1) * 5 + 0x38495ab5 in
           body64 (drop 16 data) h1 h2)"
  by auto
termination by (relation "measure (\<lambda>(d, _, _). length d)") auto

declare body64.simps [simp del]

definition tail64 :: "u8 list \<Rightarrow> u64 \<Rightarrow> u64 \<Rightarrow> u64 \<times> u64" where
  "tail64 tail h1 h2 =
     (let h2 = (if 9 \<le> length tail then h2 XOR mix64_2 (tail_value (drop 8 tail)) else h2);
          h1 = (if 1 \<le> length tail then h1 XOR mix64_1 (tail_value (take 8 tail)) else h1) in (h1, h2))"

definition MurmurHash3_x64_128 :: "u8 list \<Rightarrow> u32 \<Rightarrow> u64 \<times> u64" where
  "MurmurHash3_x64_128 key seed =
     (let (tail, h1, h2) = body64 key (ucast seed) (ucast seed);
          (h1, h2) = tail64 tail h1 h2;
          h1 = h1 XOR of_nat (length key); h2 = h2 XOR of_nat (length key);
          h1 = h1 + h2; h2 = h2 + h1;
          h1 = fmix64 h1; h2 = fmix64 h2;
          h1 = h1 + h2; h2 = h2 + h1 in (h1, h2))"

definition MurmurHash64 :: "string \<Rightarrow> u32 \<Rightarrow> u64" where
  "MurmurHash64 s seed = fst (MurmurHash3_x64_128 (bytes_of s) seed)"

subsection \<open>The finalizers lose nothing\<close>

lemma xorshift_involution:
  fixes k :: "'a::len word"
  assumes "LENGTH('a) \<le> 2 * n"
  shows "(k XOR drop_bit n k) XOR drop_bit n (k XOR drop_bit n k) = k"
proof (rule bit_eqI)
  fix i assume "possible_bit TYPE('a word) i"
  then have "\<not> bit k (n + n + i)"
    using assms by (auto dest: bit_imp_le_length)
  then show "bit ((k XOR drop_bit n k) XOR drop_bit n (k XOR drop_bit n k)) i = bit k i"
    by (auto simp: bit_simps)
qed

lemma inj_xorshift: "LENGTH('a::len) \<le> 2 * n \<Longrightarrow> inj (\<lambda>k :: 'a word. k XOR drop_bit n k)"
  by (rule inj_on_inverseI [where g = "\<lambda>k. k XOR drop_bit n k"]) (rule xorshift_involution)

lemma inj_times_unit:
  fixes c d :: "'a::len word"
  assumes "c * d = 1" shows "inj (\<lambda>k. k * c)"
  using assms by (intro inj_on_inverseI [where g = "\<lambda>k. k * d"]) (simp add: mult.assoc)

lemma fmix64_comp:
  "fmix64 = (\<lambda>k. k XOR drop_bit 33 k) \<circ> (\<lambda>k. k * 0xc4ceb9fe1a85ec53) \<circ> (\<lambda>k. k XOR drop_bit 33 k)
     \<circ> (\<lambda>k. k * 0xff51afd7ed558ccd) \<circ> (\<lambda>k. k XOR drop_bit 33 k)"
  by (simp add: fun_eq_iff fmix64_def Let_def)

text \<open>
  The 64-bit finalizer is a permutation: two different states of the hash
  never meet in it, so on the ring and in the table no coordinates are lost to it.
\<close>

theorem fmix64_bij: "bij fmix64"
proof -
  have "(0xc4ceb9fe1a85ec53 :: u64) * 0x9cb4b2f8129337db = 1" "(0xff51afd7ed558ccd :: u64) * 0x4f74430c22a54005 = 1" by simp_all
  then have "inj fmix64"
    unfolding fmix64_comp
    by (intro inj_compose inj_xorshift inj_times_unit [where d = "0x9cb4b2f8129337db"] inj_times_unit [where d = "0x4f74430c22a54005"]) simp_all
  then show ?thesis by (simp add: bij_def finite_UNIV_inj_surj)
qed

text \<open>Published test vectors of the two variants.\<close>

lemma MurmurHash_vectors:
  "MurmurHash3 '''' 0 = 0" "MurmurHash3 '''' 1 = 0x514e28b7" "MurmurHash3 ''abc'' 0 = 0xb3dd93fa"
  "MurmurHash64 '''' 0 = 0" "MurmurHash64 ''hello'' 0 = 0xcbd8a7b341bd9b02"
  by code_simp+

end
