(* ===== verification/LoadBalancer.thy ===== *)
theory LoadBalancer
  imports Upstream MurmurHash "HOL-Library.Multiset"
begin

text \<open>
  The balancing strategies of \<open>include/coropact/gateway/load_balancer.h\<close> that do
  not keep a ring or a table.  A \<open>shared_ptr\<close> to a peer is its index in
  \<open>upstream.peers()\<close>, \<open>nullptr\<close> is \<^const>\<open>None\<close>; \<open>SteadyClockMs()\<close> is the argument
  \<open>now\<close>.  What the C++ standard leaves open is an argument as well: \<open>draw n lo hi\<close>
  is the n-th draw of a \<open>uniform_int_distribution(lo, hi)\<close>, and \<open>sort_nodes\<close> is
  \<open>std::sort\<close> by the first component, which may order equal hashes either way.
\<close>

record RequestContext =
  client_ip :: string
  ctx_uri :: string
  user_id :: string
  session_id :: string

record lb_env =
  draw :: "nat \<Rightarrow> int \<Rightarrow> int \<Rightarrow> int"
  sort_nodes :: "(u64 \<times> nat) list \<Rightarrow> (u64 \<times> nat) list"

definition env_ok :: "lb_env \<Rightarrow> bool" where
  "env_ok env \<longleftrightarrow>
     (\<forall>n lo hi. lo \<le> hi \<longrightarrow> lo \<le> draw env n lo hi \<and> draw env n lo hi \<le> hi)
     \<and> (\<forall>l. mset (sort_nodes env l) = mset l \<and> sorted (map fst (sort_nodes env l)))"

section \<open>The interface\<close>

text \<open>
  \<open>LoadBalancer::Select\<close> as its users see it.  The peers a strategy accepts are
  given by \<open>peers_ok\<close>; \<open>lb_inv\<close> is what the strategy keeps true of its state for
  the configuration of the peers.
\<close>

locale load_balancer =
  fixes select :: "lb_env \<Rightarrow> u64 \<Rightarrow> UpstreamPeer list \<Rightarrow> RequestContext \<Rightarrow> 's \<Rightarrow> nat option \<times> 's"
    and lb_inv :: "lb_env \<Rightarrow> UpstreamPeerConfig list \<Rightarrow> 's \<Rightarrow> bool"
    and peers_ok :: "UpstreamPeer list \<Rightarrow> bool"
  assumes select_sound:
      "\<lbrakk>env_ok env; peers_ok ps; lb_inv env (map peer_config ps) s;
        select env now ps ctx s = (Some i, s')\<rbrakk> \<Longrightarrow> i < length ps \<and> AvailableAt now (ps ! i)"
    and select_inv:
      "\<lbrakk>env_ok env; peers_ok ps; lb_inv env (map peer_config ps) s\<rbrakk> \<Longrightarrow>
        lb_inv env (map peer_config ps) (snd (select env now ps ctx s))"
begin

lemma select_none:
  assumes "env_ok env" "peers_ok ps" "lb_inv env (map peer_config ps) s" "\<forall>p \<in> set ps. \<not> AvailableAt now p"
  shows "fst (select env now ps ctx s) = None"
proof (cases "fst (select env now ps ctx s)")
  case (Some i)
  then have "select env now ps ctx s = (Some i, snd (select env now ps ctx s))" by (metis prod.collapse)
  from select_sound [OF assms(1-3) this] assms(4) show ?thesis by (metis nth_mem)
qed simp

end

text \<open>A strategy that finds a peer whenever one is available.\<close>

locale total_load_balancer = load_balancer +
  assumes select_total:
    "\<lbrakk>env_ok env; peers_ok ps; lb_inv env (map peer_config ps) s; \<exists>p \<in> set ps. AvailableAt now p\<rbrakk> \<Longrightarrow>
      fst (select env now ps ctx s) \<noteq> None"
begin

lemma select_none_iff:
  assumes "env_ok env" "peers_ok ps" "lb_inv env (map peer_config ps) s"
  shows "fst (select env now ps ctx s) = None \<longleftrightarrow> (\<forall>p \<in> set ps. \<not> AvailableAt now p)"
  using select_none [OF assms] select_total [OF assms] by blast

end

section \<open>Counting and picking\<close>

definition count_avail :: "u64 \<Rightarrow> UpstreamPeer list \<Rightarrow> nat" where
  "count_avail now ps = length (filter (AvailableAt now) ps)"

text \<open>The second pass, \<open>if (pick-- == 0) return p\<close>, over the peers with their indices.\<close>

fun pick_nth :: "u64 \<Rightarrow> (nat \<times> UpstreamPeer) list \<Rightarrow> nat \<Rightarrow> nat option" where
  "pick_nth now [] k = None"
| "pick_nth now ((i, p) # ps) k =
     (if \<not> AvailableAt now p then pick_nth now ps k
      else if k = 0 then Some i else pick_nth now ps (k - 1))"

definition avail_indices :: "u64 \<Rightarrow> UpstreamPeer list \<Rightarrow> nat list" where
  "avail_indices now ps = map fst (filter (\<lambda>(i, p). AvailableAt now p) (enumerate 0 ps))"

lemma avail_indices_set: "i \<in> set (avail_indices now ps) \<longleftrightarrow> i < length ps \<and> AvailableAt now (ps ! i)"
  by (force simp: avail_indices_def in_set_enumerate_eq image_iff)

lemma distinct_map_fst_filter: "distinct (map fst xs) \<Longrightarrow> distinct (map fst (filter P xs))"
  by (induction xs) auto

lemma avail_indices_distinct: "distinct (avail_indices now ps)"
  unfolding avail_indices_def by (rule distinct_map_fst_filter) simp

lemma length_avail_indices: "length (avail_indices now ps) = count_avail now ps"
proof -
  have "length (filter (\<lambda>(i, p). AvailableAt now p) (enumerate n ps)) = length (filter (AvailableAt now) ps)" for n
    by (induction ps arbitrary: n) auto
  then show ?thesis by (simp add: avail_indices_def count_avail_def)
qed

lemma pick_nth_filter:
  "pick_nth now eps k =
     (let l = map fst (filter (\<lambda>(i, p). AvailableAt now p) eps) in if k < length l then Some (l ! k) else None)"
  by (induction now eps k rule: pick_nth.induct) (auto simp: nth_Cons' Let_def)

lemma pick_nth_avail:
  "pick_nth now (enumerate 0 ps) k =
     (if k < count_avail now ps then Some (avail_indices now ps ! k) else None)"
  by (simp add: pick_nth_filter length_avail_indices flip: avail_indices_def)

lemma pick_nth_sound: "pick_nth now (enumerate 0 ps) k = Some i \<Longrightarrow> i < length ps \<and> AvailableAt now (ps ! i)"
  using avail_indices_set length_avail_indices nth_mem
  by (metis option.distinct(1) option.inject pick_nth_avail)

lemma count_avail_0: "count_avail now ps = 0 \<longleftrightarrow> (\<forall>p \<in> set ps. \<not> AvailableAt now p)"
  by (simp add: count_avail_def filter_empty_conv)

lemma count_avail_pos: "p \<in> set ps \<Longrightarrow> AvailableAt now p \<Longrightarrow> 0 < count_avail now ps"
  using count_avail_0 by (meson gr0I)

lemma avail_indices_nth:
  "k < count_avail now ps \<Longrightarrow>
   avail_indices now ps ! k < length ps \<and> AvailableAt now (ps ! (avail_indices now ps ! k))"
  by (metis avail_indices_set length_avail_indices nth_mem)

section \<open>The strategies\<close>

text \<open>\<open>RoundRobinLB\<close>: the state is \<open>counter_\<close>.\<close>

definition RoundRobin_Select :: "lb_env \<Rightarrow> u64 \<Rightarrow> UpstreamPeer list \<Rightarrow> RequestContext \<Rightarrow> u64 \<Rightarrow> nat option \<times> u64" where
  "RoundRobin_Select env now ps ctx counter =
     (let avail = count_avail now ps in
      if avail = 0 then (None, counter)
      else (pick_nth now (enumerate 0 ps) (unat counter mod avail), counter + 1))"

text \<open>\<open>SmoothWeightedRoundRobinLB\<close>: the state is \<open>current_weights_\<close>, absent keys read 0.\<close>

definition INT_MIN :: int where "INT_MIN = - (2 ^ 31)"
definition INT_MAX :: int where "INT_MAX = 2 ^ 31 - 1"

definition swrr_weight :: "UpstreamPeer \<Rightarrow> int" where
  "swrr_weight p = max (effective_weight p) 0"

fun swrr_loop ::
  "u64 \<Rightarrow> (nat \<times> UpstreamPeer) list \<Rightarrow> (nat \<Rightarrow> int) \<Rightarrow> nat option \<Rightarrow> int \<Rightarrow> (nat \<Rightarrow> int) \<times> nat option" where
  "swrr_loop now [] cw best best_weight = (cw, best)"
| "swrr_loop now ((i, p) # ps) cw best best_weight =
     (if \<not> AvailableAt now p then swrr_loop now ps cw best best_weight
      else let cur = cw i + swrr_weight p; cw' = cw(i := cur) in
           if best_weight < cur then swrr_loop now ps cw' (Some i) cur
           else swrr_loop now ps cw' best best_weight)"

definition swrr_total :: "u64 \<Rightarrow> UpstreamPeer list \<Rightarrow> int" where
  "swrr_total now ps = sum_list (map swrr_weight (filter (AvailableAt now) ps))"

definition SmoothWeightedRoundRobin_Select ::
  "lb_env \<Rightarrow> u64 \<Rightarrow> UpstreamPeer list \<Rightarrow> RequestContext \<Rightarrow> (nat \<Rightarrow> int) \<Rightarrow> nat option \<times> (nat \<Rightarrow> int)" where
  "SmoothWeightedRoundRobin_Select env now ps ctx cw =
     (let total = swrr_total now ps in
      if total \<le> 0 then (None, cw)
      else case swrr_loop now (enumerate 0 ps) cw None INT_MIN of
        (cw', Some b) \<Rightarrow> (Some b, cw'(b := cw' b - total))
      | (cw', None) \<Rightarrow> (None, cw'))"

text \<open>\<open>LeastConnectionLB\<close>, \<open>WeightedLeastConnectionLB\<close>, which keep no state.\<close>

fun least_loop :: "u64 \<Rightarrow> (nat \<times> UpstreamPeer) list \<Rightarrow> nat option \<Rightarrow> int \<Rightarrow> nat option" where
  "least_loop now [] best min_active = best"
| "least_loop now ((i, p) # ps) best min_active =
     (if \<not> AvailableAt now p then least_loop now ps best min_active
      else if active p < min_active then least_loop now ps (Some i) (active p)
      else least_loop now ps best min_active)"

definition LeastConnection_Select ::
  "lb_env \<Rightarrow> u64 \<Rightarrow> UpstreamPeer list \<Rightarrow> RequestContext \<Rightarrow> unit \<Rightarrow> nat option \<times> unit" where
  "LeastConnection_Select env now ps ctx s = (least_loop now (enumerate 0 ps) None INT_MAX, s)"

fun wleast_loop :: "u64 \<Rightarrow> (nat \<times> UpstreamPeer) list \<Rightarrow> (nat \<times> int \<times> int) option \<Rightarrow> nat option" where
  "wleast_loop now [] best = map_option fst best"
| "wleast_loop now ((i, p) # ps) best =
     (if \<not> AvailableAt now p then wleast_loop now ps best
      else let weight = max (peer_weight p) 1 in
        case best of
          None \<Rightarrow> wleast_loop now ps (Some (i, active p, weight))
        | Some (b, best_active, best_weight) \<Rightarrow>
            if active p * best_weight < best_active * weight
            then wleast_loop now ps (Some (i, active p, weight))
            else wleast_loop now ps best)"

definition WeightedLeastConnection_Select ::
  "lb_env \<Rightarrow> u64 \<Rightarrow> UpstreamPeer list \<Rightarrow> RequestContext \<Rightarrow> unit \<Rightarrow> nat option \<times> unit" where
  "WeightedLeastConnection_Select env now ps ctx s = (wleast_loop now (enumerate 0 ps) None, s)"

text \<open>\<open>RandomLB\<close> and \<open>WeightedRandomLB\<close>.\<close>

definition Random_Select ::
  "lb_env \<Rightarrow> u64 \<Rightarrow> UpstreamPeer list \<Rightarrow> RequestContext \<Rightarrow> unit \<Rightarrow> nat option \<times> unit" where
  "Random_Select env now ps ctx s =
     (let avail = count_avail now ps in
      if avail = 0 then (None, s)
      else (pick_nth now (enumerate 0 ps) (nat (draw env 0 0 (int avail - 1))), s))"

fun wrandom_loop :: "u64 \<Rightarrow> (nat \<times> UpstreamPeer) list \<Rightarrow> int \<Rightarrow> nat option \<Rightarrow> nat option" where
  "wrandom_loop now [] r last_available = last_available"
| "wrandom_loop now ((i, p) # ps) r last_available =
     (if \<not> AvailableAt now p then wrandom_loop now ps r last_available
      else let r' = r - max (peer_weight p) 0 in
        if r' \<le> 0 then Some i else wrandom_loop now ps r' (Some i))"

definition WeightedRandom_Select ::
  "lb_env \<Rightarrow> u64 \<Rightarrow> UpstreamPeer list \<Rightarrow> RequestContext \<Rightarrow> unit \<Rightarrow> nat option \<times> unit" where
  "WeightedRandom_Select env now ps ctx s =
     (let total_weight = sum_list (map (\<lambda>p. max (peer_weight p) 0) (filter (AvailableAt now) ps)) in
      if total_weight \<le> 0 then (None, s)
      else (wrandom_loop now (enumerate 0 ps) (draw env 0 1 total_weight) None, s))"

text \<open>\<open>IPHashLB\<close>.\<close>

definition IPHash_Select ::
  "lb_env \<Rightarrow> u64 \<Rightarrow> UpstreamPeer list \<Rightarrow> RequestContext \<Rightarrow> unit \<Rightarrow> nat option \<times> unit" where
  "IPHash_Select env now ps ctx s =
     (let avail = count_avail now ps in
      if avail = 0 then (None, s)
      else let key = (if client_ip ctx = [] then ''0.0.0.0'' else client_ip ctx) in
           (pick_nth now (enumerate 0 ps) (unat (MurmurHash3 key 0) mod avail), s))"

text \<open>\<open>P2CLB\<close>.\<close>

definition P2C_Select ::
  "lb_env \<Rightarrow> u64 \<Rightarrow> UpstreamPeer list \<Rightarrow> RequestContext \<Rightarrow> unit \<Rightarrow> nat option \<times> unit" where
  "P2C_Select env now ps ctx s =
     (let avail = count_avail now ps; pick_at = pick_nth now (enumerate 0 ps) in
      if avail = 0 then (None, s)
      else if avail = 1 then (pick_at 0, s)
      else let idx1 = nat (draw env 0 0 (int avail - 1));
               d2 = nat (draw env 1 0 (int avail - 2));
               idx2 = (if idx1 \<le> d2 then d2 + 1 else d2) in
        case (pick_at idx1, pick_at idx2) of
          (None, p2) \<Rightarrow> (p2, s)
        | (p1, None) \<Rightarrow> (p1, s)
        | (Some i1, Some i2) \<Rightarrow>
            (let w1 = max (peer_weight (ps ! i1)) 1; w2 = max (peer_weight (ps ! i2)) 1;
                 load1 = active (ps ! i1) * w2; load2 = active (ps ! i2) * w1 in
             (if load1 \<le> load2 then Some i1 else Some i2, s)))"

section \<open>Each strategy meets the interface\<close>

abbreviation any_state :: "lb_env \<Rightarrow> UpstreamPeerConfig list \<Rightarrow> 's \<Rightarrow> bool" where
  "any_state env cfgs s \<equiv> True"

abbreviation any_peers :: "UpstreamPeer list \<Rightarrow> bool" where
  "any_peers ps \<equiv> True"

interpretation rr: total_load_balancer RoundRobin_Select any_state any_peers
  by unfold_locales
    (auto simp: RoundRobin_Select_def Let_def pick_nth_avail avail_indices_nth count_avail_pos split: if_splits)

lemma env_ok_draw: "env_ok env \<Longrightarrow> lo \<le> hi \<Longrightarrow> lo \<le> draw env n lo hi \<and> draw env n lo hi \<le> hi"
  by (simp add: env_ok_def)

lemma draw_below:
  assumes "env_ok env" "0 < k" shows "nat (draw env n 0 (int k - 1)) < k"
  using env_ok_draw [OF assms(1), of 0 "int k - 1" n] assms(2) by linarith

interpretation random: total_load_balancer Random_Select any_state any_peers
proof unfold_locales
  fix env :: lb_env and ps now ctx and s s' :: unit and i
  show "i < length ps \<and> AvailableAt now (ps ! i)" if "Random_Select env now ps ctx s = (Some i, s')"
    using that pick_nth_sound by (auto simp: Random_Select_def Let_def split: if_splits)
  show "fst (Random_Select env now ps ctx s) \<noteq> None" if "env_ok env" "\<exists>p \<in> set ps. AvailableAt now p"
  proof -
    have "0 < count_avail now ps" using that(2) count_avail_pos by blast
    from draw_below [OF that(1) this, of 0] this show ?thesis
      by (simp add: Random_Select_def Let_def pick_nth_avail)
  qed
qed simp

interpretation ip_hash: total_load_balancer IPHash_Select any_state any_peers
  by unfold_locales
    (auto simp: IPHash_Select_def Let_def pick_nth_avail avail_indices_nth count_avail_pos split: if_splits)

text \<open>The two draws of \<open>P2CLB\<close> give two different available peers, and the less loaded one wins.\<close>

lemma P2C_choice:
  assumes "env_ok env" and "2 \<le> count_avail now ps"
  obtains i j where "i \<noteq> j" "i \<in> set (avail_indices now ps)" "j \<in> set (avail_indices now ps)"
    "fst (P2C_Select env now ps ctx s) = Some i"
    "active (ps ! i) * max (peer_weight (ps ! j)) 1 \<le> active (ps ! j) * max (peer_weight (ps ! i)) 1"
proof -
  let ?n = "count_avail now ps" and ?l = "avail_indices now ps"
  let ?a = "nat (draw env 0 0 (int ?n - 1))" and ?d = "nat (draw env 1 0 (int ?n - 2))"
  let ?b = "if ?a \<le> ?d then ?d + 1 else ?d"
  have a: "?a < ?n" using draw_below [OF assms(1)] assms(2) by simp
  have "?d \<le> ?n - 2" using env_ok_draw [OF assms(1), of 0 "int ?n - 2" 1] assms(2) by linarith
  then have b: "?b < ?n" using assms(2) a by auto
  define i where "i = ?l ! ?a"
  define j where "j = ?l ! ?b"
  let ?le = "\<lambda>i j. active (ps ! i) * max (peer_weight (ps ! j)) 1 \<le> active (ps ! j) * max (peer_weight (ps ! i)) 1"
  have "i \<noteq> j"
    using a b avail_indices_distinct [of now ps]
    by (simp add: i_def j_def nth_eq_iff_index_eq length_avail_indices)
  moreover have "i \<in> set ?l" "j \<in> set ?l" using a b by (simp_all add: i_def j_def length_avail_indices)
  moreover have "fst (P2C_Select env now ps ctx s) = (if ?le i j then Some i else Some j)"
    using a b assms(2) by (simp add: i_def j_def P2C_Select_def Let_def pick_nth_avail del: One_nat_def)
  ultimately show ?thesis using that [of i j] that [of j i] by (cases "?le i j") simp_all
qed

interpretation p2c: total_load_balancer P2C_Select any_state any_peers
proof unfold_locales
  fix env :: lb_env and ps now ctx and s s' :: unit and i
  assume env: "env_ok env"
  have some: "\<exists>i. fst (P2C_Select env now ps ctx s) = Some i \<and> i \<in> set (avail_indices now ps)"
    if "count_avail now ps \<noteq> 0"
  proof (cases "count_avail now ps = 1")
    case True
    then show ?thesis
      by (simp add: P2C_Select_def Let_def pick_nth_avail length_avail_indices)
  next
    case False
    with that have "2 \<le> count_avail now ps" by simp
    from P2C_choice [OF env this] show ?thesis by metis
  qed
  show "i < length ps \<and> AvailableAt now (ps ! i)" if "P2C_Select env now ps ctx s = (Some i, s')"
    using some that by (cases "count_avail now ps = 0") (auto simp: avail_indices_set P2C_Select_def)
  show "fst (P2C_Select env now ps ctx s) \<noteq> None" if "\<exists>p \<in> set ps. AvailableAt now p"
    using some that count_avail_pos by fastforce
qed simp

section \<open>Least connections\<close>

definition available :: "u64 \<Rightarrow> (nat \<times> UpstreamPeer) list \<Rightarrow> (nat \<times> UpstreamPeer) set" where
  "available now eps = {(i, p) \<in> set eps. AvailableAt now p}"

lemma available_simps [simp]:
  "available now [] = {}"
  "available now ((i, p) # eps) = (if AvailableAt now p then insert (i, p) (available now eps) else available now eps)"
  by (auto simp: available_def)

lemma available_enumerate: "(i, p) \<in> available now (enumerate 0 ps) \<longleftrightarrow> i < length ps \<and> ps ! i = p \<and> AvailableAt now p"
  by (auto simp: available_def in_set_enumerate_eq)

lemma least_loop_min:
  "least_loop now eps best m = best \<and> (\<forall>(j, q) \<in> available now eps. m \<le> active q)
   \<or> (\<exists>(i, p) \<in> available now eps. least_loop now eps best m = Some i \<and> active p < m
        \<and> (\<forall>(j, q) \<in> available now eps. active p \<le> active q))"
    (is "?P eps best m")
proof (induction eps arbitrary: best m)
  case (Cons e eps)
  obtain i p where e: "e = (i, p)" by (cases e)
  show ?case
  proof (cases "AvailableAt now p \<and> active p < m")
    case True
    then have step: "least_loop now (e # eps) best m = least_loop now eps (Some i) (active p)" by (simp add: e)
    from Cons [of "Some i" "active p"] show ?thesis
    proof (elim disjE bexE, goal_cases)
      case 1
      with True step show ?thesis by (intro disjI2 bexI [of _ "(i, p)"]) (auto simp: e)
    next
      case (2 x)
      with True step show ?thesis by (intro disjI2 bexI [of _ x]) (auto simp: e)
    qed
  next
    case False
    then have step: "least_loop now (e # eps) best m = least_loop now eps best m" by (simp add: e)
    from Cons [of best m] show ?thesis
    proof (elim disjE bexE, goal_cases)
      case 1
      with False step show ?thesis by (intro disjI1) (auto simp: e)
    next
      case (2 x)
      with False step show ?thesis by (intro disjI2 bexI [of _ x]) (auto simp: e)
    qed
  qed
qed simp

interpretation least: total_load_balancer LeastConnection_Select any_state "\<lambda>ps. \<forall>p \<in> set ps. active p < INT_MAX"
proof unfold_locales
  fix env :: lb_env and ps now ctx and s s' :: unit and i
  note m = least_loop_min [of now "enumerate 0 ps" None INT_MAX]
  show "i < length ps \<and> AvailableAt now (ps ! i)" if "LeastConnection_Select env now ps ctx s = (Some i, s')"
    using m that by (auto simp: LeastConnection_Select_def available_enumerate)
  show "fst (LeastConnection_Select env now ps ctx s) \<noteq> None"
    if ok: "\<forall>p \<in> set ps. active p < INT_MAX" and av: "\<exists>p \<in> set ps. AvailableAt now p"
  proof
    assume none: "fst (LeastConnection_Select env now ps ctx s) = None"
    obtain k where k: "k < length ps" "AvailableAt now (ps ! k)" using av by (metis in_set_conv_nth)
    then have "(k, ps ! k) \<in> available now (enumerate 0 ps)" by (simp add: available_enumerate)
    with m none have "INT_MAX \<le> active (ps ! k)" by (auto simp: LeastConnection_Select_def)
    moreover have "active (ps ! k) < INT_MAX" using ok k by simp
    ultimately show False by simp
  qed
qed simp

definition lighter :: "UpstreamPeer \<Rightarrow> UpstreamPeer \<Rightarrow> bool" where
  "lighter p q \<longleftrightarrow> active p * max (peer_weight q) 1 \<le> active q * max (peer_weight p) 1"

lemma lighter_refl [simp]: "lighter p p" by (simp add: lighter_def)

lemma lighter_linear: "lighter p q \<or> lighter q p" by (auto simp: lighter_def)

lemma lighter_trans: assumes "lighter p q" "lighter q r" shows "lighter p r"
proof -
  let ?w = "\<lambda>p. max (peer_weight p) 1"
  have "(active p * ?w q) * ?w r \<le> (active q * ?w p) * ?w r"
    using assms(1) by (intro mult_right_mono) (auto simp: lighter_def)
  also have "\<dots> = (active q * ?w r) * ?w p" by simp
  also have "\<dots> \<le> (active r * ?w q) * ?w p"
    using assms(2) by (intro mult_right_mono) (auto simp: lighter_def)
  finally have "(active p * ?w r) * ?w q \<le> (active r * ?w p) * ?w q" by (simp add: mult_ac)
  then show ?thesis by (simp add: lighter_def mult_le_cancel_right)
qed

abbreviation entry :: "nat \<times> UpstreamPeer \<Rightarrow> nat \<times> int \<times> int" where
  "entry x \<equiv> (fst x, active (snd x), max (peer_weight (snd x)) 1)"

lemma wleast_loop_min:
  assumes "available now eps \<union> set_option b \<noteq> {}"
  shows "\<exists>x \<in> available now eps \<union> set_option b. wleast_loop now eps (map_option entry b) = Some (fst x)
      \<and> (\<forall>y \<in> available now eps \<union> set_option b. lighter (snd x) (snd y))"
  using assms
proof (induction eps arbitrary: b)
  case Nil
  then show ?case by (cases b) auto
next
  case (Cons e eps)
  obtain i p where e: "e = (i, p)" by (cases e)
  consider (skip) "\<not> AvailableAt now p" | (first) "AvailableAt now p" "b = None"
    | (compare) c where "AvailableAt now p" "b = Some c" by (cases b) auto
  then show ?case
  proof cases
    case compare
    define n where "n = (if lighter (snd c) p then c else e)"
    define m where "m = (if lighter (snd c) p then e else c)"
    have nm: "lighter (snd n) (snd m)" using lighter_linear [of "snd c" p] by (auto simp: e n_def m_def)
    have step: "wleast_loop now (e # eps) (map_option entry b) = wleast_loop now eps (map_option entry (Some n))"
      using compare by (simp add: e n_def Let_def lighter_def)
    have "available now eps \<union> set_option (Some n) \<noteq> {}" by simp
    from Cons.IH [OF this] obtain x where x: "x \<in> available now eps \<union> {n}"
        "wleast_loop now eps (map_option entry (Some n)) = Some (fst x)"
        "\<forall>y \<in> available now eps \<union> {n}. lighter (snd x) (snd y)" by (metis option.set(2))
    have "lighter (snd x) (snd m)" using lighter_trans x(3) nm by blast
    moreover have "available now (e # eps) \<union> set_option b = available now eps \<union> {n, m}"
      using compare by (auto simp: e n_def m_def)
    ultimately show ?thesis using x step by (intro bexI [of _ x]) auto
  next
    case first
    then show ?thesis using Cons.IH [of "Some e"] by (simp add: e Let_def)
  qed (use Cons e in simp)
qed

lemma available_empty_iff: "available now (enumerate 0 ps) = {} \<longleftrightarrow> (\<forall>p \<in> set ps. \<not> AvailableAt now p)"
  by (auto simp: available_def in_set_enumerate_eq all_set_conv_all_nth)

lemma wleast_loop_empty: "available now eps = {} \<Longrightarrow> wleast_loop now eps None = None"
proof (induction eps)
  case (Cons e eps)
  then show ?case by (cases e) (auto split: if_splits)
qed simp

interpretation wleast: total_load_balancer WeightedLeastConnection_Select any_state any_peers
proof unfold_locales
  fix env :: lb_env and ps now ctx and s s' :: unit and i
  note m = wleast_loop_min [of now "enumerate 0 ps" None, simplified]
  show "i < length ps \<and> AvailableAt now (ps ! i)" if "WeightedLeastConnection_Select env now ps ctx s = (Some i, s')"
    using m that wleast_loop_empty [of now "enumerate 0 ps"]
    by (cases "available now (enumerate 0 ps) = {}") (auto simp: WeightedLeastConnection_Select_def available_enumerate)
  show "fst (WeightedLeastConnection_Select env now ps ctx s) \<noteq> None" if "\<exists>p \<in> set ps. AvailableAt now p"
    using m that by (auto simp: WeightedLeastConnection_Select_def available_empty_iff)
qed simp

text \<open>
  The connection-counting strategies pick a minimum.  \<open>LeastConnectionLB\<close>
  returns an available peer with no more requests in flight than any other
  available peer; \<open>WeightedLeastConnectionLB\<close> one whose requests in flight per
  unit of weight are no more than those of any other, weights below 1 counting as 1.
\<close>

theorem least_loaded_picked:
  assumes "p \<in> set ps" "AvailableAt now p" and "\<forall>q \<in> set ps. active q < INT_MAX"
  shows "\<exists>i j. fst (LeastConnection_Select env now ps ctx s) = Some i
      \<and> fst (WeightedLeastConnection_Select env now ps ctx s) = Some j
      \<and> active (ps ! i) \<le> active p
      \<and> active (ps ! j) * max (peer_weight p) 1 \<le> active p * max (peer_weight (ps ! j)) 1"
proof -
  obtain k where k: "k < length ps" "ps ! k = p" using assms(1) by (metis in_set_conv_nth)
  then have mem: "(k, p) \<in> available now (enumerate 0 ps)" using assms(2) by (simp add: available_enumerate)
  have "active p < INT_MAX" using assms(1,3) by simp
  with mem least_loop_min [of now "enumerate 0 ps" None INT_MAX] obtain i q where
      "(i, q) \<in> available now (enumerate 0 ps)" "least_loop now (enumerate 0 ps) None INT_MAX = Some i" "active q \<le> active p"
    by fastforce
  moreover from mem wleast_loop_min [of now "enumerate 0 ps" None] obtain x where
      "x \<in> available now (enumerate 0 ps)" "wleast_loop now (enumerate 0 ps) None = Some (fst x)" "lighter (snd x) p"
    by fastforce
  ultimately show ?thesis
    by (cases x) (auto simp: LeastConnection_Select_def WeightedLeastConnection_Select_def available_enumerate lighter_def)
qed

definition demo_busy :: UpstreamPeer where "demo_busy = demo_peer\<lparr>active := 4\<rparr>"

theorem least_loaded_picked_witness:
  "\<forall>env ctx s. \<exists>i j. fst (LeastConnection_Select env 0 [demo_busy, demo_peer] ctx s) = Some i
      \<and> fst (WeightedLeastConnection_Select env 0 [demo_busy, demo_peer] ctx s) = Some j
      \<and> active ([demo_busy, demo_peer] ! i) \<le> active demo_peer
      \<and> active ([demo_busy, demo_peer] ! j) * max (peer_weight demo_peer) 1
          \<le> active demo_peer * max (peer_weight ([demo_busy, demo_peer] ! j)) 1"
proof (intro allI)
  fix env ctx s
  have "AvailableAt 0 demo_peer" "active demo_peer < INT_MAX" "active demo_busy < INT_MAX"
    by (simp_all add: demo_busy_def demo_peer_def new_UpstreamPeer_def INT_MAX_def AvailableAt_def IsUp_def int_of_u64_def)
  then have "\<forall>q \<in> set [demo_busy, demo_peer]. active q < INT_MAX" by simp
  from least_loaded_picked [OF _ \<open>AvailableAt 0 demo_peer\<close> this, of env ctx s] show
    "\<exists>i j. fst (LeastConnection_Select env 0 [demo_busy, demo_peer] ctx s) = Some i
      \<and> fst (WeightedLeastConnection_Select env 0 [demo_busy, demo_peer] ctx s) = Some j
      \<and> active ([demo_busy, demo_peer] ! i) \<le> active demo_peer
      \<and> active ([demo_busy, demo_peer] ! j) * max (peer_weight demo_peer) 1
          \<le> active demo_peer * max (peer_weight ([demo_busy, demo_peer] ! j)) 1"
    by (simp only: list.set insert_iff simp_thms)
qed

end
