(* ===== verification/Fairness.thy ===== *)
theory Fairness
  imports LoadBalancer
begin

text \<open>
  How the rotating and the random strategies share requests out: round robin
  visits every available peer once per turn, smooth weighted round robin gives
  every peer its share of every prefix of a run and exactly its weight per
  cycle, and the weighted draw gives a peer as many of the equally likely
  outcomes as its weight.  While peers come and go, the running weights of the smooth
  strategy stay within bounds.
\<close>

section \<open>Round robin\<close>

text \<open>The picks of consecutive calls, each at its own clock reading.\<close>

fun picks ::
  "(u64 \<Rightarrow> 's \<Rightarrow> nat option \<times> 's) \<Rightarrow> u64 list \<Rightarrow> 's \<Rightarrow> nat option list" where
  "picks sel [] s = []"
| "picks sel (now # nows) s = (let (r, s') = sel now s in r # picks sel nows s')"

lemma rr_picks:
  assumes "\<forall>now \<in> set nows. avail_indices now ps = A" "A \<noteq> []" "unat c + length nows < 2 ^ 64"
  shows "picks (\<lambda>now. RoundRobin_Select env now ps ctx) nows c
    = map (\<lambda>k. Some (A ! (k mod length A))) [unat c ..< unat c + length nows]"
  using assms
proof (induction nows arbitrary: c)
  case (Cons now nows)
  have A: "avail_indices now ps = A" using Cons.prems(1) by simp
  then have n: "count_avail now ps = length A" by (simp flip: length_avail_indices)
  have "c \<noteq> - 1" using Cons.prems(3) unat_max_u64 by auto
  then have c: "unat (c + 1) = Suc (unat c)" by (rule unat_Suc_word)
  have "picks (\<lambda>now. RoundRobin_Select env now ps ctx) nows (c + 1)
      = map (\<lambda>k. Some (A ! (k mod length A))) [Suc (unat c) ..< Suc (unat c) + length nows]"
    using Cons.IH [of "c + 1"] Cons.prems c by simp
  moreover have "[unat c ..< unat c + length (now # nows)] = unat c # [Suc (unat c) ..< Suc (unat c) + length nows]"
    by (subst upt_conv_Cons) simp_all
  moreover have "RoundRobin_Select env now ps ctx c = (Some (A ! (unat c mod length A)), c + 1)"
    using Cons.prems(2) by (simp add: RoundRobin_Select_def n A pick_nth_avail)
  ultimately show ?case by (simp only: picks.simps Let_def prod.case list.map)
qed simp

lemma bij_mod_window: "bij_betw (\<lambda>k. k mod n) {m ..< m + n} {..< n}" if "0 < n" for m n :: nat
proof -
  have inj: "inj_on (\<lambda>k. k mod n) {m ..< m + n}"
  proof (rule inj_onI)
    fix x y assume xy: "x \<in> {m ..< m + n}" "y \<in> {m ..< m + n}" "x mod n = y mod n"
    show "x = y"
    proof (rule ccontr)
      assume "x \<noteq> y"
      then have "x mod n = y mod n \<and> 0 < (if x < y then y - x else x - y) \<and> (if x < y then y - x else x - y) < n"
        using xy by auto
      moreover have "n dvd (if x < y then y - x else x - y)"
        using xy(3) mod_eq_dvd_iff_nat [of x y n] mod_eq_dvd_iff_nat [of y x n] by auto
      ultimately show False using nat_dvd_not_less by blast
    qed
  qed
  moreover have "(\<lambda>k. k mod n) ` {m ..< m + n} \<subseteq> {..< n}" using that by auto
  ultimately show ?thesis
    by (simp add: bij_betw_def card_image card_subset_eq)
qed

text \<open>
  Round robin serves everyone once per turn.  While the set of available
  peers does not change, as many consecutive calls as there are available peers
  return every available peer exactly once, whatever the counter starts at
  (short of its wrap-around at \<open>2\<^sup>6\<^sup>4\<close>).
\<close>

theorem round_robin_turn:
  assumes "\<forall>now \<in> set nows. avail_indices now ps = A" "A \<noteq> []"
    and "length nows = length A" "unat c + length nows < 2 ^ 64"
  shows "distinct (picks (\<lambda>now. RoundRobin_Select env now ps ctx) nows c)
    \<and> set (picks (\<lambda>now. RoundRobin_Select env now ps ctx) nows c) = Some ` set A"
proof -
  let ?n = "length A" and ?m = "unat c"
  have b: "bij_betw (\<lambda>k. k mod ?n) {?m ..< ?m + ?n} {..< ?n}" using bij_mod_window assms(2) by blast
  have p: "picks (\<lambda>now. RoundRobin_Select env now ps ctx) nows c
      = map (\<lambda>k. Some (A ! (k mod ?n))) [?m ..< ?m + ?n]"
    using rr_picks [OF assms(1,2,4)] assms(3) by simp
  obtain now where "now \<in> set nows" using assms(2,3) by (cases nows) auto
  then have "distinct A" using assms(1) avail_indices_distinct by metis
  then have inj: "inj_on (\<lambda>j. A ! j) {..< ?n}" by (simp add: inj_on_def nth_eq_iff_index_eq)
  have mod: "inj_on (\<lambda>k. k mod ?n) {?m ..< ?m + ?n}" "(\<lambda>k. k mod ?n) ` {?m ..< ?m + ?n} = {..< ?n}"
    using b by (simp_all add: bij_betw_def)
  have "inj_on (Some \<circ> ((\<lambda>j. A ! j) \<circ> (\<lambda>k. k mod ?n))) {?m ..< ?m + ?n}"
    using inj by (intro comp_inj_on mod(1)) (simp_all add: mod(2))
  moreover have "(Some \<circ> ((\<lambda>j. A ! j) \<circ> (\<lambda>k. k mod ?n))) ` {?m ..< ?m + ?n} = Some ` set A"
    unfolding image_comp [symmetric] mod(2) by (auto simp: set_conv_nth)
  ultimately show ?thesis
    unfolding p by (simp add: distinct_map comp_def)
qed

section \<open>Smooth weighted round robin\<close>

lemma swrr_loop_other: "i \<notin> fst ` available now eps \<Longrightarrow> fst (swrr_loop now eps cw best bw) i = cw i"
  by (induction now eps cw best bw rule: swrr_loop.induct) (auto simp: Let_def)

lemma available_subset: "fst ` available now eps \<subseteq> fst ` set eps"
  by (auto simp: available_def)

lemma swrr_loop_mem:
  "distinct (map fst eps) \<Longrightarrow> (i, p) \<in> available now eps \<Longrightarrow>
   fst (swrr_loop now eps cw best bw) i = cw i + swrr_weight p"
proof (induction eps arbitrary: cw best bw)
  case (Cons e eps)
  obtain k q where e: "e = (k, q)" by (cases e)
  have k: "k \<notin> fst ` available now eps" using Cons.prems(1) e available_subset [of now eps] by auto
  show ?case
  proof (cases "i = k")
    case True
    then have "p = q" "AvailableAt now q" using Cons.prems(2) k e by (force split: if_splits)+
    then show ?thesis using k True e by (simp add: Let_def swrr_loop_other)
  next
    case False
    then have "(i, p) \<in> available now eps" using Cons.prems(2) e by (auto split: if_splits)
    with Cons.IH Cons.prems(1) False e show ?thesis by (simp add: Let_def)
  qed
qed simp

lemma swrr_loop_best:
  assumes "distinct (map fst eps)" "swrr_loop now eps cw best bw = (cw', r)"
  shows "r = best \<and> (\<forall>j \<in> fst ` available now eps. cw' j \<le> bw)
    \<or> (\<exists>i \<in> fst ` available now eps. r = Some i \<and> bw < cw' i \<and> (\<forall>j \<in> fst ` available now eps. cw' j \<le> cw' i))"
  using assms
proof (induction eps arbitrary: cw best bw)
  case (Cons e eps)
  obtain k q where e: "e = (k, q)" by (cases e)
  have k: "k \<notin> fst ` available now eps" using Cons.prems(1) e available_subset [of now eps] by auto
  let ?cur = "cw k + swrr_weight q"
  consider (skip) "\<not> AvailableAt now q" | (take) "AvailableAt now q" "bw < ?cur" | (keep) "AvailableAt now q" "\<not> bw < ?cur"
    by blast
  then show ?case
  proof cases
    case skip
    then show ?thesis using Cons e by simp
  next
    case take
    then have l: "swrr_loop now eps (cw(k := ?cur)) (Some k) ?cur = (cw', r)" using Cons.prems(2) e by (simp add: Let_def)
    have "cw' k = ?cur" using swrr_loop_other [OF k, of "cw(k := ?cur)" "Some k" ?cur] l by simp
    with Cons.IH [OF _ l] Cons.prems(1) take show ?thesis by (auto simp: e)
  next
    case keep
    then have l: "swrr_loop now eps (cw(k := ?cur)) best bw = (cw', r)" using Cons.prems(2) e by (simp add: Let_def)
    have "cw' k = ?cur" using swrr_loop_other [OF k, of "cw(k := ?cur)" best bw] l by simp
    with Cons.IH [OF _ l] Cons.prems(1) keep show ?thesis by (auto simp: e)
  qed
qed simp

lemma fst_available: "fst ` available now (enumerate 0 ps) = set (avail_indices now ps)"
  by (auto simp: available_def avail_indices_def)

lemma map_nth_avail_indices: "map (\<lambda>i. ps ! i) (avail_indices now ps) = filter (AvailableAt now) ps"
proof -
  have snd: "map snd (filter (\<lambda>(i, p). AvailableAt now p) (enumerate n ps)) = filter (AvailableAt now) ps" for n ps
    by (induction ps arbitrary: n) auto
  have "map (\<lambda>i. ps ! i) (avail_indices now ps) = map snd (filter (\<lambda>(i, p). AvailableAt now p) (enumerate 0 ps))"
    unfolding avail_indices_def map_map by (rule map_cong) (auto simp: in_set_enumerate_eq)
  then show ?thesis by (simp add: snd)
qed

lemma swrr_total_sum: "swrr_total now ps = (\<Sum>i \<in> set (avail_indices now ps). swrr_weight (ps ! i))"
proof -
  have "map swrr_weight (filter (AvailableAt now) ps) = map (\<lambda>i. swrr_weight (ps ! i)) (avail_indices now ps)"
    by (simp flip: map_nth_avail_indices add: comp_def)
  then show ?thesis by (simp add: swrr_total_def sum_list_distinct_conv_sum_set avail_indices_distinct)
qed

definition swrr_inv :: "nat set \<Rightarrow> int \<Rightarrow> (nat \<Rightarrow> int) \<Rightarrow> bool" where
  "swrr_inv A W cw \<longleftrightarrow> (\<Sum>i \<in> A. cw i) = 0 \<and> (\<forall>i \<in> A. - W < cw i)"

lemma swrr_weight_nonneg: "0 \<le> swrr_weight p"
  by (simp add: swrr_weight_def)

text \<open>One call with some weight available: the peer with the highest running weight is picked.\<close>

lemma swrr_pick:
  fixes env now ps ctx cw
  defines "A \<equiv> set (avail_indices now ps)" and "w \<equiv> \<lambda>i. swrr_weight (ps ! i)"
  assumes "0 < swrr_total now ps" "\<forall>i \<in> A. INT_MIN < cw i"
  obtains b cw2 where "SmoothWeightedRoundRobin_Select env now ps ctx cw = (Some b, cw2)"
    "b \<in> A" "\<forall>j \<in> A. cw j + w j \<le> cw b + w b"
    "\<And>i. cw2 i = cw i + (if i \<in> A then w i else 0) - (if i = b then swrr_total now ps else 0)"
proof -
  obtain cw1 r where l: "swrr_loop now (enumerate 0 ps) cw None INT_MIN = (cw1, r)" by (cases "swrr_loop now (enumerate 0 ps) cw None INT_MIN")
  have A: "fst ` available now (enumerate 0 ps) = A" by (simp add: A_def fst_available)
  have cw1: "cw1 i = cw i + (if i \<in> A then w i else 0)" for i
  proof (cases "i \<in> A")
    case True
    then have "(i, ps ! i) \<in> available now (enumerate 0 ps)"
      by (simp add: A_def avail_indices_set available_enumerate)
    from swrr_loop_mem [OF _ this, of cw None INT_MIN] l True show ?thesis by (simp add: w_def)
  next
    case False
    then show ?thesis using swrr_loop_other [of i now "enumerate 0 ps" cw None INT_MIN] l A by simp
  qed
  have "A \<noteq> {}" using assms(3) by (auto simp: swrr_total_sum A_def)
  then obtain a where "a \<in> A" by blast
  then have "INT_MIN < cw1 a"
    using assms(4) swrr_weight_nonneg [of "ps ! a"] unfolding cw1 w_def by force
  then obtain b where b: "b \<in> A" "r = Some b" "\<forall>j \<in> A. cw1 j \<le> cw1 b"
    using swrr_loop_best [OF _ l] \<open>a \<in> A\<close> by (auto simp: A)
  define cw2 where "cw2 = cw1(b := cw1 b - swrr_total now ps)"
  show ?thesis
  proof (rule that)
    show "SmoothWeightedRoundRobin_Select env now ps ctx cw = (Some b, cw2)"
      using assms(3) l b(2) by (simp add: SmoothWeightedRoundRobin_Select_def Let_def cw2_def)
    show "b \<in> A" "\<forall>j \<in> A. cw j + w j \<le> cw b + w b" using b by (simp_all add: cw1)
    show "cw2 i = cw i + (if i \<in> A then w i else 0) - (if i = b then swrr_total now ps else 0)" for i
      by (simp add: cw2_def cw1)
  qed
qed

lemma swrr_step:
  fixes env now ps ctx cw
  defines "A \<equiv> set (avail_indices now ps)" and "W \<equiv> swrr_total now ps"
  assumes "0 < W" "W < 2 ^ 31" "swrr_inv A W cw"
  obtains b cw2 where "SmoothWeightedRoundRobin_Select env now ps ctx cw = (Some b, cw2)" "b \<in> A"
    "\<And>i. i \<in> A \<Longrightarrow> cw2 i = cw i + swrr_weight (ps ! i) - (if i = b then W else 0)" "swrr_inv A W cw2"
proof -
  let ?cur = "\<lambda>i. cw i + swrr_weight (ps ! i)"
  have low: "- W < cw i" if "i \<in> A" for i using that assms(5) by (simp add: swrr_inv_def)
  then have "\<forall>i \<in> A. INT_MIN < cw i" using assms(4) unfolding INT_MIN_def by force
  from swrr_pick [OF assms(3) [unfolded W_def] this [unfolded A_def], of env ctx, folded A_def W_def]
  obtain b cw2 where sel: "SmoothWeightedRoundRobin_Select env now ps ctx cw = (Some b, cw2)"
    and b: "b \<in> A" "\<forall>j \<in> A. ?cur j \<le> ?cur b"
    and upd: "\<And>i. cw2 i = cw i + (if i \<in> A then swrr_weight (ps ! i) else 0) - (if i = b then W else 0)" by metis
  have cw2: "cw2 i = ?cur i - (if i = b then W else 0)" if "i \<in> A" for i using that by (simp add: upd)
  have sum1: "(\<Sum>i \<in> A. ?cur i) = W"
    using assms(5) by (simp add: sum.distrib swrr_inv_def W_def swrr_total_sum A_def)
  have pos: "0 < ?cur b"
  proof (rule ccontr)
    assume "\<not> 0 < ?cur b"
    then have "(\<Sum>i \<in> A. ?cur i) \<le> 0" using b(2) by (intro sum_nonpos) force
    with sum1 assms(3) show False by simp
  qed
  have "(\<Sum>i \<in> A. cw2 i) = (\<Sum>i \<in> A. ?cur i - (if i = b then W else 0))" by (rule sum.cong) (simp_all add: cw2)
  also have "\<dots> = 0" using b(1) sum1 by (simp add: sum_subtractf A_def sum.delta)
  finally have "(\<Sum>i \<in> A. cw2 i) = 0" .
  moreover have "- W < cw2 i" if "i \<in> A" for i
    using low [OF that] cw2 [OF that] pos swrr_weight_nonneg [of "ps ! i"] by (cases "i = b") auto
  ultimately have "swrr_inv A W cw2" by (simp add: swrr_inv_def)
  with sel b(1) cw2 show ?thesis using that by metis
qed

lemma swrr_share:
  assumes "\<forall>now \<in> set nows. avail_indices now ps = L" "W = (\<Sum>i \<in> set L. swrr_weight (ps ! i))"
    and "0 < W" "W < 2 ^ 31" "swrr_inv (set L) W cw"
  shows "\<forall>i \<in> set L. W * int (count_list (picks (\<lambda>now. SmoothWeightedRoundRobin_Select env now ps ctx) nows cw) (Some i))
      < int (length nows) * swrr_weight (ps ! i) + cw i + W"
    and "(\<Sum>i \<in> set L. count_list (picks (\<lambda>now. SmoothWeightedRoundRobin_Select env now ps ctx) nows cw) (Some i)) = length nows"
proof -
  let ?p = "picks (\<lambda>now. SmoothWeightedRoundRobin_Select env now ps ctx)"
  have "(\<forall>i \<in> set L. W * int (count_list (?p nows cw) (Some i)) < int (length nows) * swrr_weight (ps ! i) + cw i + W)
      \<and> (\<Sum>i \<in> set L. count_list (?p nows cw) (Some i)) = length nows"
    using assms(1,5)
  proof (induction nows arbitrary: cw)
    case Nil
    then show ?case by (auto simp: swrr_inv_def)
  next
    case (Cons now nows)
    have L: "avail_indices now ps = L" using Cons.prems(1) by simp
    then have W: "swrr_total now ps = W" using assms(2) swrr_total_sum [of now ps] by simp
    obtain b cw2 where st: "SmoothWeightedRoundRobin_Select env now ps ctx cw = (Some b, cw2)" "b \<in> set L"
        "\<And>i. i \<in> set L \<Longrightarrow> cw2 i = cw i + swrr_weight (ps ! i) - (if i = b then W else 0)" "swrr_inv (set L) W cw2"
      using swrr_step [of now ps cw env ctx, unfolded L W, OF assms(3,4) Cons.prems(2)] by metis
    have IH: "\<forall>i \<in> set L. W * int (count_list (?p nows cw2) (Some i)) < int (length nows) * swrr_weight (ps ! i) + cw2 i + W"
        "(\<Sum>i \<in> set L. count_list (?p nows cw2) (Some i)) = length nows"
      using Cons.IH [OF _ st(4)] Cons.prems(1) by simp_all
    have cnt: "count_list (?p (now # nows) cw) (Some i) = (if b = i then 1 else 0) + count_list (?p nows cw2) (Some i)" for i
      using st(1) by simp
    have "(\<Sum>i \<in> set L. count_list (?p (now # nows) cw) (Some i)) = 1 + length nows"
      using st(2) IH(2) by (simp only: cnt sum.distrib sum.delta' List.finite_set) simp
    moreover have "W * int (count_list (?p (now # nows) cw) (Some i))
        < int (length (now # nows)) * swrr_weight (ps ! i) + cw i + W" if "i \<in> set L" for i
      using bspec [OF IH(1) that] st(3) [OF that] unfolding cnt by (cases "b = i") (auto simp: algebra_simps)
    ultimately show ?case by simp
  qed
  then show "\<forall>i \<in> set L. W * int (count_list (?p nows cw) (Some i)) < int (length nows) * swrr_weight (ps ! i) + cw i + W"
    and "(\<Sum>i \<in> set L. count_list (?p nows cw) (Some i)) = length nows" by blast+
qed

text \<open>
  (C18) Smooth weighted round robin is fair.  While the available peers and their
  effective weights do not change, with total weight \<open>W\<close>, no peer of weight \<open>w\<close>
  is ever a whole request or more ahead of its share \<open>k w / W\<close> after \<open>k\<close> calls of a new
  balancer, and every \<open>W\<close> calls pick each peer exactly \<open>w\<close> times.
\<close>

theorem swrr_fair:
  assumes "\<forall>now \<in> set nows. avail_indices now ps = L" "W = (\<Sum>i \<in> set L. swrr_weight (ps ! i))"
    and "0 < W" "W < 2 ^ 31" "i \<in> set L"
  shows "let n = count_list (picks (\<lambda>now. SmoothWeightedRoundRobin_Select env now ps ctx) nows (\<lambda>_. 0)) (Some i) in
    W * int n < int (length nows) * swrr_weight (ps ! i) + W
    \<and> (int (length nows) = W \<longrightarrow> int n = swrr_weight (ps ! i))"
proof -
  let ?n = "\<lambda>i. count_list (picks (\<lambda>now. SmoothWeightedRoundRobin_Select env now ps ctx) nows (\<lambda>_. 0)) (Some i)"
  have inv: "swrr_inv (set L) W (\<lambda>_. 0)" using assms(3) by (simp add: swrr_inv_def)
  note share = swrr_share [OF assms(1-4) inv, where env = env and ctx = ctx]
  have "int (?n i) = swrr_weight (ps ! i)" if cyc: "int (length nows) = W"
  proof (rule sum_mono_inv [of "\<lambda>i. int (?n i)" "set L" "\<lambda>i. swrr_weight (ps ! i)"])
    show "(\<Sum>i \<in> set L. int (?n i)) = (\<Sum>i \<in> set L. swrr_weight (ps ! i))"
      using share(2) cyc assms(2) by (simp flip: of_nat_sum)
    show "int (?n j) \<le> swrr_weight (ps ! j)" if "j \<in> set L" for j
    proof -
      have "W * int (?n j) < W * (swrr_weight (ps ! j) + 1)"
        using share(1) that cyc by (simp add: algebra_simps)
      then show ?thesis using assms(3) by (simp add: mult_less_cancel_left_pos)
    qed
  qed (use assms(5) in auto)
  moreover have "W * int (?n i) < int (length nows) * swrr_weight (ps ! i) + W"
    using share(1) assms(5) by simp
  ultimately show ?thesis by (simp add: Let_def)
qed

definition demo_member :: "string \<Rightarrow> int \<Rightarrow> UpstreamPeer" where
  "demo_member n w = new_UpstreamPeer \<lparr>peer_name = n, peer_host = n, peer_port = 80, cfg_weight = w, max_fails = 3, fail_timeout = 10000\<rparr>"

definition demo_fleet :: "UpstreamPeer list" where
  "demo_fleet = [demo_member ''a'' 5, demo_member ''b'' 1, demo_member ''c'' 1]"

lemma demo_member_simps [simp]:
  "AvailableAt now (demo_member n w)" "swrr_weight (demo_member n w) = max w 0" "peer_weight (demo_member n w) = w"
  by (simp_all add: demo_member_def new_UpstreamPeer_def AvailableAt_def IsUp_def int_of_u64_def swrr_weight_def peer_weight_def)

lemma demo_fleet_avail: "avail_indices now demo_fleet = [0, 1, 2]"
  by (simp add: demo_fleet_def avail_indices_def)

theorem round_robin_turn_witness:
  "\<forall>env ctx. distinct (picks (\<lambda>now. RoundRobin_Select env now demo_fleet ctx) [10, 20, 30] 7)
    \<and> set (picks (\<lambda>now. RoundRobin_Select env now demo_fleet ctx) [10, 20, 30] 7) = {Some 0, Some 1, Some 2}"
  using round_robin_turn [of "[10, 20, 30]" demo_fleet "[0, 1, 2]" 7] demo_fleet_avail by simp

theorem swrr_fair_witness:
  "\<forall>env ctx. count_list (picks (\<lambda>now. SmoothWeightedRoundRobin_Select env now demo_fleet ctx) [1, 2, 3, 4, 5, 6, 7] (\<lambda>_. 0)) (Some 0) = 5"
proof -
  have "(\<Sum>i \<in> set [0, 1, 2 :: nat]. swrr_weight (demo_fleet ! i)) = 7" by (simp add: demo_fleet_def)
  with swrr_fair [of "[1, 2, 3, 4, 5, 6, 7]" demo_fleet "[0, 1, 2]" 7 0] demo_fleet_avail show ?thesis
    by (simp add: Let_def demo_fleet_def)
qed

interpretation swrr: load_balancer SmoothWeightedRoundRobin_Select any_state any_peers
proof unfold_locales
  fix env :: lb_env and ps now ctx s s' i
  assume sel: "SmoothWeightedRoundRobin_Select env now ps ctx s = (Some i, s')"
  obtain cw r where l: "swrr_loop now (enumerate 0 ps) s None INT_MIN = (cw, r)"
    by (cases "swrr_loop now (enumerate 0 ps) s None INT_MIN")
  with sel have "r = Some i"
    by (auto simp: SmoothWeightedRoundRobin_Select_def Let_def split: if_splits option.splits)
  then have "i \<in> fst ` available now (enumerate 0 ps)" using swrr_loop_best [OF _ l] by auto
  then show "i < length ps \<and> AvailableAt now (ps ! i)" by (simp add: fst_available avail_indices_set)
qed simp

subsection \<open>While peers come and go\<close>

text \<open>
  When the available peers change between calls the running weights need not add up
  to zero over the available ones.  They drift no further than this: the sum over any
  \<open>k\<close> of the \<open>n\<close> peers stays above a bound that is concave in \<open>k\<close>, where \<open>D\<close> bounds the
  weight shared out by one call.  The pick of the highest running weight keeps the bound.
\<close>

definition drift_bound :: "int \<Rightarrow> nat \<Rightarrow> nat \<Rightarrow> int" where
  "drift_bound D n k = 2 * D * int k * (int n - int k)"

definition drift_inv :: "int \<Rightarrow> nat \<Rightarrow> (nat \<Rightarrow> int) \<Rightarrow> bool" where
  "drift_inv D n cw \<longleftrightarrow> (\<forall>T \<subseteq> {..< n}. - drift_bound D n (card T) \<le> sum cw T)"

lemma drift_step:
  fixes cw cw2 w :: "nat \<Rightarrow> int"
  assumes inv: "drift_inv D n cw" and A: "A \<subseteq> {..< n}" "b \<in> A"
    and w: "\<And>i. 0 \<le> w i" "sum w A \<le> D"
    and best: "\<forall>j \<in> A. cw j + w j \<le> cw b + w b"
    and cw2: "\<And>i. cw2 i = cw i + (if i \<in> A then w i else 0) - (if i = b then sum w A else 0)"
  shows "drift_inv D n cw2"
  unfolding drift_inv_def
proof (intro allI impI)
  fix T :: "nat set" assume T: "T \<subseteq> {..< n}"
  have fin: "finite T" "finite A" using T A(1) finite_subset by auto
  have sum: "sum cw2 T = sum cw T + sum w (T \<inter> A) - (if b \<in> T then sum w A else 0)"
    using fin by (simp add: cw2 sum.distrib sum_subtractf sum.inter_restrict sum.delta)
  have T0: "- drift_bound D n (card T) \<le> sum cw T" using inv T by (simp add: drift_inv_def)
  have nonneg: "0 \<le> sum w (T \<inter> A)" using w(1) by (simp add: sum_nonneg)
  consider (miss) "b \<notin> T" | (all) "b \<in> T" "A \<subseteq> T" | (part) a where "b \<in> T" "a \<in> A" "a \<notin> T" by blast
  then show "- drift_bound D n (card T) \<le> sum cw2 T"
  proof cases
    case miss
    with sum T0 nonneg show ?thesis by simp
  next
    case all
    then have "T \<inter> A = A" by blast
    with sum T0 all show ?thesis by simp
  next
    case part
    define k where "k = card T"
    have k: "0 < k" using part(1) fin(1) card_gt_0_iff unfolding k_def by blast
    have "insert a T \<subseteq> {..< n}" "T - {b} \<subseteq> {..< n}" using T A(1) part(2) by auto
    with inv have "- drift_bound D n (card (insert a T)) \<le> sum cw (insert a T)"
      "- drift_bound D n (card (T - {b})) \<le> sum cw (T - {b})" by (simp_all add: drift_inv_def)
    then have up: "- drift_bound D n (k + 1) \<le> sum cw T + cw a"
      and down: "- drift_bound D n (k - 1) \<le> sum cw T - cw b"
      using part fin(1) by (simp_all add: k_def sum_diff1)
    have "w b \<le> sum w A" using A(2) fin(2) w(1) by (simp add: member_le_sum)
    then have "cw a \<le> cw b + D" using bspec [OF best part(2)] w(1) [of a] w(2) by linarith
    moreover have "0 \<le> D" using w(2) sum_nonneg [of A w] w(1) by (metis order_trans)
    moreover have "drift_bound D n (k + 1) + drift_bound D n (k - 1) = 2 * drift_bound D n k - 4 * D"
      using k by (simp add: drift_bound_def of_nat_diff algebra_simps)
    ultimately have "- drift_bound D n k \<le> sum cw T - D" using up down by linarith
    then show ?thesis using sum nonneg w(2) part(1) by (simp add: k_def)
  qed
qed

lemma drift_inv_low:
  assumes "drift_inv D n cw" "i < n" "0 \<le> D" "2 * D * int n < 2 ^ 31"
  shows "INT_MIN < cw i"
proof -
  have "- drift_bound D n 1 \<le> cw i" using assms(1,2) by (auto simp: drift_inv_def dest: spec [of _ "{i}"])
  moreover have "drift_bound D n 1 \<le> 2 * D * int n" using assms(3) by (simp add: drift_bound_def algebra_simps)
  ultimately show ?thesis using assms(4) by (simp add: INT_MIN_def)
qed

lemma swrr_drift:
  assumes "drift_inv D (length ps) cw" "(\<Sum>p \<leftarrow> ps. swrr_weight p) \<le> D" "2 * D * int (length ps) < 2 ^ 31"
  shows "drift_inv D (length ps) (snd (SmoothWeightedRoundRobin_Select env now ps ctx cw))"
    and "fst (SmoothWeightedRoundRobin_Select env now ps ctx cw) = None \<Longrightarrow> swrr_total now ps \<le> 0"
proof -
  have "sum_list (map swrr_weight (filter (AvailableAt now) ps)) \<le> (\<Sum>p \<leftarrow> ps. swrr_weight p)"
    by (induction ps) (auto simp: swrr_weight_nonneg add_increasing)
  then have W: "swrr_total now ps \<le> D" using assms(2) by (simp add: swrr_total_def)
  have "0 \<le> (\<Sum>p \<leftarrow> ps. swrr_weight p)" by (rule sum_list_nonneg) (auto simp: swrr_weight_nonneg)
  then have D: "0 \<le> D" using assms(2) by simp
  have idx: "set (avail_indices now ps) \<subseteq> {..< length ps}" by (auto simp: avail_indices_set)
  have "\<forall>i \<in> set (avail_indices now ps). INT_MIN < cw i"
    using drift_inv_low [OF assms(1) _ D assms(3)] idx by blast
  note pick = swrr_pick [OF _ this, of env ctx]
  have "drift_inv D (length ps) (snd (SmoothWeightedRoundRobin_Select env now ps ctx cw))
    \<and> fst (SmoothWeightedRoundRobin_Select env now ps ctx cw) \<noteq> None" if "0 < swrr_total now ps"
  proof (rule pick [OF that])
    fix b cw2
    assume sel: "SmoothWeightedRoundRobin_Select env now ps ctx cw = (Some b, cw2)"
      and b: "b \<in> set (avail_indices now ps)"
        "\<forall>j \<in> set (avail_indices now ps). cw j + swrr_weight (ps ! j) \<le> cw b + swrr_weight (ps ! b)"
      and upd: "\<And>i. cw2 i = cw i + (if i \<in> set (avail_indices now ps) then swrr_weight (ps ! i) else 0)
        - (if i = b then swrr_total now ps else 0)"
    have "drift_inv D (length ps) cw2"
      by (rule drift_step [OF assms(1) idx b(1) swrr_weight_nonneg _ b(2)])
        (use W upd in \<open>simp_all add: swrr_total_sum\<close>)
    with sel show ?thesis by simp
  qed
  moreover have "SmoothWeightedRoundRobin_Select env now ps ctx cw = (None, cw)" if "\<not> 0 < swrr_total now ps"
    using that by (simp add: SmoothWeightedRoundRobin_Select_def Let_def)
  ultimately show "drift_inv D (length ps) (snd (SmoothWeightedRoundRobin_Select env now ps ctx cw))"
    and "fst (SmoothWeightedRoundRobin_Select env now ps ctx cw) = None \<Longrightarrow> swrr_total now ps \<le> 0"
    using assms(1) by (metis snd_conv, force)
qed

section \<open>Random choice\<close>

abbreviation draw_weight :: "UpstreamPeer \<Rightarrow> int" where
  "draw_weight p \<equiv> max (peer_weight p) 0"

definition draw_total :: "u64 \<Rightarrow> (nat \<times> UpstreamPeer) list \<Rightarrow> int" where
  "draw_total now eps = sum_list (map (draw_weight \<circ> snd) (filter (\<lambda>(i, p). AvailableAt now p) eps))"

lemma draw_total_simps [simp]:
  "draw_total now [] = 0"
  "draw_total now ((i, p) # eps) = (if AvailableAt now p then draw_weight p else 0) + draw_total now eps"
  by (simp_all add: draw_total_def)

lemma draw_total_nonneg: "0 \<le> draw_total now eps"
  unfolding draw_total_def by (intro sum_list_nonneg) auto

lemma wrandom_loop_mem:
  "wrandom_loop now eps r l = Some i \<Longrightarrow> i \<in> fst ` available now eps \<or> l = Some i"
  by (induction now eps r l rule: wrandom_loop.induct) (auto simp: Let_def split: if_splits)

lemma wrandom_loop_hit:
  "0 < r \<Longrightarrow> r \<le> draw_total now eps \<Longrightarrow>
   \<exists>i \<in> fst ` available now eps. \<forall>l. wrandom_loop now eps r l = Some i"
proof (induction eps arbitrary: r)
  case (Cons e eps)
  obtain k q where e: "e = (k, q)" by (cases e)
  show ?case
  proof (cases "AvailableAt now q \<and> r - draw_weight q \<le> 0")
    case True
    then show ?thesis by (auto simp: e Let_def)
  next
    case False
    define r' where "r' = (if AvailableAt now q then r - draw_weight q else r)"
    have "0 < r'" "r' \<le> draw_total now eps" using False Cons.prems by (auto simp: r'_def e)
    from Cons.IH [OF this] obtain i where "i \<in> fst ` available now eps" "\<forall>l. wrandom_loop now eps r' l = Some i"
      by blast
    with False show ?thesis by (intro bexI [of _ i]) (auto simp: e Let_def r'_def)
  qed
qed simp

lemma wrandom_count:
  assumes "distinct (map fst eps)" "(i, p) \<in> available now eps"
  shows "int (card {r \<in> {1 .. draw_total now eps}. wrandom_loop now eps r l = Some i}) = draw_weight p"
  using assms
proof (induction eps arbitrary: l)
  case (Cons e eps)
  obtain k q where e: "e = (k, q)" by (cases e)
  have k: "k \<notin> fst ` available now eps" using Cons.prems(1) e available_subset [of now eps] by auto
  let ?T = "draw_total now eps"
  define w where "w = draw_weight q"
  show ?case
  proof (cases "AvailableAt now q")
    case False
    with Cons e show ?thesis by simp
  next
    case av: True
    have tot: "draw_total now (e # eps) = w + ?T" using av by (simp add: e w_def)
    have step: "wrandom_loop now (e # eps) r l = (if r \<le> w then Some k else wrandom_loop now eps (r - w) (Some k))" for r
      using av by (simp add: e Let_def w_def)
    have miss: "wrandom_loop now eps (r - w) (Some k) \<noteq> Some k" if "w < r" "r \<le> w + ?T" for r
    proof -
      have "0 < r - w" "r - w \<le> ?T" using that by simp_all
      from wrandom_loop_hit [OF this] k show ?thesis by (metis option.inject)
    qed
    show ?thesis
    proof (cases "i = k")
      case True
      then have "p = q" using Cons.prems(2) k e by (force split: if_splits)
      have "{r \<in> {1 .. draw_total now (e # eps)}. wrandom_loop now (e # eps) r l = Some i} = {1 .. w}"
      proof (rule set_eqI)
        fix r show "r \<in> {r \<in> {1 .. draw_total now (e # eps)}. wrandom_loop now (e # eps) r l = Some i} \<longleftrightarrow> r \<in> {1 .. w}"
          using miss [of r] True draw_total_nonneg [of now eps] unfolding mem_Collect_eq step tot
          by (auto split: if_splits)
      qed
      then show ?thesis using \<open>p = q\<close> w_def by simp
    next
      case False
      then have mem: "(i, p) \<in> available now eps" using Cons.prems(2) e by (auto split: if_splits)
      have "{r \<in> {1 .. draw_total now (e # eps)}. wrandom_loop now (e # eps) r l = Some i}
          = (\<lambda>r. r + w) ` {r \<in> {1 .. ?T}. wrandom_loop now eps r (Some k) = Some i}"
        (is "?S = _ ` ?S'")
      proof (rule set_eqI, rule iffI)
        fix r assume "r \<in> ?S"
        then have "r - w \<in> ?S'" using False unfolding mem_Collect_eq step tot by (auto split: if_splits)
        then show "r \<in> (\<lambda>r. r + w) ` ?S'" by (rule rev_image_eqI) simp
      qed (use False in \<open>auto simp: step tot w_def\<close>)
      moreover have "inj_on (\<lambda>r. r + w) ?S'" by (simp add: inj_on_def)
      ultimately show ?thesis using Cons.IH [of "Some k"] Cons.prems(1) mem by (simp add: card_image)
    qed
  qed
qed simp

interpretation wrandom: load_balancer WeightedRandom_Select any_state any_peers
proof unfold_locales
  fix env :: lb_env and ps now ctx and s s' :: unit and i
  assume "WeightedRandom_Select env now ps ctx s = (Some i, s')"
  then have "wrandom_loop now (enumerate 0 ps) (draw env 0 1
      (sum_list (map draw_weight (filter (AvailableAt now) ps)))) None = Some i"
    by (auto simp: WeightedRandom_Select_def Let_def split: if_splits)
  from wrandom_loop_mem [OF this] have "i \<in> set (avail_indices now ps)" by (simp add: fst_available)
  then show "i < length ps \<and> AvailableAt now (ps ! i)" by (simp add: avail_indices_set)
qed simp

lemma draw_total_enumerate: "draw_total now (enumerate n ps) = sum_list (map draw_weight (filter (AvailableAt now) ps))"
  by (induction ps arbitrary: n) auto

text \<open>
  Weighted random choice has the configured distribution: of the equally
  likely draws from 1 to the total weight of the available peers, exactly as
  many select an available peer as its weight says, and a peer of weight 0 or
  less is never selected.
\<close>

theorem weighted_random_distribution:
  assumes "i < length ps" "AvailableAt now (ps ! i)"
  shows "let T = sum_list (map (\<lambda>p. max (peer_weight p) 0) (filter (AvailableAt now) ps)) in
    int (card {r \<in> {1 .. T}. fst (WeightedRandom_Select (env\<lparr>draw := \<lambda>_ _ _. r\<rparr>) now ps ctx s) = Some i})
      = max (peer_weight (ps ! i)) 0"
proof -
  let ?T = "sum_list (map draw_weight (filter (AvailableAt now) ps))"
  have "{r \<in> {1 .. ?T}. fst (WeightedRandom_Select (env\<lparr>draw := \<lambda>_ _ _. r\<rparr>) now ps ctx s) = Some i}
      = {r \<in> {1 .. draw_total now (enumerate 0 ps)}. wrandom_loop now (enumerate 0 ps) r None = Some i}"
    by (auto simp: WeightedRandom_Select_def Let_def draw_total_enumerate)
  moreover have "(i, ps ! i) \<in> available now (enumerate 0 ps)" using assms by (simp add: available_enumerate)
  ultimately show ?thesis using wrandom_count [of "enumerate 0 ps" i "ps ! i" now None] by (simp add: Let_def)
qed

theorem weighted_random_distribution_witness:
  "\<forall>env ctx s. int (card {r \<in> {1 .. 7}. fst (WeightedRandom_Select (env\<lparr>draw := \<lambda>_ _ _. r\<rparr>) 0 demo_fleet ctx s) = Some 0}) = 5"
  using weighted_random_distribution [of 0 demo_fleet 0] by (simp add: demo_fleet_def)

end
