(* ===== verification/ConsistentHash.thy ===== *)
theory ConsistentHash
  imports Fairness
begin

text \<open>
  \<open>ConsistentHashLB\<close> of \<open>include/coropact/gateway/load_balancer.h\<close>: a ring of
  virtual nodes, rebuilt when the fingerprint of the available peers changes,
  and searched for the first node at or after the hash of the request's key.
  The atomic pointer to the published ring is the field \<open>ring\<close>; the fast path
  and the re-check under the mutex read the same value in one call.
\<close>

datatype HashOn = kClientIp | kUri | kUserId | kSessionId

record HashRing =
  nodes :: "(u64 \<times> nat) list"
  ring_fingerprint :: string

record ConsistentHashLB =
  vnodes_per_unit :: nat
  ch_hash_on :: HashOn
  ring :: "HashRing option"

definition kVNODESMAX :: int where "kVNODESMAX = 200"
definition kVNODESMIN :: int where "kVNODESMIN = 100"

definition ParseHashOn :: "string \<Rightarrow> HashOn" where
  "ParseHashOn s =
     (if s = ''uri'' then kUri else if s = ''user_id'' then kUserId
      else if s = ''session_id'' then kSessionId else kClientIp)"

definition new_ConsistentHashLB :: "int \<Rightarrow> string \<Rightarrow> ConsistentHashLB" where
  "new_ConsistentHashLB vnodes hash_on =
     \<lparr>vnodes_per_unit = nat (max kVNODESMIN (min kVNODESMAX vnodes)), ch_hash_on = ParseHashOn hash_on, ring = None\<rparr>"

text \<open>The identity of a peer in the fingerprint, \<open>"name:weight;"\<close>.\<close>

definition fp_entry :: "UpstreamPeerConfig \<Rightarrow> string" where
  "fp_entry cfg = peer_name cfg @ '':'' @ to_string (cfg_weight cfg)"

definition ComputeFingerprint :: "UpstreamPeer list \<Rightarrow> u64 \<Rightarrow> string" where
  "ComputeFingerprint ps now = concat (map (\<lambda>p. fp_entry (peer_config p) @ '';'') (filter (AvailableAt now) ps))"

definition peer_vnodes :: "nat \<Rightarrow> nat \<times> UpstreamPeer \<Rightarrow> (u64 \<times> nat) list" where
  "peer_vnodes v ip =
     (let (i, p) = ip; weight = nat (max (peer_weight p) 1) in
      map (\<lambda>k. (MurmurHash64 (peer_name (peer_config p) @ ''#'' @ to_string (int k)) 0, i)) [0 ..< weight * v])"

definition vnodes :: "nat \<Rightarrow> UpstreamPeer list \<Rightarrow> u64 \<Rightarrow> (u64 \<times> nat) list" where
  "vnodes v ps now = concat (map (peer_vnodes v) (filter (\<lambda>(i, p). AvailableAt now p) (enumerate 0 ps)))"

text \<open>\<open>std::unique\<close> on the hashes: the first of a run of equal ones stays.\<close>

fun unique_nodes :: "(u64 \<times> nat) list \<Rightarrow> (u64 \<times> nat) list" where
  "unique_nodes (a # b # l) = (if fst a = fst b then unique_nodes (a # l) else a # unique_nodes (b # l))"
| "unique_nodes l = l"

definition BuildRing :: "lb_env \<Rightarrow> nat \<Rightarrow> UpstreamPeer list \<Rightarrow> u64 \<Rightarrow> HashRing" where
  "BuildRing env v ps now =
     \<lparr>nodes = unique_nodes (sort_nodes env (vnodes v ps now)), ring_fingerprint = ComputeFingerprint ps now\<rparr>"

definition HashKey :: "HashOn \<Rightarrow> RequestContext \<Rightarrow> string" where
  "HashKey hash_on ctx =
     (case hash_on of
        kUri \<Rightarrow> if ctx_uri ctx \<noteq> [] then ctx_uri ctx else client_ip ctx
      | kUserId \<Rightarrow> if user_id ctx \<noteq> [] then user_id ctx else client_ip ctx
      | kSessionId \<Rightarrow> if session_id ctx \<noteq> [] then session_id ctx else client_ip ctx
      | kClientIp \<Rightarrow> client_ip ctx)"

text \<open>\<open>std::lower_bound\<close> and the wrap to the head of the ring.\<close>

definition ring_Lookup :: "HashRing \<Rightarrow> u64 \<Rightarrow> nat option" where
  "ring_Lookup r h =
     (if nodes r = [] then None
      else case dropWhile (\<lambda>n. fst n < h) (nodes r) of
        [] \<Rightarrow> Some (snd (hd (nodes r)))
      | n # _ \<Rightarrow> Some (snd n))"

definition ConsistentHash_Select ::
  "lb_env \<Rightarrow> u64 \<Rightarrow> UpstreamPeer list \<Rightarrow> RequestContext \<Rightarrow> ConsistentHashLB \<Rightarrow> nat option \<times> ConsistentHashLB" where
  "ConsistentHash_Select env now ps ctx lb =
     (let fp = ComputeFingerprint ps now; h = MurmurHash64 (HashKey (ch_hash_on lb) ctx) 0 in
      if fp = [] then (None, lb)
      else case ring lb of
        Some r \<Rightarrow>
          if ring_fingerprint r = fp then (ring_Lookup r h, lb)
          else (let r' = BuildRing env (vnodes_per_unit lb) ps now in (ring_Lookup r' h, lb\<lparr>ring := Some r'\<rparr>))
      | None \<Rightarrow>
          (let r' = BuildRing env (vnodes_per_unit lb) ps now in (ring_Lookup r' h, lb\<lparr>ring := Some r'\<rparr>)))"

section \<open>What a ring depends on\<close>

text \<open>A ring is a function of the configurations and of the indices of the available peers.\<close>

definition fp_of :: "UpstreamPeerConfig list \<Rightarrow> nat list \<Rightarrow> string" where
  "fp_of cfgs idxs = concat (map (\<lambda>i. fp_entry (cfgs ! i) @ '';'') idxs)"

definition cfg_vnodes :: "nat \<Rightarrow> UpstreamPeerConfig list \<Rightarrow> nat \<Rightarrow> (u64 \<times> nat) list" where
  "cfg_vnodes v cfgs i =
     map (\<lambda>k. (MurmurHash64 (peer_name (cfgs ! i) @ ''#'' @ to_string (int k)) 0, i))
       [0 ..< nat (max (cfg_weight (cfgs ! i)) 1) * v]"

definition ring_of :: "lb_env \<Rightarrow> nat \<Rightarrow> UpstreamPeerConfig list \<Rightarrow> nat list \<Rightarrow> HashRing" where
  "ring_of env v cfgs idxs =
     \<lparr>nodes = unique_nodes (sort_nodes env (concat (map (cfg_vnodes v cfgs) idxs))), ring_fingerprint = fp_of cfgs idxs\<rparr>"

lemma avail_filter_map:
  "filter (\<lambda>(i, p). AvailableAt now p) (enumerate 0 ps) = map (\<lambda>i. (i, ps ! i)) (avail_indices now ps)"
  unfolding avail_indices_def map_map
  by (rule map_idI [symmetric]) (auto simp: in_set_enumerate_eq)

lemma ComputeFingerprint_of: "ComputeFingerprint ps now = fp_of (map peer_config ps) (avail_indices now ps)"
proof -
  have "fp_of (map peer_config ps) (avail_indices now ps)
      = concat (map (\<lambda>i. fp_entry (peer_config (ps ! i)) @ '';'') (avail_indices now ps))"
    unfolding fp_of_def by (intro arg_cong [of _ _ concat] map_cong refl) (auto simp: avail_indices_set)
  then show ?thesis
    unfolding ComputeFingerprint_def by (simp flip: map_nth_avail_indices add: comp_def)
qed

lemma vnodes_of: "vnodes v ps now = concat (map (cfg_vnodes v (map peer_config ps)) (avail_indices now ps))"
proof -
  have "map (peer_vnodes v) (map (\<lambda>i. (i, ps ! i)) (avail_indices now ps))
      = map (cfg_vnodes v (map peer_config ps)) (avail_indices now ps)"
    by (auto simp: avail_indices_set peer_vnodes_def cfg_vnodes_def peer_weight_def)
  then show ?thesis unfolding vnodes_def avail_filter_map by (simp only:)
qed

lemma BuildRing_of: "BuildRing env v ps now = ring_of env v (map peer_config ps) (avail_indices now ps)"
  by (simp add: BuildRing_def ring_of_def vnodes_of ComputeFingerprint_of)

section \<open>Fingerprints identify peer sets\<close>

definition names_ok :: "UpstreamPeerConfig list \<Rightarrow> bool" where
  "names_ok cfgs \<longleftrightarrow> distinct (map peer_name cfgs) \<and> (\<forall>c \<in> set cfgs. CHR '';'' \<notin> set (peer_name c))"

lemma split_at_sep:
  assumes "a @ c # x = b @ c # y" "c \<notin> set a" "c \<notin> set b"
  shows "a = b \<and> x = y"
  using assms
proof (induction a arbitrary: b)
  case Nil
  then show ?case by (cases b) auto
next
  case (Cons d a)
  then show ?case by (cases b) auto
qed

lemma concat_sep_inject:
  assumes "concat (map (\<lambda>s. s @ [c]) xs) = concat (map (\<lambda>s. s @ [c]) ys)"
    and "\<forall>s \<in> set xs \<union> set ys. c \<notin> set s"
  shows "xs = ys"
  using assms
proof (induction xs arbitrary: ys)
  case Nil
  then show ?case by (cases ys) auto
next
  case (Cons a xs)
  from Cons.prems obtain b ys' where ys: "ys = b # ys'" by (cases ys) auto
  have "a = b \<and> concat (map (\<lambda>s. s @ [c]) xs) = concat (map (\<lambda>s. s @ [c]) ys')"
    using Cons.prems by (intro split_at_sep) (auto simp: ys)
  with Cons ys show ?case by simp
qed

lemma fp_entry_inject:
  assumes "fp_entry c = fp_entry d" shows "peer_name c = peer_name d"
proof -
  have colon: "CHR '':'' \<notin> set (to_string w)" for w
    by (auto simp: to_string_def dest: to_string_nat_digits)
  have "rev (to_string (cfg_weight c)) @ CHR '':'' # rev (peer_name c)
      = rev (to_string (cfg_weight d)) @ CHR '':'' # rev (peer_name d)"
    using arg_cong [OF assms, of rev] by (simp add: fp_entry_def)
  then have "rev (peer_name c) = rev (peer_name d)"
    using split_at_sep colon by (metis set_rev)
  then show ?thesis by simp
qed

lemma fp_of_inject:
  assumes "names_ok cfgs" "fp_of cfgs is = fp_of cfgs js" "\<forall>i \<in> set is \<union> set js. i < length cfgs"
  shows "is = js"
proof -
  let ?e = "\<lambda>i. fp_entry (cfgs ! i)"
  have sep: "CHR '';'' \<notin> set (?e i)" if "i < length cfgs" for i
    using assms(1) that to_string_no_semicolon by (simp add: fp_entry_def names_ok_def)
  have "map ?e is = map ?e js"
  proof (rule concat_sep_inject)
    show "concat (map (\<lambda>s. s @ '';'') (map ?e is)) = concat (map (\<lambda>s. s @ '';'') (map ?e js))"
      using assms(2) unfolding fp_of_def map_map comp_def .
    show "\<forall>s \<in> set (map ?e is) \<union> set (map ?e js). CHR '';'' \<notin> set s"
      using assms(3) sep unfolding set_map by blast
  qed
  moreover have "inj_on ?e (set is \<union> set js)"
  proof (rule inj_onI)
    fix i j assume ij: "i \<in> set is \<union> set js" "j \<in> set is \<union> set js" "?e i = ?e j"
    then have "i < length cfgs" "j < length cfgs" using assms(3) by blast+
    moreover from this have "map peer_name cfgs ! i = map peer_name cfgs ! j" using fp_entry_inject [OF ij(3)] by simp
    moreover have "distinct (map peer_name cfgs)" using assms(1) by (simp add: names_ok_def)
    ultimately show "i = j" using nth_eq_iff_index_eq [of "map peer_name cfgs" i j] by simp
  qed
  ultimately show ?thesis by (simp add: inj_on_map_eq_map)
qed

lemma fp_of_empty: "fp_of cfgs is = [] \<longleftrightarrow> is = []"
  by (cases "is") (auto simp: fp_of_def)

section \<open>The cache is transparent\<close>

definition ch_inv :: "lb_env \<Rightarrow> UpstreamPeerConfig list \<Rightarrow> ConsistentHashLB \<Rightarrow> bool" where
  "ch_inv env cfgs lb \<longleftrightarrow> 0 < vnodes_per_unit lb \<and>
     (\<forall>r. ring lb = Some r \<longrightarrow>
        (\<exists>idxs. r = ring_of env (vnodes_per_unit lb) cfgs idxs \<and> (\<forall>i \<in> set idxs. i < length cfgs)))"

lemma new_ch_inv: "ch_inv env cfgs (new_ConsistentHashLB v h)"
  by (simp add: ch_inv_def new_ConsistentHashLB_def kVNODESMIN_def kVNODESMAX_def)

lemma ring_of_fp [simp]: "ring_fingerprint (ring_of env v cfgs idxs) = fp_of cfgs idxs"
  by (simp add: ring_of_def)

lemma cached_ring:
  assumes "names_ok (map peer_config ps)" "ch_inv env (map peer_config ps) lb"
    and "ring lb = Some r" "ring_fingerprint r = ComputeFingerprint ps now"
  shows "r = BuildRing env (vnodes_per_unit lb) ps now"
proof -
  obtain idxs where r: "r = ring_of env (vnodes_per_unit lb) (map peer_config ps) idxs"
      "\<forall>i \<in> set idxs. i < length (map peer_config ps)"
    using assms(2,3) by (auto simp: ch_inv_def)
  then have "idxs = avail_indices now ps"
    using assms(1,4) by (intro fp_of_inject [of "map peer_config ps"]) (auto simp: ComputeFingerprint_of avail_indices_set)
  with r show ?thesis by (simp add: BuildRing_of)
qed

lemma ConsistentHash_Select_fresh:
  assumes "names_ok (map peer_config ps)" "ch_inv env (map peer_config ps) lb"
  shows "fst (ConsistentHash_Select env now ps ctx lb) =
    (if count_avail now ps = 0 then None
     else ring_Lookup (BuildRing env (vnodes_per_unit lb) ps now) (MurmurHash64 (HashKey (ch_hash_on lb) ctx) 0))"
proof -
  have "ComputeFingerprint ps now = [] \<longleftrightarrow> count_avail now ps = 0"
    by (simp add: ComputeFingerprint_of fp_of_empty flip: length_avail_indices)
  then show ?thesis
    using cached_ring [OF assms, of _ now] by (auto simp: ConsistentHash_Select_def Let_def split: option.split)
qed

section \<open>Looking up\<close>

lemma unique_nodes_subset: "set (unique_nodes l) \<subseteq> set l"
  by (induction l rule: unique_nodes.induct) auto

lemma unique_nodes_empty [simp]: "unique_nodes l = [] \<longleftrightarrow> l = []"
  by (induction l rule: unique_nodes.induct) auto

lemma ring_Lookup_mem:
  assumes "ring_Lookup r h = Some i" shows "i \<in> snd ` set (nodes r)"
proof (cases "dropWhile (\<lambda>n. fst n < h) (nodes r)")
  case Nil
  with assms show ?thesis by (cases "nodes r") (auto simp: ring_Lookup_def)
next
  case (Cons n l)
  then have "n \<in> set (nodes r)" by (metis list.set_intros(1) set_dropWhileD)
  with assms Cons show ?thesis by (auto simp: ring_Lookup_def split: if_splits)
qed

lemma ring_Lookup_None: "ring_Lookup r h = None \<longleftrightarrow> nodes r = []"
  by (auto simp: ring_Lookup_def split: list.split)

lemma sort_nodes_set: "env_ok env \<Longrightarrow> set (sort_nodes env l) = set l"
  unfolding env_ok_def by (metis mset_eq_setD)

lemma ring_of_peers:
  assumes "env_ok env" "(h, i) \<in> set (nodes (ring_of env v cfgs idxs))"
  shows "i \<in> set idxs"
  using assms unique_nodes_subset [of "sort_nodes env (concat (map (cfg_vnodes v cfgs) idxs))"]
  by (auto simp: ring_of_def sort_nodes_set cfg_vnodes_def)

lemma ring_of_empty:
  assumes "env_ok env" "0 < v" shows "nodes (ring_of env v cfgs idxs) = [] \<longleftrightarrow> idxs = []"
proof -
  have "cfg_vnodes v cfgs i \<noteq> []" for i using assms(2) by (simp add: cfg_vnodes_def)
  moreover have "sort_nodes env l = [] \<longleftrightarrow> l = []" for l using sort_nodes_set [OF assms(1), of l] by (metis set_empty)
  ultimately show ?thesis by (cases idxs) (auto simp: ring_of_def)
qed

interpretation consistent: total_load_balancer ConsistentHash_Select ch_inv "\<lambda>ps. names_ok (map peer_config ps)"
proof unfold_locales
  fix env :: lb_env and ps :: "UpstreamPeer list" and now ctx i and lb lb' :: ConsistentHashLB
  assume env: "env_ok env" and names: "names_ok (map peer_config ps)" and inv: "ch_inv env (map peer_config ps) lb"
  note fresh = ConsistentHash_Select_fresh [OF names inv, of now ctx]
  show "i < length ps \<and> AvailableAt now (ps ! i)" if "ConsistentHash_Select env now ps ctx lb = (Some i, lb')"
  proof -
    have "ring_Lookup (BuildRing env (vnodes_per_unit lb) ps now) (MurmurHash64 (HashKey (ch_hash_on lb) ctx) 0) = Some i"
      using fresh that by (simp split: if_splits)
    then obtain h where "(h, i) \<in> set (nodes (ring_of env (vnodes_per_unit lb) (map peer_config ps) (avail_indices now ps)))"
      using ring_Lookup_mem by (force simp: BuildRing_of)
    then show ?thesis using ring_of_peers [OF env] avail_indices_set by blast
  qed
  show "fst (ConsistentHash_Select env now ps ctx lb) \<noteq> None" if "\<exists>p \<in> set ps. AvailableAt now p"
  proof -
    have "0 < count_avail now ps" using that count_avail_pos by blast
    moreover from this have "avail_indices now ps \<noteq> []" by (simp flip: length_avail_indices)
    ultimately show ?thesis
      using fresh inv by (simp add: BuildRing_of ring_Lookup_None ring_of_empty [OF env] ch_inv_def)
  qed
  show "ch_inv env (map peer_config ps) (snd (ConsistentHash_Select env now ps ctx lb))"
  proof -
    have "\<forall>i \<in> set (avail_indices now ps). i < length ps" by (simp add: avail_indices_set)
    then show ?thesis using inv
      by (auto simp: ConsistentHash_Select_def Let_def ch_inv_def BuildRing_of split: option.split)
  qed
qed

section \<open>Minimal disruption\<close>

lemma ring_Lookup_filter:
  assumes "ring_Lookup r h = Some i" "P i" "nodes r' = filter (P \<circ> snd) (nodes r)"
  shows "ring_Lookup r' h = Some i"
proof (cases "dropWhile (\<lambda>n. fst n < h) (nodes r)")
  case (Cons n rest)
  define front where "front = takeWhile (\<lambda>n. fst n < h) (nodes r)"
  have split: "nodes r = front @ n # rest" using takeWhile_dropWhile_id Cons front_def by metis
  have small: "\<forall>x \<in> set (filter (P \<circ> snd) front). fst x < h" by (auto simp: front_def dest: set_takeWhileD)
  have n: "\<not> fst n < h" "P (snd n)" "i = snd n"
    using assms(1,2) Cons hd_dropWhile [of "\<lambda>n. fst n < h" "nodes r"]
    by (auto simp: ring_Lookup_def split: if_splits)
  then have "nodes r' = filter (P \<circ> snd) front @ n # filter (P \<circ> snd) rest"
    using assms(3) split by simp
  moreover from this have "dropWhile (\<lambda>n. fst n < h) (nodes r') = n # filter (P \<circ> snd) rest"
    using n(1) dropWhile_append2 [of "filter (P \<circ> snd) front" "\<lambda>n. fst n < h", OF bspec [OF small]] by simp
  ultimately show ?thesis using n(3) by (simp add: ring_Lookup_def)
next
  case Nil
  then have small: "\<forall>x \<in> set (nodes r). fst x < h" by (simp add: dropWhile_eq_Nil_conv)
  have "nodes r \<noteq> []" "i = snd (hd (nodes r))" using assms(1) Nil
    by (auto simp: ring_Lookup_def simp del: dropWhile_eq_Nil_conv split: if_splits)
  then obtain n rest where "nodes r = n # rest" "i = snd n" by (metis list.exhaust_sel)
  moreover have "dropWhile (\<lambda>n. fst n < h) (nodes r') = []" using small assms(3) by (simp add: dropWhile_eq_Nil_conv)
  moreover from calculation have "nodes r' \<noteq> []" "hd (nodes r') = n" using assms(2,3) by simp_all
  ultimately show ?thesis unfolding ring_Lookup_def by (simp del: dropWhile_eq_Nil_conv)
qed

lemma unique_nodes_id: "distinct (map fst l) \<Longrightarrow> unique_nodes l = l"
  by (induction l rule: unique_nodes.induct) auto

lemma sort_nodes_facts:
  assumes "env_ok env" "distinct (map fst l)"
  shows "distinct (map fst (sort_nodes env l))" "sorted (map fst (sort_nodes env l))"
proof -
  have "mset (sort_nodes env l) = mset l" using assms(1) by (simp add: env_ok_def)
  then have "mset (map fst (sort_nodes env l)) = mset (map fst l)" by simp
  then show "distinct (map fst (sort_nodes env l))" using assms(2) mset_eq_imp_distinct_iff by blast
  show "sorted (map fst (sort_nodes env l))" using assms(1) by (simp add: env_ok_def)
qed

text \<open>Without collisions the ring of fewer peers is the ring of more peers with nodes left out.\<close>

lemma ring_of_subset:
  assumes "env_ok env" "distinct (map fst (concat (map (cfg_vnodes v cfgs) is)))" "set js \<subseteq> set is" "distinct js"
  shows "nodes (ring_of env v cfgs js) = filter ((\<lambda>i. i \<in> set js) \<circ> snd) (nodes (ring_of env v cfgs is))"
proof -
  let ?V = "\<lambda>l. concat (map (cfg_vnodes v cfgs) l)"
  have snd: "i = k" if "(h, i) \<in> set (cfg_vnodes v cfgs k)" for h i k using that by (auto simp: cfg_vnodes_def)
  have sub: "set (?V js) = {x \<in> set (?V is). snd x \<in> set js}" using assms(3) snd by fastforce
  have dist: "distinct (map fst (cfg_vnodes v cfgs i))" if "i \<in> set is" for i
    using assms(2) that by (auto simp: map_concat comp_def distinct_concat_iff)
  have inj: "inj_on fst (set (?V is))" using assms(2) by (simp add: distinct_map)
  have "distinct (?V js)"
  proof -
    have "distinct (cfg_vnodes v cfgs i)" if "i \<in> set js" for i
      using dist [of i] assms(3) that by (auto simp: distinct_map)
    with assms(4) show ?thesis by (induction js) (auto dest: snd)
  qed
  then have js: "distinct (map fst (?V js))"
    using inj sub by (auto simp: distinct_map intro: inj_on_subset)
  note J = sort_nodes_facts [OF assms(1) js] and I = sort_nodes_facts [OF assms(1,2)]
  have "sort_nodes env (?V js) = filter ((\<lambda>i. i \<in> set js) \<circ> snd) (sort_nodes env (?V is))"
  proof (rule map_sorted_distinct_set_unique [of fst])
    show "inj_on fst (set (sort_nodes env (?V js)) \<union> set (filter ((\<lambda>i. i \<in> set js) \<circ> snd) (sort_nodes env (?V is))))"
      using inj sub by (auto simp: sort_nodes_set [OF assms(1)] intro: inj_on_subset)
  qed (use J I sub in \<open>auto simp: sort_nodes_set [OF assms(1)] distinct_map_fst_filter sorted_filter\<close>)
  then show ?thesis using J I by (simp add: ring_of_def unique_nodes_id)
qed

text \<open>
  (C19) Consistent hashing moves only what it must.  Let no two virtual nodes
  collide.  When peers of an upstream become unavailable, a key that was mapped
  to a peer that stays available is still mapped to it; read backwards, peers
  that come back only take keys over and never reshuffle keys among the others.
\<close>

theorem ring_minimal_disruption:
  assumes "env_ok env" and "map peer_config ps' = map peer_config ps"
    and "set (avail_indices now' ps') \<subseteq> set (avail_indices now ps)"
    and "distinct (map fst (vnodes v ps now))"
    and "ring_Lookup (BuildRing env v ps now) h = Some i" and "i \<in> set (avail_indices now' ps')"
  shows "ring_Lookup (BuildRing env v ps' now') h = Some i"
  using assms(3,4,6)
  unfolding BuildRing_of vnodes_of assms(2)
  by (intro ring_Lookup_filter [OF assms(5) [unfolded BuildRing_of], where P = "\<lambda>i. i \<in> set (avail_indices now' ps')"]
      ring_of_subset [OF assms(1)] avail_indices_distinct)

definition demo_env :: lb_env where
  "demo_env = \<lparr>draw = \<lambda>n lo hi. lo, sort_nodes = sort_key fst\<rparr>"

lemma demo_env_ok: "env_ok demo_env"
  by (simp add: env_ok_def demo_env_def)

lemma avail_indices_down:
  "avail_indices now [demo_member ''a'' 1, (demo_member ''b'' 1)\<lparr>down := True\<rparr>] = [0]"
  by (simp add: avail_indices_def) (simp add: AvailableAt_def IsUp_def)

theorem ring_minimal_disruption_witness:
  "let ps = [demo_member ''a'' 1, demo_member ''b'' 1]; ps' = [demo_member ''a'' 1, (demo_member ''b'' 1)\<lparr>down := True\<rparr>] in
   ring_Lookup (BuildRing demo_env 1 ps 5) (MurmurHash64 ''a#0'' 0) = Some 0
   \<and> ring_Lookup (BuildRing demo_env 1 ps' 9) (MurmurHash64 ''a#0'' 0) = Some 0"
proof -
  let ?ps = "[demo_member ''a'' 1, demo_member ''b'' 1]"
  let ?ps' = "[demo_member ''a'' 1, (demo_member ''b'' 1)\<lparr>down := True\<rparr>]"
  have h: "MurmurHash64 ''a#0'' 0 = 0xb3e034e0021b76bb" "MurmurHash64 ''b#0'' 0 = 0xac0dfb83a9f4f0ba" by code_simp+
  have cfg: "peer_name (peer_config (demo_member n w)) = n" for n w by (simp add: demo_member_def new_UpstreamPeer_def)
  have "to_string 0 = ''0''" by code_simp
  then have v: "vnodes 1 ?ps 5 = [(MurmurHash64 ''a#0'' 0, 0), (MurmurHash64 ''b#0'' 0, 1)]"
    by (simp add: vnodes_def peer_vnodes_def cfg)
  have d: "distinct (map fst (vnodes 1 ?ps 5))" unfolding v h by simp
  have l: "ring_Lookup (BuildRing demo_env 1 ?ps 5) (MurmurHash64 ''a#0'' 0) = Some 0"
    unfolding BuildRing_def v h by (simp add: demo_env_def ring_Lookup_def)
  have "avail_indices 5 ?ps = [0, 1]" by (simp add: avail_indices_def)
  moreover have "map peer_config ?ps' = map peer_config ?ps" by simp
  ultimately have "ring_Lookup (BuildRing demo_env 1 ?ps' 9) (MurmurHash64 ''a#0'' 0) = Some 0"
    by (intro ring_minimal_disruption [OF demo_env_ok _ _ d l]) (auto simp: avail_indices_down)
  with l show ?thesis by (simp add: Let_def)
qed

section \<open>Histories\<close>

definition ch_call :: "lb_env \<Rightarrow> ConsistentHashLB \<Rightarrow> u64 \<times> UpstreamPeer list \<times> RequestContext \<Rightarrow> ConsistentHashLB" where
  "ch_call env lb c = (case c of (now, ps, ctx) \<Rightarrow> snd (ConsistentHash_Select env now ps ctx lb))"

lemma ch_call_frame [simp]:
  "vnodes_per_unit (ch_call env lb c) = vnodes_per_unit lb" "ch_hash_on (ch_call env lb c) = ch_hash_on lb"
  by (auto simp: ch_call_def ConsistentHash_Select_def Let_def split: prod.split option.split)

lemma ch_run_inv:
  assumes "env_ok env" "names_ok cfgs" "\<forall>(now, ps, ctx) \<in> set hist. map peer_config ps = cfgs" "ch_inv env cfgs lb"
  shows "ch_inv env cfgs (run (ch_call env) lb hist)"
  using assms(3,4)
proof (induction hist arbitrary: lb)
  case (Cons c hist)
  obtain now ps ctx where c: "c = (now, ps, ctx)" by (cases c)
  have "ch_inv env cfgs (ch_call env lb c)"
    using Cons.prems consistent.select_inv [of env ps lb now ctx] assms(1,2) by (simp add: c ch_call_def)
  with Cons show ?case by simp
qed simp

text \<open>
  (C20) The published ring is never stale.  Whatever calls a balancer has served
  while peers went up and down, if the names of the peers differ and contain no
  semicolon, the next call answers as if it built the ring anew from the peers
  that are available now.
\<close>

theorem ring_cache_transparent:
  assumes "env_ok env" "names_ok cfgs" "\<forall>(now, ps, ctx) \<in> set hist. map peer_config ps = cfgs"
    and "map peer_config ps = cfgs" "lb = new_ConsistentHashLB v h"
  shows "fst (ConsistentHash_Select env now ps ctx (run (ch_call env) lb hist)) =
    (if count_avail now ps = 0 then None
     else ring_Lookup (BuildRing env (vnodes_per_unit lb) ps now) (MurmurHash64 (HashKey (ch_hash_on lb) ctx) 0))"
proof -
  have "ch_inv env cfgs (run (ch_call env) lb hist)"
    using ch_run_inv [OF assms(1-3)] new_ch_inv assms(5) by blast
  moreover have "vnodes_per_unit (run (ch_call env) lb hist) = vnodes_per_unit lb"
      "ch_hash_on (run (ch_call env) lb hist) = ch_hash_on lb"
    by (rule run_preserves, simp)+
  ultimately show ?thesis using ConsistentHash_Select_fresh [of ps env] assms(2,4) by simp
qed

theorem ring_cache_transparent_witness:
  "\<forall>ctx ctx'. fst (ConsistentHash_Select demo_env 9 demo_fleet ctx (run (ch_call demo_env) (new_ConsistentHashLB 150 ''uri'')
      [(5, map (\<lambda>p. p\<lparr>down := True\<rparr>) demo_fleet, ctx')]))
    = ring_Lookup (BuildRing demo_env 150 demo_fleet 9) (MurmurHash64 (HashKey kUri ctx) 0)"
proof (intro allI)
  fix ctx ctx'
  have names: "names_ok (map peer_config demo_fleet)"
    by (simp add: names_ok_def demo_fleet_def demo_member_def new_UpstreamPeer_def)
  have avail: "count_avail 9 demo_fleet = 3" by (simp flip: length_avail_indices add: demo_fleet_avail)
  have lb: "vnodes_per_unit (new_ConsistentHashLB 150 ''uri'') = 150" "ch_hash_on (new_ConsistentHashLB 150 ''uri'') = kUri"
    by (simp_all add: new_ConsistentHashLB_def kVNODESMIN_def kVNODESMAX_def ParseHashOn_def)
  show "fst (ConsistentHash_Select demo_env 9 demo_fleet ctx (run (ch_call demo_env) (new_ConsistentHashLB 150 ''uri'')
      [(5, map (\<lambda>p. p\<lparr>down := True\<rparr>) demo_fleet, ctx')]))
    = ring_Lookup (BuildRing demo_env 150 demo_fleet 9) (MurmurHash64 (HashKey kUri ctx) 0)"
    by (subst ring_cache_transparent [OF demo_env_ok names _ refl refl]) (simp_all add: avail lb comp_def)
qed

end
