(* ===== verification/Primes.thy ===== *)
theory Primes
  imports Prelude
begin

text \<open>
  \<open>MaglevHashLB::IsPrime\<close> and \<open>NextPrime\<close>
  (\<open>include/coropact/gateway/load_balancer.h\<close>): trial division by 2, 3 and the
  numbers next to multiples of 6, and the search upwards through odd numbers.
\<close>

text \<open>The loop \<open>for (d = 5; d <= num / d; d += 6)\<close>, \<^const>\<open>True\<close> when no divisor turns up.\<close>

function no_divisor_from :: "nat \<Rightarrow> nat \<Rightarrow> bool" where
  "no_divisor_from num d =
     (if d = 0 \<or> num div d < d then True
      else if num mod d = 0 \<or> num mod (d + 2) = 0 then False
      else no_divisor_from num (d + 6))"
  by auto
termination
proof (relation "measure (\<lambda>(num, d). num - d)")
  fix num d :: nat
  assume "\<not> (d = 0 \<or> num div d < d)" "\<not> (num mod d = 0 \<or> num mod (d + 2) = 0)"
  then have "d \<le> num div d" "num mod d \<noteq> 0" "0 < d" by auto
  moreover have "d * (num div d) + num mod d = num" by simp
  ultimately have "d < num"
    by (metis div_le_dividend le_neq_implies_less le_trans mod_self)
  then show "((num, d + 6), (num, d)) \<in> measure (\<lambda>(num, d). num - d)" by simp
qed simp

declare no_divisor_from.simps [simp del]

definition IsPrime :: "nat \<Rightarrow> bool" where
  "IsPrime num =
     (if num < 2 then False
      else if num = 2 \<or> num = 3 then True
      else if num mod 2 = 0 \<or> num mod 3 = 0 then False
      else no_divisor_from num 5)"

definition prime_nat :: "nat \<Rightarrow> bool" where
  "prime_nat p \<longleftrightarrow> 2 \<le> p \<and> (\<forall>d. d dvd p \<longrightarrow> d = 1 \<or> d = p)"

lemma least_divisor:
  fixes n :: nat
  assumes "2 \<le> n"
  obtains d where "2 \<le> d" "d dvd n" "\<forall>e. 2 \<le> e \<and> e dvd n \<longrightarrow> d \<le> e"
proof -
  let ?P = "\<lambda>d. 2 \<le> d \<and> d dvd n"
  have "?P n" using assms by simp
  then have "?P (LEAST d. ?P d)" "\<forall>e. ?P e \<longrightarrow> (LEAST d. ?P d) \<le> e" by (rule LeastI, auto intro: Least_le)
  then show ?thesis using that by blast
qed

text \<open>A composite number has a divisor that is at most its co-divisor.\<close>

lemma composite_divisor:
  assumes "2 \<le> n" "\<not> prime_nat n"
  obtains d where "2 \<le> d" "d dvd n" "d \<le> n div d" "\<forall>e. 2 \<le> e \<and> e dvd n \<longrightarrow> d \<le> e"
proof -
  obtain d where d: "2 \<le> d" "d dvd n" "\<forall>e. 2 \<le> e \<and> e dvd n \<longrightarrow> d \<le> e" by (rule least_divisor [OF assms(1)])
  obtain a where a: "a dvd n" "a \<noteq> 1" "a \<noteq> n" using assms by (auto simp: prime_nat_def)
  have "a \<noteq> 0" using a(1) assms(1) by (cases "a = 0") auto
  then have "2 \<le> a" using a(2) by linarith
  then have "d \<le> a" using d(3) a(1) by simp
  moreover have "a \<le> n" using a(1) assms(1) by (auto intro: dvd_imp_le)
  ultimately have "d \<noteq> n" using a(3) by simp
  from d(2) obtain k where k: "n = d * k" by (auto elim: dvdE)
  have "2 \<le> k"
  proof (rule ccontr)
    assume "\<not> 2 \<le> k"
    then have "k = 0 \<or> k = 1" by linarith
    then show False using k assms(1) \<open>d \<noteq> n\<close> by auto
  qed
  moreover have "k dvd n" using k by simp
  ultimately have "d \<le> k" using d(3) by blast
  moreover have "n div d = k" using k d(1) by simp
  ultimately show ?thesis using that d by simp
qed

lemma no_divisor_from_sound:
  "no_divisor_from n d \<Longrightarrow> d mod 6 = 5 \<Longrightarrow> e mod 6 = 5 \<or> e mod 6 = 1 \<Longrightarrow> d \<le> e \<Longrightarrow> e \<le> n div e \<Longrightarrow> 0 < n mod e"
proof (induction n d rule: no_divisor_from.induct)
  case (1 n d)
  have "d * d \<le> e * e" using 1(5) by (rule mult_le_mono) (rule 1(5))
  also have "e * e \<le> n" using 1(6) by (metis less_eq_div_iff_mult_less_eq mult_is_0 neq0_conv zero_le)
  finally have "d \<le> n div d" using 1(3) by (cases "d = 0") (auto simp: less_eq_div_iff_mult_less_eq)
  then have go: "\<not> (d = 0 \<or> n div d < d)" using 1(3) by (cases "d = 0") auto
  with 1(2) have nd: "n mod d \<noteq> 0" "n mod (d + 2) \<noteq> 0" "no_divisor_from n (d + 6)"
    by (subst (asm) no_divisor_from.simps, auto split: if_splits)+
  obtain a b where "6 * b + 5 = d" "6 * a + 5 = e \<or> 6 * a + 1 = e"
    using mult_div_mod_eq [of 6 d] mult_div_mod_eq [of 6 e] 1(3,4) by metis
  then have "e = d \<or> e = d + 2 \<or> d + 6 \<le> e" using 1(5) by presburger
  then consider "e = d" | "e = d + 2" | "d + 6 \<le> e" by blast
  then show ?case
  proof cases
    case 3
    have "(d + 6) mod 6 = 5" using 1(3) by simp
    with 1(1) [OF go _ nd(3)] nd 1(4,6) 3 show ?thesis by blast
  qed (use nd in auto)
qed

lemma no_divisor_from_complete:
  "\<not> no_divisor_from n d \<Longrightarrow> 5 \<le> d \<Longrightarrow> \<exists>e. 2 \<le> e \<and> e < n \<and> e dvd n"
proof (induction n d rule: no_divisor_from.induct)
  case (1 n d)
  then have go: "\<not> (d = 0 \<or> n div d < d)" by (subst (asm) (2) no_divisor_from.simps) (auto split: if_splits)
  then have "d \<le> n div d" "0 < d" by auto
  then have "d * d \<le> n" by (simp add: less_eq_div_iff_mult_less_eq)
  moreover have "5 * d \<le> d * d" using 1(3) by (rule mult_le_mono1)
  ultimately have small: "d < n" "d + 2 < n" using 1(3) by linarith+
  consider "d dvd n" | "d + 2 dvd n" | "\<not> d dvd n" "\<not> d + 2 dvd n" by blast
  then show ?case
  proof cases
    case 3
    then have nd: "\<not> (n mod d = 0 \<or> n mod (d + 2) = 0)" by (simp add: dvd_eq_mod_eq_0)
    then have "\<not> no_divisor_from n (d + 6)" using 1(2) go no_divisor_from.simps [of n d] by simp
    with 1(1) [OF go nd] 1(3) show ?thesis by simp
  qed (use small 1(3) in \<open>auto intro: exI [of _ d] exI [of _ "d + 2"]\<close>)
qed

lemma IsPrime_iff: "IsPrime n \<longleftrightarrow> prime_nat n"
proof (cases "2 \<le> n")
  case True
  show ?thesis
  proof
    assume n: "IsPrime n"
    show "prime_nat n"
    proof (rule ccontr)
      assume "\<not> prime_nat n"
      then obtain d where d: "2 \<le> d" "d dvd n" "d \<le> n div d" "\<forall>e. 2 \<le> e \<and> e dvd n \<longrightarrow> d \<le> e"
        by (rule composite_divisor [OF True])
      have "4 \<le> n"
      proof -
        have "d * d \<le> n" using d(1,3) by (simp add: less_eq_div_iff_mult_less_eq)
        then show ?thesis using mult_le_mono [OF d(1) d(1)] by linarith
      qed
      then have odd: "\<not> 2 dvd n" "\<not> 3 dvd n" "no_divisor_from n 5"
        using n by (auto simp: IsPrime_def dvd_eq_mod_eq_0 split: if_splits)
      then have "\<not> 2 dvd d" "\<not> 3 dvd d" using d(2) dvd_trans by blast+
      then have "(d mod 6 = 5 \<or> d mod 6 = 1) \<and> 5 \<le> d" using d(1) by presburger
      with no_divisor_from_sound [OF odd(3), of d] d(3) have "0 < n mod d" by simp
      with d(2) show False by (simp add: dvd_eq_mod_eq_0)
    qed
  next
    assume p: "prime_nat n"
    then have nodiv: "\<not> (2 \<le> e \<and> e < n \<and> e dvd n)" for e by (auto simp: prime_nat_def)
    show "IsPrime n"
    proof (cases "n = 2 \<or> n = 3")
      case False
      then have "\<not> 2 dvd n" "\<not> 3 dvd n" using True nodiv [of 2] nodiv [of 3] by auto
      moreover have "no_divisor_from n 5" using no_divisor_from_complete [of n 5] nodiv by auto
      ultimately show ?thesis using True by (simp add: IsPrime_def dvd_eq_mod_eq_0)
    qed (use True in \<open>auto simp: IsPrime_def\<close>)
  qed
qed (auto simp: IsPrime_def prime_nat_def)

lemma prime_above: "\<exists>p. n \<le> p \<and> prime_nat p"
proof -
  have "2 \<le> fact n + (1 :: nat)" using fact_ge_1 [of n, where ?'a = nat] by simp
  then obtain d :: nat where d: "2 \<le> d" "d dvd fact n + 1" "\<forall>e. 2 \<le> e \<and> e dvd fact n + 1 \<longrightarrow> d \<le> e"
    by (rule least_divisor)
  have "prime_nat d"
    unfolding prime_nat_def
  proof (intro conjI allI impI)
    fix e assume "e dvd d"
    have "0 < d" using d(1) by simp
    with \<open>e dvd d\<close> have e: "0 < e" "e \<le> d" by (auto intro: dvd_imp_le dvd_pos_nat)
    show "e = 1 \<or> e = d"
    proof (cases "2 \<le> e")
      case True
      have "e dvd fact n + 1" by (rule dvd_trans [OF \<open>e dvd d\<close> d(2)])
      with d(3) True have "d \<le> e" by blast
      with e(2) show ?thesis by simp
    next
      case False
      with e(1) show ?thesis by simp
    qed
  qed (rule d(1))
  moreover have "n \<le> d"
  proof (rule ccontr)
    assume "\<not> n \<le> d"
    then have "d dvd fact n" using d(1) by (intro dvd_fact) auto
    then have "d dvd 1" using d(2) by (metis dvd_add_right_iff)
    then show False using d(1) by simp
  qed
  ultimately show ?thesis by blast
qed

lemma odd_prime_above: "\<exists>p. n \<le> p \<and> odd p \<and> prime_nat p"
proof -
  obtain p where p: "max n 3 \<le> p" "prime_nat p" using prime_above by blast
  then have "odd p" by (auto simp: prime_nat_def)
  with p show ?thesis by auto
qed

text \<open>\<open>while (!IsPrime(num)) num += 2\<close>, from an odd number.\<close>

function next_prime_from :: "nat \<Rightarrow> nat" where
  "next_prime_from num = (if even num \<or> IsPrime num then num else next_prime_from (num + 2))"
  by auto
termination
proof (relation "measure (\<lambda>num. (LEAST p. num \<le> p \<and> odd p \<and> prime_nat p) - num)")
  fix num :: nat
  assume a: "\<not> (even num \<or> IsPrime num)"
  let ?P = "\<lambda>m p. m \<le> p \<and> odd p \<and> prime_nat p"
  define p where "p = (LEAST p. ?P num p)"
  have p: "?P num p" using LeastI_ex [OF odd_prime_above [of num]] by (simp add: p_def)
  then have "p \<noteq> num" using a by (auto simp: IsPrime_iff)
  moreover have "p \<noteq> num + 1" using p a by auto
  ultimately have le: "num + 2 \<le> p" using p by linarith
  then have "(LEAST p. ?P (num + 2) p) \<le> p" using p by (intro Least_le) simp
  with le show "(num + 2, num) \<in> measure (\<lambda>num. (LEAST p. num \<le> p \<and> odd p \<and> prime_nat p) - num)"
    unfolding in_measure p_def [symmetric] by linarith
qed simp

declare next_prime_from.simps [simp del]

definition NextPrime :: "nat \<Rightarrow> nat" where
  "NextPrime num = (if num \<le> 2 then 2 else next_prime_from (if num mod 2 = 0 then num + 1 else num))"

lemma next_prime_from_spec:
  "odd n \<Longrightarrow> 3 \<le> n \<Longrightarrow> prime_nat (next_prime_from n) \<and> n \<le> next_prime_from n
     \<and> (\<forall>q. prime_nat q \<and> n \<le> q \<longrightarrow> next_prime_from n \<le> q)"
proof (induction n rule: next_prime_from.induct)
  case (1 n)
  show ?case
  proof (cases "IsPrime n")
    case True
    then show ?thesis by (subst (1 2 3) next_prime_from.simps) (simp add: IsPrime_iff)
  next
    case False
    have step: "next_prime_from n = next_prime_from (n + 2)" using False 1(2) by (subst next_prime_from.simps) simp
    have "n + 2 \<le> q" if "prime_nat q" "n \<le> q" for q
    proof -
      have "q \<noteq> n" using that False by (auto simp: IsPrime_iff)
      moreover have "q \<noteq> n + 1"
      proof
        assume "q = n + 1"
        then have "2 dvd q" using 1(2) by simp
        then have "q = 2" using that(1) by (auto simp: prime_nat_def)
        then show False using 1(3) \<open>q = n + 1\<close> by simp
      qed
      ultimately show ?thesis using that by simp
    qed
    with 1 False show ?thesis unfolding step by auto
  qed
qed

lemma NextPrime_spec:
  "prime_nat (NextPrime n) \<and> n \<le> NextPrime n \<and> (\<forall>q. prime_nat q \<and> n \<le> q \<longrightarrow> NextPrime n \<le> q)"
proof (cases "n \<le> 2")
  case True
  have "prime_nat 2" by (subst IsPrime_iff [symmetric]) (simp add: IsPrime_def)
  moreover have "2 \<le> q" if "prime_nat q" for q using that by (simp add: prime_nat_def)
  moreover have "NextPrime n = 2" using True by (simp add: NextPrime_def)
  ultimately show ?thesis using True by auto
next
  case False
  define m where "m = (if n mod 2 = 0 then n + 1 else n)"
  have m: "odd m" "3 \<le> m" "n \<le> m" using False unfolding m_def by presburger+
  have le: "m \<le> q" if "prime_nat q" "n \<le> q" for q
  proof -
    have "q \<noteq> n" if "2 dvd n" using that \<open>prime_nat q\<close> False by (auto simp: prime_nat_def)
    then show ?thesis using that(2) unfolding m_def by presburger
  qed
  have np: "NextPrime n = next_prime_from m" using False by (simp add: NextPrime_def m_def)
  note spec = next_prime_from_spec [OF m(1,2)]
  show ?thesis
    unfolding np
  proof (intro conjI allI impI refl)
    show "n \<le> next_prime_from m" using spec m(3) by linarith
  qed (use spec le in blast)+
qed

text \<open>
  \<open>NextPrime\<close> ends on every input and returns the least prime that is not
  below its argument; \<open>IsPrime\<close>, which it relies on, is exact.
\<close>

theorem NextPrime_least:
  "prime_nat (NextPrime n) \<and> n \<le> NextPrime n \<and> (\<forall>q. prime_nat q \<and> n \<le> q \<longrightarrow> NextPrime n \<le> q)
   \<and> (IsPrime n \<longleftrightarrow> prime_nat n)"
  using NextPrime_spec IsPrime_iff by blast

theorem NextPrime_least_witness:
  "NextPrime 65536 = 65537 \<and> prime_nat (NextPrime 65536) \<and> 65536 \<le> NextPrime 65536"
proof -
  have "IsPrime 65537" by (simp add: IsPrime_def no_divisor_from.simps)
  then have "prime_nat 65537" using NextPrime_least by blast
  then have "NextPrime 65536 \<le> 65537" using NextPrime_least [of 65536] by simp
  moreover have "\<not> prime_nat 65536" unfolding IsPrime_iff [symmetric] by (simp add: IsPrime_def)
  ultimately show ?thesis using NextPrime_least [of 65536] by (metis eval_nat_numeral(3) le_Suc_eq le_antisym
      numeral_plus_one semiring_norm(2) Suc_eq_plus1)
qed

end
