(* ===== verification/Maglev.thy ===== *)
theory Maglev
  imports ConsistentHash Primes "HOL-Library.Monad_Syntax"
begin

text \<open>
  \<open>MaglevHashLB\<close> of \<open>include/coropact/gateway/load_balancer.h\<close>.  The lookup table
  is filled by letting the backends, one per unit of weight, take turns; each
  walks its own permutation of the table to the next free entry.  The two
  nested loops are partial functions, \<^const>\<open>None\<close> standing for a run that does
  not end; that they end is proved from the primality of the table size.
  \<open>size_t\<close> arithmetic is written out modulo \<open>2\<^sup>6\<^sup>4\<close>.
\<close>

record BackendCursor =
  bc_peer :: nat
  bc_offset :: nat
  bc_skip :: nat
  bc_next :: nat

record LookupTable =
  entries :: "nat option list"
  table_fingerprint :: string

record MaglevHashLB =
  table_size :: nat
  mg_hash_on :: HashOn
  mg_table :: "LookupTable option"

definition kMinTableSize :: nat where "kMinTableSize = 257"
definition kMaxTableSize :: nat where "kMaxTableSize = 1048583"

definition new_MaglevHashLB :: "nat \<Rightarrow> string \<Rightarrow> MaglevHashLB" where
  "new_MaglevHashLB sz hash_on =
     \<lparr>table_size = NextPrime (max kMinTableSize (min kMaxTableSize sz)), mg_hash_on = ParseHashOn hash_on, mg_table = None\<rparr>"

definition new_BackendCursor :: "nat \<Rightarrow> nat \<Rightarrow> string \<Rightarrow> BackendCursor" where
  "new_BackendCursor M i ident =
     \<lparr>bc_peer = i, bc_offset = unat (MurmurHash64 ident 0) mod M,
      bc_skip = unat (MurmurHash64 ident 0x9e3779b9) mod (M - 1) + 1, bc_next = 0\<rparr>"

definition backends :: "nat \<Rightarrow> UpstreamPeer list \<Rightarrow> u64 \<Rightarrow> BackendCursor list" where
  "backends M ps now = concat (map
     (\<lambda>(i, p). map (\<lambda>replica. new_BackendCursor M i (peer_name (peer_config p) @ ''#'' @ to_string (int replica)))
        [0 ..< nat (max (peer_weight p) 1)])
     (filter (\<lambda>(i, p). AvailableAt now p) (enumerate 0 ps)))"

definition cursor_pos :: "nat \<Rightarrow> BackendCursor \<Rightarrow> nat" where
  "cursor_pos M b = (bc_offset b + bc_next b * bc_skip b) mod 2 ^ 64 mod M"

definition cursor_step :: "BackendCursor \<Rightarrow> BackendCursor" where
  "cursor_step b = b\<lparr>bc_next := bc_next b + 1\<rparr>"

text \<open>The \<open>do ... while (table->entries[pos] != nullptr)\<close> loop.\<close>

partial_function (option) find_slot :: "nat \<Rightarrow> nat option list \<Rightarrow> BackendCursor \<Rightarrow> (nat \<times> BackendCursor) option" where
  "find_slot M es b =
     (if es ! cursor_pos M b \<noteq> None then find_slot M es (cursor_step b)
      else Some (cursor_pos M b, cursor_step b))"

declare find_slot.simps [code]

text \<open>The loop over the backends, left when the table is full.\<close>

fun fill_pass :: "nat \<Rightarrow> BackendCursor list \<Rightarrow> nat option list \<Rightarrow> nat \<Rightarrow> (BackendCursor list \<times> nat option list \<times> nat) option" where
  "fill_pass M [] es filled = Some ([], es, filled)"
| "fill_pass M (b # bs) es filled =
     do {
       (pos, b') \<leftarrow> find_slot M es b;
       let es' = es[pos := Some (bc_peer b)];
       if filled + 1 = M then Some (b' # bs, es', filled + 1)
       else do {
         (bs', es'', filled') \<leftarrow> fill_pass M bs es' (filled + 1);
         Some (b' # bs', es'', filled')
       }
     }"

partial_function (option) fill_table :: "nat \<Rightarrow> BackendCursor list \<Rightarrow> nat option list \<Rightarrow> nat \<Rightarrow> nat option list option" where
  "fill_table M bs es filled =
     (if filled < M then
        do { (bs', es', filled') \<leftarrow> fill_pass M bs es filled; fill_table M bs' es' filled' }
      else Some es)"

declare fill_table.simps [code]

definition BuildTable :: "nat \<Rightarrow> UpstreamPeer list \<Rightarrow> u64 \<Rightarrow> LookupTable option" where
  "BuildTable M ps now =
     (let bs = backends M ps now; fp = ComputeFingerprint ps now in
      if bs = [] then Some \<lparr>entries = [], table_fingerprint = fp\<rparr>
      else do { es \<leftarrow> fill_table M bs (replicate M None) 0; Some \<lparr>entries = es, table_fingerprint = fp\<rparr> })"

definition table_Lookup :: "LookupTable \<Rightarrow> u64 \<Rightarrow> nat option" where
  "table_Lookup t h = (if entries t = [] then None else entries t ! (unat h mod length (entries t)))"

text \<open>\<open>Select\<close>; a table that is never finished would block the call, here \<^const>\<open>None\<close>.\<close>

definition Maglev_Select_opt ::
  "u64 \<Rightarrow> UpstreamPeer list \<Rightarrow> RequestContext \<Rightarrow> MaglevHashLB \<Rightarrow> (nat option \<times> MaglevHashLB) option" where
  "Maglev_Select_opt now ps ctx lb =
     (let fp = ComputeFingerprint ps now; h = MurmurHash64 (HashKey (mg_hash_on lb) ctx) 0;
          rebuild = do { t \<leftarrow> BuildTable (table_size lb) ps now; Some (table_Lookup t h, lb\<lparr>mg_table := Some t\<rparr>) } in
      if fp = [] then Some (None, lb)
      else case mg_table lb of
        Some t \<Rightarrow> if table_fingerprint t = fp then Some (table_Lookup t h, lb) else rebuild
      | None \<Rightarrow> rebuild)"

section \<open>Every backend visits every entry\<close>

lemma prime_coprime:
  assumes "prime_nat M" "0 < s" "s < M" shows "coprime s M"
proof -
  have "gcd s M dvd M" by simp
  then have "gcd s M = 1 \<or> gcd s M = M" using assms(1) by (simp add: prime_nat_def)
  moreover have "gcd s M \<noteq> M" using assms(2,3) by (metis gcd_le1_nat gr_implies_not0 leD)
  ultimately show ?thesis by (simp add: coprime_iff_gcd_eq_1)
qed

lemma permutation_covers:
  fixes a s M pos :: nat
  assumes "coprime s M" "pos < M"
  shows "\<exists>k < M. (a + k * s) mod M = pos"
proof -
  let ?f = "\<lambda>k. (a + k * s) mod M"
  have le: "x = y" if "x < M" "y \<le> x" "?f x = ?f y" for x y
  proof -
    have "M dvd (a + x * s) - (a + y * s)" using that mod_eq_dvd_iff_nat [of "a + y * s" "a + x * s" M] by simp
    then have "M dvd (x - y) * s" by (simp add: diff_mult_distrib)
    then have "M dvd x - y" using assms(1) by (simp add: coprime_dvd_mult_left_iff coprime_commute)
    moreover have "x - y < M" using that(1) by simp
    ultimately have "x - y = 0" using nat_dvd_not_less by blast
    then show ?thesis using that(2) by simp
  qed
  have "inj_on ?f {..< M}"
  proof (rule inj_onI)
    fix x y assume "x \<in> {..< M}" "y \<in> {..< M}" "?f x = ?f y"
    then show "x = y" using le [of x y] le [of y x] by (cases "y \<le> x") auto
  qed
  moreover have "?f ` {..< M} \<subseteq> {..< M}" using assms(2) by auto
  ultimately have "?f ` {..< M} = {..< M}" by (intro endo_inj_surj) auto
  then have "pos \<in> ?f ` {..< M}" using assms(2) by blast
  then show ?thesis by auto
qed

text \<open>
  The state of a backend in a partly filled table: what it has visited is
  taken, and while entries are free it has visited fewer than all of them, so
  \<open>offset + next * skip\<close> stays far below \<open>2\<^sup>6\<^sup>4\<close>.
\<close>

definition cursor_ok :: "nat \<Rightarrow> nat option list \<Rightarrow> BackendCursor \<Rightarrow> bool" where
  "cursor_ok M es b \<longleftrightarrow> bc_offset b < M \<and> 0 < bc_skip b \<and> bc_skip b < M \<and> bc_next b \<le> M
     \<and> (\<forall>k < bc_next b. es ! ((bc_offset b + k * bc_skip b) mod M) \<noteq> None)"

lemma cursor_ok_update: "cursor_ok M es b \<Longrightarrow> cursor_ok M (es[pos := Some x]) b"
  unfolding cursor_ok_def by (metis (no_types, lifting) list_update_beyond linorder_not_less nth_list_update_eq
      nth_list_update_neq option.distinct(1))

lemma no_wrap:
  fixes off n s M :: nat
  assumes "off < M" "s < M" "n \<le> M" "M < 2 ^ 31"
  shows "off + n * s < 2 ^ 64"
proof -
  have "n * s \<le> M * M" using assms by (intro mult_le_mono) auto
  also have "\<dots> \<le> 2 ^ 31 * 2 ^ 31" using assms(4) by (intro mult_le_mono) auto
  finally have "n * s \<le> 2 ^ 62" by simp
  moreover have "off < 2 ^ 31" using assms(1,4) by linarith
  ultimately show ?thesis by simp
qed

lemma find_slot_finds:
  assumes M: "prime_nat M" "M < 2 ^ 31" and free: "free < M" "es ! free = None"
  shows "cursor_ok M es b \<Longrightarrow>
    \<exists>pos b'. find_slot M es b = Some (pos, b') \<and> pos < M \<and> es ! pos = None \<and> bc_peer b' = bc_peer b
      \<and> (\<forall>x. pos < length es \<longrightarrow> cursor_ok M (es[pos := Some x]) b')"
proof (induction "M - bc_next b" arbitrary: b rule: less_induct)
  case less
  note ok = less.prems [unfolded cursor_ok_def]
  let ?f = "\<lambda>k. (bc_offset b + k * bc_skip b) mod M"
  have pos: "cursor_pos M b = ?f (bc_next b)"
    using no_wrap [of "bc_offset b" M "bc_skip b" "bc_next b"] ok M(2) by (simp add: cursor_pos_def)
  obtain k where k: "k < M" "?f k = free"
    using permutation_covers [OF prime_coprime [OF M(1)] free(1), of "bc_skip b" "bc_offset b"] ok by auto
  have "bc_next b \<le> k" using ok k(2) free(2) by (metis not_le_imp_less)
  then have lt: "bc_next b < M" using k(1) by simp
  have lM: "?f (bc_next b) < M" using free(1) by simp
  show ?case
  proof (cases "es ! cursor_pos M b")
    case (Some x)
    then have "cursor_ok M es (cursor_step b)"
      using ok lt pos by (auto simp: cursor_ok_def cursor_step_def less_Suc_eq)
    moreover have "M - bc_next (cursor_step b) < M - bc_next b" using lt by (simp add: cursor_step_def)
    ultimately have "\<exists>pos b'. find_slot M es (cursor_step b) = Some (pos, b') \<and> pos < M \<and> es ! pos = None
        \<and> bc_peer b' = bc_peer (cursor_step b) \<and> (\<forall>x. pos < length es \<longrightarrow> cursor_ok M (es[pos := Some x]) b')"
      using less.hyps by blast
    then show ?thesis using Some by (subst find_slot.simps) (simp add: cursor_step_def)
  next
    case None
    have "cursor_ok M (es[?f (bc_next b) := Some x]) (cursor_step b)" if "?f (bc_next b) < length es" for x
      using cursor_ok_update [OF less.prems, of "?f (bc_next b)" x] that lt
      by (auto simp: cursor_ok_def cursor_step_def less_Suc_eq)
    with None pos lM show ?thesis
      by (subst find_slot.simps) (simp add: cursor_step_def)
  qed
qed

section \<open>The table is filled, and evenly\<close>

definition taken :: "nat option list \<Rightarrow> nat" where
  "taken es = length (filter (\<lambda>e. e \<noteq> None) es)"

definition share :: "nat \<Rightarrow> BackendCursor list \<Rightarrow> nat" where
  "share p bs = length (filter (\<lambda>b. bc_peer b = p) bs)"

lemma taken_update: "pos < length es \<Longrightarrow> es ! pos = None \<Longrightarrow> taken (es[pos := Some x]) = Suc (taken es)"
proof (induction es arbitrary: pos)
  case (Cons e es)
  then show ?case by (cases pos) (auto simp: taken_def)
qed simp

lemma count_update:
  "pos < length es \<Longrightarrow> es ! pos = None \<Longrightarrow>
   count_list (es[pos := Some x]) (Some p) = count_list es (Some p) + (if x = p then 1 else 0)"
proof (induction es arbitrary: pos)
  case (Cons e es)
  then show ?case by (cases pos) auto
qed simp

lemma free_entry: "taken es < length es \<Longrightarrow> \<exists>pos < length es. es ! pos = None"
proof (rule ccontr)
  assume lt: "taken es < length es" and "\<not> (\<exists>pos < length es. es ! pos = None)"
  then have "\<forall>e \<in> set es. e \<noteq> None" by (auto simp: in_set_conv_nth)
  then have "filter (\<lambda>e. e \<noteq> None) es = es" by simp
  with lt show False by (simp add: taken_def)
qed

lemma fill_pass_spec:
  assumes M: "prime_nat M" "M < 2 ^ 31"
  shows "length es = M \<Longrightarrow> taken es < M \<Longrightarrow> \<forall>b \<in> set bs. cursor_ok M es b \<Longrightarrow>
    \<exists>bs' es' n. fill_pass M bs es (taken es) = Some (bs', es', taken es') \<and> length es' = M
      \<and> n = min (length bs) (M - taken es) \<and> taken es' = taken es + n
      \<and> map bc_peer bs' = map bc_peer bs \<and> (\<forall>b \<in> set bs'. cursor_ok M es' b)
      \<and> (\<forall>b. cursor_ok M es b \<longrightarrow> cursor_ok M es' b)
      \<and> (\<forall>p. count_list es' (Some p) = count_list es (Some p) + share p (take n bs))"
proof (induction bs arbitrary: es)
  case Nil
  then show ?case by (auto simp: share_def)
next
  case (Cons b bs)
  obtain free where "free < M" "es ! free = None" using free_entry Cons.prems(1,2) by blast
  then obtain pos b1 where fs: "find_slot M es b = Some (pos, b1)" "pos < M" "es ! pos = None" "bc_peer b1 = bc_peer b"
      "\<forall>x. cursor_ok M (es[pos := Some x]) b1"
    using find_slot_finds [OF M, of free es b] Cons.prems by auto
  define es1 where "es1 = es[pos := Some (bc_peer b)]"
  have l1: "length es1 = M" using Cons.prems(1) by (simp add: es1_def)
  have t1: "taken es1 = Suc (taken es)" using fs(2,3) Cons.prems(1) by (simp add: es1_def taken_update)
  have c1: "count_list es1 (Some p) = count_list es (Some p) + (if bc_peer b = p then 1 else 0)" for p
    using fs(2,3) Cons.prems(1) by (simp add: es1_def count_update)
  have k1: "cursor_ok M es1 b1" "\<forall>b. cursor_ok M es b \<longrightarrow> cursor_ok M es1 b"
    using fs(5) cursor_ok_update by (auto simp: es1_def)
  show ?case
  proof (cases "taken es1 = M")
    case True
    then have "fill_pass M (b # bs) es (taken es) = Some (b1 # bs, es1, taken es1)" "M - taken es = 1"
      using fs(1) t1 by (simp_all add: es1_def [symmetric])
    then show ?thesis
      using l1 t1 c1 k1 fs(4) Cons.prems(3) by (intro exI [of _ "b1 # bs"] exI [of _ es1] exI [of _ 1]) (auto simp: share_def)
  next
    case False
    then have "taken es1 < M" using t1 Cons.prems(2) by simp
    with Cons.IH [OF l1] k1 Cons.prems(3) obtain bs2 es2 where r:
        "fill_pass M bs es1 (taken es1) = Some (bs2, es2, taken es2)" "length es2 = M"
        "taken es2 = taken es1 + min (length bs) (M - taken es1)" "map bc_peer bs2 = map bc_peer bs"
        "\<forall>b \<in> set bs2. cursor_ok M es2 b" "\<forall>b. cursor_ok M es1 b \<longrightarrow> cursor_ok M es2 b"
        "\<forall>p. count_list es2 (Some p) = count_list es1 (Some p) + share p (take (min (length bs) (M - taken es1)) bs)"
      by auto
    have "fill_pass M (b # bs) es (taken es) = Some (b1 # bs2, es2, taken es2)"
      using fs(1) r(1) False t1 by (simp add: es1_def [symmetric])
    moreover have "min (length (b # bs)) (M - taken es) = Suc (min (length bs) (M - taken es1))"
      using t1 Cons.prems(2) by simp
    ultimately show ?thesis
      using r t1 c1 k1 fs(4)
      by (intro exI [of _ "b1 # bs2"] exI [of _ es2] exI [of _ "Suc (min (length bs) (M - taken es1))"])
        (auto simp: share_def)
  qed
qed

lemma share_peers: "share p bs = count_list (map bc_peer bs) p"
  by (induction bs) (auto simp: share_def)

lemma share_cong: "map bc_peer bs' = map bc_peer bs \<Longrightarrow> share p (take k bs') = share p (take k bs)"
  by (simp add: share_peers take_map [symmetric])

lemma fill_table_spec:
  assumes M: "prime_nat M" "M < 2 ^ 31"
  shows "length es = M \<Longrightarrow> bs \<noteq> [] \<Longrightarrow> \<forall>b \<in> set bs. cursor_ok M es b \<Longrightarrow>
    \<exists>es'. fill_table M bs es (taken es) = Some es' \<and> length es' = M \<and> taken es' = M
      \<and> (\<forall>p. count_list es' (Some p) = count_list es (Some p)
            + (M - taken es) div length bs * share p bs + share p (take ((M - taken es) mod length bs) bs))"
proof (induction "M - taken es" arbitrary: es bs rule: less_induct)
  case less
  have le: "taken es \<le> M" using less.prems(1) by (simp add: taken_def flip: less.prems(1))
  show ?case
  proof (cases "taken es < M")
    case False
    then show ?thesis using le less.prems by (subst fill_table.simps) (simp add: share_def)
  next
    case True
    obtain bs1 es1 where r: "fill_pass M bs es (taken es) = Some (bs1, es1, taken es1)" "length es1 = M"
        "taken es1 = taken es + min (length bs) (M - taken es)" "map bc_peer bs1 = map bc_peer bs"
        "\<forall>b \<in> set bs1. cursor_ok M es1 b"
        "\<forall>p. count_list es1 (Some p) = count_list es (Some p) + share p (take (min (length bs) (M - taken es)) bs)"
      using fill_pass_spec [OF M less.prems(1) True less.prems(3)] by blast
    have len: "length bs1 = length bs" using map_eq_imp_length_eq [OF r(4)] .
    have "M - taken es1 < M - taken es" using r(3) True less.prems(2) by (cases bs) auto
    moreover have "bs1 \<noteq> []" using len less.prems(2) by auto
    ultimately obtain es2 where r2: "fill_table M bs1 es1 (taken es1) = Some es2" "length es2 = M" "taken es2 = M"
        "\<forall>p. count_list es2 (Some p) = count_list es1 (Some p) + (M - taken es1) div length bs1 * share p bs1
            + share p (take ((M - taken es1) mod length bs1) bs1)"
      using less.hyps [of es1 bs1] r(2,5) by blast
    have sh: "share p (take k bs1) = share p (take k bs)" "share p bs1 = share p bs" for p k
      using share_cong [OF r(4)] r(4) by (simp_all add: share_peers)
    have eq: "share p (take (min (length bs) (M - taken es)) bs) + (M - taken es1) div length bs * share p bs
        + share p (take ((M - taken es1) mod length bs) bs)
      = (M - taken es) div length bs * share p bs + share p (take ((M - taken es) mod length bs) bs)" for p
    proof (cases "length bs \<le> M - taken es")
      case True
      then have "M - taken es1 = M - taken es - length bs" using r(3) by simp
      then show ?thesis using True less.prems(2)
        by (simp add: le_div_geq [of "length bs" "M - taken es"] le_mod_geq [of "length bs" "M - taken es"])
    next
      case False
      then show ?thesis using r(3) le by simp (simp add: share_def)
    qed
    have "count_list es2 (Some p) = count_list es (Some p) + (M - taken es) div length bs * share p bs
        + share p (take ((M - taken es) mod length bs) bs)" for p
      using spec [OF r2(4), of p] spec [OF r(6), of p] eq [of p] unfolding sh len by linarith
    moreover have "fill_table M bs es (taken es) = Some es2"
      using r(1) r2(1) True by (subst fill_table.simps) simp
    ultimately show ?thesis using r2(2,3) by blast
  qed
qed

lemma backends_ok:
  assumes "prime_nat M" "b \<in> set (backends M ps now)"
  shows "cursor_ok M es b"
proof -
  have M: "2 \<le> M" using assms(1) by (simp add: prime_nat_def)
  then have "k mod (M - 1) + 1 < M" for k :: nat
    using mod_less_divisor [of "M - 1" k] by linarith
  with assms(2) M show ?thesis by (auto simp: backends_def new_BackendCursor_def cursor_ok_def)
qed

lemma backends_of:
  "backends M ps now = concat (map (\<lambda>i. map (\<lambda>replica. new_BackendCursor M i
      (peer_name (peer_config (ps ! i)) @ ''#'' @ to_string (int replica))) [0 ..< nat (max (peer_weight (ps ! i)) 1)])
    (avail_indices now ps))"
  unfolding backends_def avail_filter_map by (simp add: comp_def)

lemma backends_empty: "backends M ps now = [] \<longleftrightarrow> count_avail now ps = 0"
  unfolding backends_of by (auto simp: length_avail_indices [symmetric] simp del: length_0_conv)

lemma share_append: "share p (bs @ cs) = share p bs + share p cs"
  by (simp add: share_def)

lemma share_backends:
  "share p (backends M ps now) = (if p \<in> set (avail_indices now ps) then nat (max (peer_weight (ps ! p)) 1) else 0)"
proof -
  define w where "w i = nat (max (peer_weight (ps ! i)) 1)" for i
  define B where "B i = map (\<lambda>replica. new_BackendCursor M i
      (peer_name (peer_config (ps ! i)) @ ''#'' @ to_string (int replica))) [0 ..< w i]" for i
  have one: "share p (B i) = (if p = i then w i else 0)" for i
    by (auto simp: share_def B_def filter_map comp_def new_BackendCursor_def)
  have "distinct l \<Longrightarrow> share p (concat (map B l)) = (if p \<in> set l then w p else 0)" for l
    by (induction l) (auto simp: share_append one, simp add: share_def)
  from this [OF avail_indices_distinct] show ?thesis
    unfolding backends_of B_def w_def by (simp only:)
qed

lemma BuildTable_spec:
  assumes "prime_nat M" "M < 2 ^ 31" "0 < count_avail now ps"
  shows "\<exists>t. BuildTable M ps now = Some t \<and> table_fingerprint t = ComputeFingerprint ps now
    \<and> length (entries t) = M \<and> None \<notin> set (entries t)
    \<and> (\<forall>p. count_list (entries t) (Some p) = M div length (backends M ps now) * share p (backends M ps now)
          + share p (take (M mod length (backends M ps now)) (backends M ps now)))"
proof -
  let ?bs = "backends M ps now" and ?es = "replicate M None :: nat option list"
  have ne: "?bs \<noteq> []" using assms(3) by (simp add: backends_empty)
  have t0: "taken ?es = 0" by (simp add: taken_def)
  obtain es where es: "fill_table M ?bs ?es 0 = Some es" "length es = M" "taken es = M"
      "\<forall>p. count_list es (Some p) = count_list ?es (Some p) + M div length ?bs * share p ?bs
          + share p (take (M mod length ?bs) ?bs)"
    using fill_table_spec [OF assms(1,2), of ?es ?bs] ne backends_ok [OF assms(1)] unfolding t0 by auto
  have "filter (\<lambda>e. e \<noteq> None) es = es"
    using es(2,3) unfolding taken_def by (metis filter_id_conv length_filter_less nat_less_le)
  then have "None \<notin> set es" by (metis (mono_tags, lifting) filter_id_conv)
  moreover have "count_list ?es (Some p) = 0" for p by (induction M) auto
  ultimately show ?thesis using es ne by (simp add: BuildTable_def Let_def)
qed

lemma share_take_le: "share p (take k bs) \<le> share p bs"
  unfolding share_def by (metis append_take_drop_id filter_append le_add1 length_append)

lemma table_entries:
  assumes "prime_nat M" "M < 2 ^ 31" "0 < count_avail now ps" "BuildTable M ps now = Some t"
  shows "length (entries t) = M
    \<and> (\<forall>e \<in> set (entries t). \<exists>i. e = Some i \<and> i < length ps \<and> AvailableAt now (ps ! i))"
proof -
  let ?bs = "backends M ps now"
  have t: "length (entries t) = M" "None \<notin> set (entries t)"
      "\<forall>p. count_list (entries t) (Some p) = M div length ?bs * share p ?bs + share p (take (M mod length ?bs) ?bs)"
    using BuildTable_spec [OF assms(1-3)] assms(4) by auto
  have mem: "i \<in> set (avail_indices now ps)" if "Some i \<in> set (entries t)" for i
  proof (rule ccontr)
    assume "i \<notin> set (avail_indices now ps)"
    then have "share i ?bs = 0" by (simp add: share_backends)
    then have "count_list (entries t) (Some i) = 0" using t(3) share_take_le [of i _ ?bs] by simp
    with that show False by (simp add: count_list_0_iff)
  qed
  have "\<exists>i. e = Some i \<and> i < length ps \<and> AvailableAt now (ps ! i)" if e: "e \<in> set (entries t)" for e
  proof -
    have "e \<noteq> None" using e t(2) by metis
    then obtain i where "e = Some i" by blast
    with mem [of i] e show ?thesis by (simp add: avail_indices_set)
  qed
  with t(1) show ?thesis by blast
qed

text \<open>
  (C26) Building a Maglev table ends, and the table is full and balanced: with
  \<open>N\<close> the total weight of the available peers (each counting at least 1), every entry names an
  available peer, and a peer of weight \<open>w\<close> has at least \<open>w * (M div N)\<close> and at
  most \<open>w * (M div N + 1)\<close> of the \<open>M\<close> entries.
\<close>

theorem maglev_table_balanced:
  assumes "prime_nat M" "M < 2 ^ 31" "0 < count_avail now ps"
  shows "\<exists>t. BuildTable M ps now = Some t \<and> length (entries t) = M
    \<and> (\<forall>e \<in> set (entries t). \<exists>i. e = Some i \<and> i < length ps \<and> AvailableAt now (ps ! i))
    \<and> (\<forall>i < length ps. AvailableAt now (ps ! i) \<longrightarrow>
         (let w = nat (max (peer_weight (ps ! i)) 1); q = M div length (backends M ps now) in
          w * q \<le> count_list (entries t) (Some i) \<and> count_list (entries t) (Some i) \<le> w * (q + 1)))"
proof -
  let ?bs = "backends M ps now"
  obtain t where t: "BuildTable M ps now = Some t" "length (entries t) = M" "None \<notin> set (entries t)"
      "\<forall>p. count_list (entries t) (Some p) = M div length ?bs * share p ?bs + share p (take (M mod length ?bs) ?bs)"
    using BuildTable_spec [OF assms] by auto
  note entry = table_entries [OF assms t(1)]
  have bounds: "let w = nat (max (peer_weight (ps ! i)) 1); q = M div length ?bs in
      w * q \<le> count_list (entries t) (Some i) \<and> count_list (entries t) (Some i) \<le> w * (q + 1)"
    if "i < length ps" "AvailableAt now (ps ! i)" for i
  proof -
    have sh: "share i ?bs = nat (max (peer_weight (ps ! i)) 1)" using that by (simp add: share_backends avail_indices_set)
    define w q where "w = nat (max (peer_weight (ps ! i)) 1)" and "q = M div length ?bs"
    have "count_list (entries t) (Some i) = q * w + share i (take (M mod length ?bs) ?bs)"
      using t(4) sh by (simp add: q_def w_def)
    moreover have "share i (take (M mod length ?bs) ?bs) \<le> w" using share_take_le sh unfolding w_def by metis
    ultimately show ?thesis unfolding Let_def w_def [symmetric] q_def [symmetric] by (simp add: mult.commute)
  qed
  show ?thesis using t(1) entry bounds by (intro exI [of _ t]) simp
qed

theorem maglev_table_balanced_witness:
  "\<exists>t. BuildTable 11 demo_fleet 0 = Some t \<and> length (entries t) = 11
    \<and> 5 \<le> count_list (entries t) (Some 0) \<and> count_list (entries t) (Some 0) \<le> 10"
proof -
  have p: "prime_nat 11" unfolding IsPrime_iff [symmetric] by (simp add: IsPrime_def no_divisor_from.simps)
  have a: "0 < count_avail 0 demo_fleet" by (simp flip: length_avail_indices add: demo_fleet_avail)
  have n: "length (backends 11 demo_fleet 0) = 7"
    unfolding backends_of demo_fleet_avail by (simp add: demo_fleet_def)
  have f: "0 < length demo_fleet" "AvailableAt 0 (demo_fleet ! 0)" "peer_weight (demo_fleet ! 0) = 5"
    by (simp_all add: demo_fleet_def)
  from maglev_table_balanced [OF p _ a] obtain t where t: "BuildTable 11 demo_fleet 0 = Some t" "length (entries t) = 11"
      "\<forall>i < length demo_fleet. AvailableAt 0 (demo_fleet ! i) \<longrightarrow>
         (let w = nat (max (peer_weight (demo_fleet ! i)) 1); q = 11 div length (backends 11 demo_fleet 0) in
          w * q \<le> count_list (entries t) (Some i) \<and> count_list (entries t) (Some i) \<le> w * (q + 1))"
    by auto
  from t(3) [rule_format, OF f(1,2)] t(1,2) show ?thesis
    by (intro exI [of _ t]) (simp add: f(3) n)
qed

section \<open>The table size\<close>

lemma kMaxTableSize_prime: "prime_nat kMaxTableSize"
  unfolding IsPrime_iff [symmetric] kMaxTableSize_def by (simp add: IsPrime_def no_divisor_from.simps)

lemma new_table_size:
  "prime_nat (table_size (new_MaglevHashLB n h))" "kMinTableSize \<le> table_size (new_MaglevHashLB n h)"
  "table_size (new_MaglevHashLB n h) \<le> kMaxTableSize"
proof -
  let ?n = "max kMinTableSize (min kMaxTableSize n)"
  have "?n \<le> kMaxTableSize" by (simp add: kMinTableSize_def kMaxTableSize_def)
  with NextPrime_spec [of ?n] kMaxTableSize_prime
  show "prime_nat (table_size (new_MaglevHashLB n h))" "kMinTableSize \<le> table_size (new_MaglevHashLB n h)"
    "table_size (new_MaglevHashLB n h) \<le> kMaxTableSize"
    by (auto simp: new_MaglevHashLB_def)
qed

section \<open>Selecting\<close>

text \<open>As the interface has it; that the first case never arises is \<open>Maglev_Select_returns\<close> below.\<close>

definition Maglev_Select ::
  "lb_env \<Rightarrow> u64 \<Rightarrow> UpstreamPeer list \<Rightarrow> RequestContext \<Rightarrow> MaglevHashLB \<Rightarrow> nat option \<times> MaglevHashLB" where
  "Maglev_Select env now ps ctx lb =
     (case Maglev_Select_opt now ps ctx lb of None \<Rightarrow> (None, lb) | Some r \<Rightarrow> r)"

definition table_of :: "nat \<Rightarrow> UpstreamPeerConfig list \<Rightarrow> nat list \<Rightarrow> LookupTable option" where
  "table_of M cfgs idxs =
     (let bs = concat (map (\<lambda>i. map (\<lambda>replica. new_BackendCursor M i (peer_name (cfgs ! i) @ ''#'' @ to_string (int replica)))
                 [0 ..< nat (max (cfg_weight (cfgs ! i)) 1)]) idxs) in
      if bs = [] then Some \<lparr>entries = [], table_fingerprint = fp_of cfgs idxs\<rparr>
      else do { es \<leftarrow> fill_table M bs (replicate M None) 0; Some \<lparr>entries = es, table_fingerprint = fp_of cfgs idxs\<rparr> })"

lemma BuildTable_of: "BuildTable M ps now = table_of M (map peer_config ps) (avail_indices now ps)"
proof -
  have "backends M ps now = concat (map (\<lambda>i. map (\<lambda>replica. new_BackendCursor M i
      (peer_name (map peer_config ps ! i) @ ''#'' @ to_string (int replica)))
      [0 ..< nat (max (cfg_weight (map peer_config ps ! i)) 1)]) (avail_indices now ps))"
    unfolding backends_of
    by (intro arg_cong [of _ _ concat] map_cong refl) (auto simp: avail_indices_set peer_weight_def)
  then show ?thesis unfolding BuildTable_def table_of_def ComputeFingerprint_of by (simp only: Let_def)
qed

definition mg_inv :: "lb_env \<Rightarrow> UpstreamPeerConfig list \<Rightarrow> MaglevHashLB \<Rightarrow> bool" where
  "mg_inv env cfgs lb \<longleftrightarrow> prime_nat (table_size lb) \<and> table_size lb < 2 ^ 31 \<and>
     (\<forall>t. mg_table lb = Some t \<longrightarrow>
        (\<exists>idxs. table_of (table_size lb) cfgs idxs = Some t \<and> (\<forall>i \<in> set idxs. i < length cfgs)))"

lemma new_mg_inv: "mg_inv env cfgs (new_MaglevHashLB n h)"
  using new_table_size [of n h] by (simp add: mg_inv_def kMaxTableSize_def new_MaglevHashLB_def)

lemma table_of_fp: "table_of M cfgs idxs = Some t \<Longrightarrow> table_fingerprint t = fp_of cfgs idxs"
  by (auto simp: table_of_def Let_def split: if_splits bind_splits)

lemma cached_table:
  assumes "names_ok (map peer_config ps)" "mg_inv env (map peer_config ps) lb"
    and "mg_table lb = Some t" "table_fingerprint t = ComputeFingerprint ps now"
  shows "BuildTable (table_size lb) ps now = Some t"
proof -
  obtain idxs where t: "table_of (table_size lb) (map peer_config ps) idxs = Some t"
      "\<forall>i \<in> set idxs. i < length (map peer_config ps)"
    using assms(2,3) by (auto simp: mg_inv_def)
  then have "fp_of (map peer_config ps) idxs = fp_of (map peer_config ps) (avail_indices now ps)"
    using assms(4) table_of_fp by (simp add: ComputeFingerprint_of)
  with t have "idxs = avail_indices now ps"
    using assms(1) by (intro fp_of_inject [of "map peer_config ps"]) (auto simp: avail_indices_set)
  with t show ?thesis by (simp add: BuildTable_of)
qed

text \<open>Every call returns, with the answer of a table built for the peers available now.\<close>

lemma Maglev_Select_returns:
  assumes "names_ok (map peer_config ps)" "mg_inv env (map peer_config ps) lb"
  obtains r lb' where "Maglev_Select_opt now ps ctx lb = Some (r, lb')" "mg_inv env (map peer_config ps) lb'"
    "if count_avail now ps = 0 then r = None
     else \<exists>t. BuildTable (table_size lb) ps now = Some t \<and> r = table_Lookup t (MurmurHash64 (HashKey (mg_hash_on lb) ctx) 0)"
proof (cases "count_avail now ps = 0")
  case True
  then have "ComputeFingerprint ps now = []" by (simp add: ComputeFingerprint_of fp_of_empty flip: length_avail_indices)
  then show ?thesis using that [of None lb] True assms(2) by (simp add: Maglev_Select_opt_def Let_def)
next
  case False
  then have fp: "ComputeFingerprint ps now \<noteq> []" by (simp add: ComputeFingerprint_of fp_of_empty flip: length_avail_indices)
  have M: "prime_nat (table_size lb)" "table_size lb < 2 ^ 31" using assms(2) by (simp_all add: mg_inv_def)
  obtain t where t: "BuildTable (table_size lb) ps now = Some t"
    using BuildTable_spec [OF M] False by blast
  have inv': "mg_inv env (map peer_config ps) (lb\<lparr>mg_table := Some t\<rparr>)"
    using M t by (auto simp: mg_inv_def BuildTable_of avail_indices_set intro: exI [of _ "avail_indices now ps"])
  let ?h = "MurmurHash64 (HashKey (mg_hash_on lb) ctx) 0"
  show ?thesis
  proof (cases "\<exists>t0. mg_table lb = Some t0 \<and> table_fingerprint t0 = ComputeFingerprint ps now")
    case True
    then obtain t0 where t0: "mg_table lb = Some t0" "table_fingerprint t0 = ComputeFingerprint ps now" by blast
    then have "t0 = t" using cached_table [OF assms] t by fastforce
    then show ?thesis using that [of "table_Lookup t ?h" lb] t0 t assms(2) fp False
      by (simp add: Maglev_Select_opt_def Let_def)
  next
    case miss: False
    then have "Maglev_Select_opt now ps ctx lb = Some (table_Lookup t ?h, lb\<lparr>mg_table := Some t\<rparr>)"
      using fp t by (auto simp: Maglev_Select_opt_def Let_def split: option.split)
    then show ?thesis using that inv' t False by simp
  qed
qed

interpretation maglev: total_load_balancer Maglev_Select mg_inv "\<lambda>ps. names_ok (map peer_config ps)"
proof unfold_locales
  fix env :: lb_env and ps :: "UpstreamPeer list" and now ctx i and lb lb' :: MaglevHashLB
  assume names: "names_ok (map peer_config ps)" and inv: "mg_inv env (map peer_config ps) lb"
  obtain r lb1 where r: "Maglev_Select_opt now ps ctx lb = Some (r, lb1)" "mg_inv env (map peer_config ps) lb1"
      "if count_avail now ps = 0 then r = None
       else \<exists>t. BuildTable (table_size lb) ps now = Some t \<and> r = table_Lookup t (MurmurHash64 (HashKey (mg_hash_on lb) ctx) 0)"
    using Maglev_Select_returns [OF names inv] .
  have M: "prime_nat (table_size lb)" "table_size lb < 2 ^ 31" using inv by (simp_all add: mg_inv_def)
  have some: "\<exists>i. r = Some i \<and> i \<in> set (avail_indices now ps)" if pos: "0 < count_avail now ps"
  proof -
    obtain t where t: "BuildTable (table_size lb) ps now = Some t"
        "r = table_Lookup t (MurmurHash64 (HashKey (mg_hash_on lb) ctx) 0)" using r(3) pos by auto
    have "length (entries t) = table_size lb"
        "\<forall>e \<in> set (entries t). \<exists>i. e = Some i \<and> i < length ps \<and> AvailableAt now (ps ! i)"
      using table_entries [OF M pos t(1)] by blast+
    moreover have "0 < table_size lb" using M by (simp add: prime_nat_def)
    ultimately show ?thesis using t(2) by (simp add: table_Lookup_def avail_indices_set) (metis length_0_conv mod_less_divisor nth_mem not_gr0)
  qed
  show "mg_inv env (map peer_config ps) (snd (Maglev_Select env now ps ctx lb))" using r by (simp add: Maglev_Select_def)
  show "i < length ps \<and> AvailableAt now (ps ! i)" if "Maglev_Select env now ps ctx lb = (Some i, lb')"
    using r that some by (cases "count_avail now ps = 0") (auto simp: Maglev_Select_def avail_indices_set)
  show "fst (Maglev_Select env now ps ctx lb) \<noteq> None" if "\<exists>p \<in> set ps. AvailableAt now p"
    using r some that count_avail_pos by (fastforce simp: Maglev_Select_def)
qed

end
