(* ===== verification/Balancers.thy ===== *)
theory Balancers
  imports Maglev
begin

text \<open>
  The strategies behind one interface: the values of \<open>LoadBalancer*\<close>, the virtual
  call of \<open>Select\<close>, and \<open>CreateLoadBalancer\<close>, which turns the name in a route's
  configuration into a strategy.
\<close>

datatype LoadBalancer =
    RoundRobinLB u64
  | SmoothWeightedRoundRobinLB "nat \<Rightarrow> int"
  | LeastConnectionLB
  | WeightedLeastConnectionLB
  | RandomLB
  | WeightedRandomLB
  | IPHashLB
  | ConsistentLB ConsistentHashLB
  | MaglevLB MaglevHashLB
  | P2CLB

fun Select ::
  "lb_env \<Rightarrow> u64 \<Rightarrow> UpstreamPeer list \<Rightarrow> RequestContext \<Rightarrow> LoadBalancer \<Rightarrow> nat option \<times> LoadBalancer" where
  "Select env now ps ctx (RoundRobinLB c) = map_prod id RoundRobinLB (RoundRobin_Select env now ps ctx c)"
| "Select env now ps ctx (SmoothWeightedRoundRobinLB cw) =
     map_prod id SmoothWeightedRoundRobinLB (SmoothWeightedRoundRobin_Select env now ps ctx cw)"
| "Select env now ps ctx LeastConnectionLB = (fst (LeastConnection_Select env now ps ctx ()), LeastConnectionLB)"
| "Select env now ps ctx WeightedLeastConnectionLB =
     (fst (WeightedLeastConnection_Select env now ps ctx ()), WeightedLeastConnectionLB)"
| "Select env now ps ctx RandomLB = (fst (Random_Select env now ps ctx ()), RandomLB)"
| "Select env now ps ctx WeightedRandomLB = (fst (WeightedRandom_Select env now ps ctx ()), WeightedRandomLB)"
| "Select env now ps ctx IPHashLB = (fst (IPHash_Select env now ps ctx ()), IPHashLB)"
| "Select env now ps ctx (ConsistentLB lb) = map_prod id ConsistentLB (ConsistentHash_Select env now ps ctx lb)"
| "Select env now ps ctx (MaglevLB lb) = map_prod id MaglevLB (Maglev_Select env now ps ctx lb)"
| "Select env now ps ctx P2CLB = (fst (P2C_Select env now ps ctx ()), P2CLB)"

definition CreateLoadBalancer :: "string \<Rightarrow> LoadBalancer option" where
  "CreateLoadBalancer algo = map_of
     [(''round_robin'', RoundRobinLB 0),
      (''smooth_weighted_round_robin'', SmoothWeightedRoundRobinLB (\<lambda>_. 0)),
      (''least_connection'', LeastConnectionLB),
      (''weighted_least_connection'', WeightedLeastConnectionLB),
      (''random'', RandomLB),
      (''weighted_random'', WeightedRandomLB),
      (''ip_hash'', IPHashLB),
      (''consistent_hash'', ConsistentLB (new_ConsistentHashLB 150 ''client_ip'')),
      (''maglev_hash'', MaglevLB (new_MaglevHashLB 65537 ''client_ip'')),
      (''p2c'', P2CLB)] algo"

text \<open>What holds of every peer list of a running gateway.\<close>

definition fleet_ok :: "UpstreamPeer list \<Rightarrow> bool" where
  "fleet_ok ps \<longleftrightarrow> names_ok (map peer_config ps) \<and> (\<forall>p \<in> set ps. active p < INT_MAX)"

fun lb_ok :: "lb_env \<Rightarrow> UpstreamPeerConfig list \<Rightarrow> LoadBalancer \<Rightarrow> bool" where
  "lb_ok env cfgs (ConsistentLB lb) \<longleftrightarrow> ch_inv env cfgs lb"
| "lb_ok env cfgs (MaglevLB lb) \<longleftrightarrow> mg_inv env cfgs lb"
| "lb_ok env cfgs _ \<longleftrightarrow> True"

lemma create_lb_ok: "CreateLoadBalancer algo = Some lb \<Longrightarrow> lb_ok env cfgs lb"
  by (auto simp: CreateLoadBalancer_def new_ch_inv new_mg_inv split: if_splits)

text \<open>The two weighted strategies share nothing out when the available peers have no weight.\<close>

fun weighted :: "LoadBalancer \<Rightarrow> bool" where
  "weighted (SmoothWeightedRoundRobinLB _) = True"
| "weighted WeightedRandomLB = True"
| "weighted _ = False"

lemma fst_eq_pair: "fst x = Some i \<Longrightarrow> x = (Some i, snd x)" by (cases x) simp

interpretation any: load_balancer Select lb_ok fleet_ok
proof unfold_locales
  fix env :: lb_env and ps :: "UpstreamPeer list" and now ctx i and lb lb' :: LoadBalancer
  assume env: "env_ok env" and ps: "fleet_ok ps" and inv: "lb_ok env (map peer_config ps) lb"
  have names: "names_ok (map peer_config ps)" using ps by (simp add: fleet_ok_def)
  have act: "\<forall>p \<in> set ps. active p < INT_MAX" using ps by (simp add: fleet_ok_def)
  show "i < length ps \<and> AvailableAt now (ps ! i)" if sel: "Select env now ps ctx lb = (Some i, lb')"
  proof (cases lb)
    case (ConsistentLB x)
    then show ?thesis using sel inv consistent.select_sound [OF env names, of x now ctx i] by (cases "ConsistentHash_Select env now ps ctx x") auto
  next
    case (MaglevLB x)
    then show ?thesis using sel inv maglev.select_sound [OF env names, of x now ctx i] by (cases "Maglev_Select env now ps ctx x") auto
  next
    case (RoundRobinLB x)
    then show ?thesis using sel rr.select_sound [OF env TrueI TrueI, of now ps ctx x i] by (cases "RoundRobin_Select env now ps ctx x") auto
  next
    case (SmoothWeightedRoundRobinLB x)
    then show ?thesis using sel swrr.select_sound [OF env TrueI TrueI, of now ps ctx x i]
      by (cases "SmoothWeightedRoundRobin_Select env now ps ctx x") auto
  next
    case LeastConnectionLB
    then show ?thesis using sel least.select_sound [OF env act TrueI fst_eq_pair, of now ctx "()" i] by simp
  next
    case WeightedLeastConnectionLB
    then show ?thesis using sel wleast.select_sound [OF env TrueI TrueI fst_eq_pair, of now ps ctx "()" i] by simp
  next
    case RandomLB
    then show ?thesis using sel random.select_sound [OF env TrueI TrueI fst_eq_pair, of now ps ctx "()" i] by simp
  next
    case WeightedRandomLB
    then show ?thesis using sel wrandom.select_sound [OF env TrueI TrueI fst_eq_pair, of now ps ctx "()" i] by simp
  next
    case IPHashLB
    then show ?thesis using sel ip_hash.select_sound [OF env TrueI TrueI fst_eq_pair, of now ps ctx "()" i] by simp
  next
    case P2CLB
    then show ?thesis using sel p2c.select_sound [OF env TrueI TrueI fst_eq_pair, of now ps ctx "()" i] by simp
  qed
  show "lb_ok env (map peer_config ps) (snd (Select env now ps ctx lb))"
    using inv consistent.select_inv [OF env names] maglev.select_inv [OF env names] by (cases lb) auto
qed

lemma Select_total:
  assumes "env_ok env" "fleet_ok ps" "lb_ok env (map peer_config ps) lb" "\<not> weighted lb" "\<exists>p \<in> set ps. AvailableAt now p"
  shows "fst (Select env now ps ctx lb) \<noteq> None"
proof -
  have ok: "names_ok (map peer_config ps)" "\<forall>p \<in> set ps. active p < INT_MAX" using assms(2) by (simp_all add: fleet_ok_def)
  note env = assms(1) and av = assms(5)
  show ?thesis
    using assms(3,4) rr.select_total [OF env TrueI TrueI av] least.select_total [OF env ok(2) TrueI av]
      wleast.select_total [OF env TrueI TrueI av] random.select_total [OF env TrueI TrueI av]
      ip_hash.select_total [OF env TrueI TrueI av] p2c.select_total [OF env TrueI TrueI av]
      consistent.select_total [OF env ok(1) _ av] maglev.select_total [OF env ok(1) _ av]
    by (cases lb) auto
qed

definition lb_call :: "lb_env \<Rightarrow> LoadBalancer \<Rightarrow> u64 \<times> UpstreamPeer list \<times> RequestContext \<Rightarrow> LoadBalancer" where
  "lb_call env lb c = (case c of (now, ps, ctx) \<Rightarrow> snd (Select env now ps ctx lb))"

lemma weighted_call [simp]: "weighted (lb_call env lb c) = weighted lb"
  by (cases lb; cases c) (auto simp: lb_call_def)

lemma weighted_create:
  "CreateLoadBalancer algo = Some lb \<Longrightarrow>
   weighted lb \<longleftrightarrow> algo \<in> {''smooth_weighted_round_robin'', ''weighted_random''}"
  by (auto simp: CreateLoadBalancer_def split: if_splits)

lemma lb_run_ok:
  assumes "env_ok env" "\<forall>(now, ps, ctx) \<in> set hist. fleet_ok ps \<and> map peer_config ps = cfgs" "lb_ok env cfgs lb"
  shows "lb_ok env cfgs (run (lb_call env) lb hist)"
  using assms(2,3)
proof (induction hist arbitrary: lb)
  case (Cons c hist)
  obtain now ps ctx where c: "c = (now, ps, ctx)" by (cases c)
  have "lb_ok env cfgs (lb_call env lb c)"
    using Cons.prems any.select_inv [OF assms(1), of ps lb now ctx] by (simp add: c lb_call_def)
  with Cons show ?case by simp
qed simp

text \<open>
  When the weighted strategies return none.  The running weights are kept in an \<open>int\<close>
  and compared with its least value; they stay above it as long as the weights are small
  beside the range of \<open>int\<close>, however the available peers change.
\<close>

definition weights_ok :: "UpstreamPeer list \<Rightarrow> bool" where
  "weights_ok ps \<longleftrightarrow> 2 * int (length ps) * (\<Sum>p \<leftarrow> ps. swrr_weight p) < 2 ^ 31"

lemma no_weight:
  fixes f :: "'a \<Rightarrow> int"
  assumes "sum_list (map f (filter P xs)) \<le> 0" "\<And>x. 0 \<le> f x" "x \<in> set xs" "P x"
  shows "f x = 0"
proof -
  have "0 \<le> sum_list (map f (filter P xs))" using assms(2) by (intro sum_list_nonneg) auto
  with assms(1) have "sum_list (map f (filter P xs)) = 0" by simp
  then show ?thesis using assms(2-4) by (subst (asm) sum_list_nonneg_eq_0_iff) auto
qed

lemma swrr_run_drift:
  assumes "\<forall>(now, ps, ctx) \<in> set hist. length ps = n \<and> (\<Sum>p \<leftarrow> ps. swrr_weight p) \<le> D"
    and "2 * D * int n < 2 ^ 31" "drift_inv D n cw"
  shows "\<exists>cw'. run (lb_call env) (SmoothWeightedRoundRobinLB cw) hist = SmoothWeightedRoundRobinLB cw' \<and> drift_inv D n cw'"
  using assms(1,3)
proof (induction hist arbitrary: cw)
  case (Cons c hist)
  obtain now ps ctx where c: "c = (now, ps, ctx)" by (cases c)
  have "drift_inv D n (snd (SmoothWeightedRoundRobin_Select env now ps ctx cw))"
    using Cons.prems swrr_drift(1) [of D ps cw env now ctx] assms(2) by (simp add: c)
  from Cons.IH [OF _ this] Cons.prems(1) show ?case by (simp add: c lb_call_def)
qed simp

lemma swrr_none:
  assumes "\<forall>(now, ps', ctx) \<in> set hist. length ps' = length ps \<and> weights_ok ps'" "weights_ok ps"
    and "fst (Select env now ps ctx (run (lb_call env) (SmoothWeightedRoundRobinLB (\<lambda>_. 0)) hist)) = None"
    and "p \<in> set ps" "AvailableAt now p"
  shows "effective_weight p \<le> 0"
proof -
  define n where "n = length ps"
  define D :: int where "D = (2 ^ 31 - 1) div (2 * int n)"
  have n: "0 < 2 * int n" using assms(4) by (cases ps) (simp_all add: n_def)
  have D: "(\<Sum>p \<leftarrow> qs. swrr_weight p) \<le> D" if "length qs = n" "weights_ok qs" for qs
  proof -
    have "2 * int n * (\<Sum>p \<leftarrow> qs. swrr_weight p) < 2 ^ 31" using that unfolding weights_ok_def by blast
    then have "(\<Sum>p \<leftarrow> qs. swrr_weight p) * (2 * int n) \<le> 2 ^ 31 - 1" by (simp add: algebra_simps)
    from zdiv_mono1 [OF this n] n show ?thesis by (simp add: D_def)
  qed
  have "D * (2 * int n) \<le> 2 ^ 31 - 1"
    unfolding D_def using div_mult_mod_eq [of "2 ^ 31 - 1" "2 * int n"] pos_mod_sign [OF n, of "2 ^ 31 - 1"] by linarith
  then have small: "2 * D * int n < 2 ^ 31" by (simp add: mult_ac)
  have "0 \<le> D" unfolding D_def using n by (intro pos_imp_zdiv_nonneg_iff [THEN iffD2]) simp_all
  then have "drift_inv D n (\<lambda>_. 0)"
    by (auto simp: drift_inv_def drift_bound_def subset_eq_atLeast0_lessThan_card atLeast0LessThan)
  from swrr_run_drift [OF _ small this, of hist env] assms(1) D obtain cw where
    cw: "run (lb_call env) (SmoothWeightedRoundRobinLB (\<lambda>_. 0)) hist = SmoothWeightedRoundRobinLB cw" "drift_inv D n cw"
    by (fastforce simp: n_def)
  have "swrr_total now ps \<le> 0"
    using swrr_drift(2) [of D ps cw env now ctx] cw(2) D [of ps] small assms(2,3) by (simp add: cw(1) n_def)
  from no_weight [OF this [unfolded swrr_total_def] swrr_weight_nonneg assms(4,5)]
  show ?thesis by (simp add: swrr_weight_def)
qed

lemma wrandom_loop_none:
  "wrandom_loop now eps r la = None \<longleftrightarrow> la = None \<and> available now eps = {}"
  by (induction now eps r la rule: wrandom_loop.induct) (auto simp: Let_def)

lemma wrandom_none:
  assumes "fst (WeightedRandom_Select env now ps ctx s) = None" "p \<in> set ps" "AvailableAt now p"
  shows "peer_weight p \<le> 0"
proof -
  obtain k where "k < length ps" "ps ! k = p" using assms(2) by (metis in_set_conv_nth)
  with assms(3) have "(k, p) \<in> available now (enumerate 0 ps)" by (simp add: available_enumerate)
  with assms(1) have "sum_list (map (\<lambda>p. max (peer_weight p) 0) (filter (AvailableAt now) ps)) \<le> 0"
    by (auto simp: WeightedRandom_Select_def Let_def wrandom_loop_none split: if_splits)
  from no_weight [OF this _ assms(2,3)] show ?thesis by simp
qed

lemma wrandom_run [simp]: "run (lb_call env) WeightedRandomLB hist = WeightedRandomLB"
  by (induction hist) (auto simp: lb_call_def)

text \<open>
  (C25) Every strategy a route can name is safe to rely on.  Whatever requests it
  has balanced while peers went up and down, the peer it returns is a peer of
  the upstream that is available at that moment.  It returns none only when no peer
  is available, or, for the two strategies that share by weight, when no available peer
  has a positive weight (for the smooth one: effective weight, and with
  weights small enough that the running weights fit an \<open>int\<close>).
\<close>

theorem balancers_pick_available:
  assumes "CreateLoadBalancer algo = Some lb" "env_ok env"
    and "\<forall>(now, ps, ctx) \<in> set hist. fleet_ok ps \<and> map peer_config ps = cfgs"
    and "fleet_ok ps" "map peer_config ps = cfgs"
  shows "case fst (Select env now ps ctx (run (lb_call env) lb hist)) of
      Some i \<Rightarrow> i < length ps \<and> AvailableAt now (ps ! i)
    | None \<Rightarrow>
        if algo = ''smooth_weighted_round_robin''
        then (\<forall>(now, ps, ctx) \<in> set hist. weights_ok ps) \<and> weights_ok ps \<longrightarrow>
          (\<forall>p \<in> set ps. AvailableAt now p \<longrightarrow> effective_weight p \<le> 0)
        else if algo = ''weighted_random'' then \<forall>p \<in> set ps. AvailableAt now p \<longrightarrow> peer_weight p \<le> 0
        else \<forall>p \<in> set ps. \<not> AvailableAt now p"
proof -
  let ?lb = "run (lb_call env) lb hist"
  have ok: "lb_ok env (map peer_config ps) ?lb"
    using lb_run_ok [OF assms(2,3)] create_lb_ok [OF assms(1)] assms(5) by simp
  have w: "weighted ?lb = weighted lb" by (rule run_preserves) simp
  show ?thesis
  proof (cases "fst (Select env now ps ctx ?lb)")
    case None
    have len: "\<forall>(now, ps', ctx) \<in> set hist. length ps' = length ps \<and> weights_ok ps'"
      if "\<forall>(now, ps, ctx) \<in> set hist. weights_ok ps"
      using that assms(3,5) by (fastforce dest: map_eq_imp_length_eq)
    have "effective_weight p \<le> 0" if "algo = ''smooth_weighted_round_robin''"
      "\<forall>(now, ps, ctx) \<in> set hist. weights_ok ps" "weights_ok ps" "p \<in> set ps" "AvailableAt now p" for p
      using swrr_none [OF len [OF that(2)] that(3) _ that(4,5)] None assms(1) that(1)
      by (auto simp: CreateLoadBalancer_def)
    moreover have "peer_weight p \<le> 0" if "algo = ''weighted_random''" "p \<in> set ps" "AvailableAt now p" for p
      using wrandom_none [OF _ that(2,3)] None assms(1) that(1) by (auto simp: CreateLoadBalancer_def)
    ultimately show ?thesis
      using None Select_total [OF assms(2,4) ok, of now ctx] w weighted_create [OF assms(1)] by auto
  next
    case (Some i)
    then show ?thesis using any.select_sound [OF assms(2,4) ok fst_eq_pair, of now ctx i] by simp
  qed
qed

abbreviation demo_calls :: "RequestContext \<Rightarrow> (u64 \<times> UpstreamPeer list \<times> RequestContext) list" where
  "demo_calls ctx \<equiv> [(5, map (\<lambda>p. p\<lparr>down := True\<rparr>) demo_fleet, ctx), (6, demo_fleet, ctx)]"

theorem balancers_pick_available_witness:
  "(\<forall>ctx. case fst (Select demo_env 9 demo_fleet ctx (run (lb_call demo_env) P2CLB (demo_calls ctx))) of
      Some i \<Rightarrow> i < 3 | None \<Rightarrow> False)
   \<and> (\<forall>ctx. case fst (Select demo_env 9 demo_fleet ctx
        (run (lb_call demo_env) (SmoothWeightedRoundRobinLB (\<lambda>_. 0)) (demo_calls ctx))) of
      Some i \<Rightarrow> i < 3 | None \<Rightarrow> False)"
proof (intro conjI allI)
  fix ctx
  have fleet: "\<forall>(now, ps, ctx) \<in> set (demo_calls ctx). fleet_ok ps \<and> map peer_config ps = map peer_config demo_fleet"
      "fleet_ok demo_fleet"
    by (simp_all add: fleet_ok_def names_ok_def demo_fleet_def demo_member_def new_UpstreamPeer_def INT_MAX_def)
  have weights: "\<forall>(now, ps, ctx) \<in> set (demo_calls ctx). weights_ok ps" "weights_ok demo_fleet"
    by (simp_all add: weights_ok_def demo_fleet_def swrr_weight_def demo_member_def new_UpstreamPeer_def)
  note pick = balancers_pick_available [OF _ demo_env_ok fleet refl, of _ _ 9 ctx]
  have "CreateLoadBalancer ''p2c'' = Some P2CLB" by (simp add: CreateLoadBalancer_def)
  from pick [OF this] show "case fst (Select demo_env 9 demo_fleet ctx (run (lb_call demo_env) P2CLB (demo_calls ctx))) of
      Some i \<Rightarrow> i < 3 | None \<Rightarrow> False"
    by (auto simp: demo_fleet_def simp del: run.simps Select.simps split: option.splits)
  have "CreateLoadBalancer ''smooth_weighted_round_robin'' = Some (SmoothWeightedRoundRobinLB (\<lambda>_. 0))"
    by (simp add: CreateLoadBalancer_def)
  from pick [OF this] weights show "case fst (Select demo_env 9 demo_fleet ctx
        (run (lb_call demo_env) (SmoothWeightedRoundRobinLB (\<lambda>_. 0)) (demo_calls ctx))) of
      Some i \<Rightarrow> i < 3 | None \<Rightarrow> False"
    by (auto simp: demo_fleet_def demo_member_def new_UpstreamPeer_def AvailableAt_def IsUp_def int_of_u64_def
        simp del: run.simps Select.simps split: option.splits)
qed

end
