(* ===== verification/Traces.thy ===== *)
theory Traces
  imports Main
begin

text \<open>
  Sequences of calls and their results, and the interface between a component and its
  abstract specification: when every call of the component is a call of the specification
  on the abstraction of its state, every sequence of calls gives the results of the
  specification.
\<close>

fun trace :: "('op \<Rightarrow> 's \<Rightarrow> 'o \<times> 's) \<Rightarrow> 'op list \<Rightarrow> 's \<Rightarrow> 'o list \<times> 's" where
  "trace step [] s = ([], s)"
| "trace step (x # xs) s = (let (r, s') = step x s; (rs, s'') = trace step xs s' in (r # rs, s''))"

lemma trace_invariant:
  assumes "I s" and "\<And>s x. I s \<Longrightarrow> I (snd (step x s))"
  shows "I (snd (trace step xs s))"
  using assms(1) by (induction xs arbitrary: s) (auto simp: Let_def case_prod_beta assms(2))

lemma trace_append:
  "snd (trace step (xs @ ys) s) = snd (trace step ys (snd (trace step xs s)))"
  by (induction xs arbitrary: s) (simp_all add: Let_def case_prod_beta)

locale refinement =
  fixes step :: "'op \<Rightarrow> 's \<Rightarrow> 'o \<times> 's" and spec :: "'op \<Rightarrow> 'a \<Rightarrow> 'o \<times> 'a"
    and inv :: "'s \<Rightarrow> bool" and abs :: "'s \<Rightarrow> 'a"
  assumes step_inv: "inv s \<Longrightarrow> inv (snd (step x s))"
    and step_abs: "inv s \<Longrightarrow> (fst (step x s), abs (snd (step x s))) = spec x (abs s)"
begin

lemma run_inv: "inv s \<Longrightarrow> inv (snd (trace step xs s))"
  by (rule trace_invariant) (auto intro: step_inv)

lemma run_refines:
  "inv s \<Longrightarrow> (fst (trace step xs s), abs (snd (trace step xs s))) = trace spec xs (abs s)"
proof (induction xs arbitrary: s)
  case (Cons x xs)
  obtain r s' where st: "step x s = (r, s')" by (cases "step x s")
  then have "inv s'" "spec x (abs s) = (r, abs s')" using step_inv [OF Cons(2), of x] step_abs [OF Cons(2), of x] by simp_all
  then have "trace spec xs (abs s') = (fst (trace step xs s'), abs (snd (trace step xs s')))"
      "trace spec (x # xs) (abs s) = (r # fst (trace spec xs (abs s')), snd (trace spec xs (abs s')))"
    using Cons(1) [of s'] by (simp_all add: Let_def case_prod_beta)
  then show ?case using st by (simp add: Let_def case_prod_beta)
qed simp

lemma run_results: "inv s \<Longrightarrow> fst (trace step xs s) = fst (trace spec xs (abs s))"
  using run_refines [of s xs] by (metis fst_conv)

lemma run_abs: "inv s \<Longrightarrow> abs (snd (trace step xs s)) = snd (trace spec xs (abs s))"
  using run_refines [of s xs] by (metis snd_conv)

end

end
