(* ===== verification/ConnPool.thy ===== *)
theory ConnPool
  imports Doubles Traces
begin

text \<open>
  \<open>UpstreamStreamPool\<close> of \<open>include/coropact/gateway/upstream_conn_pool.h\<close>: the
  idle keep-alive streams of one worker.  All idle entries stand in one list in
  the order of their release; per peer there is a vector of iterators into that
  list.  An iterator is a number that is never given out twice.  A stream is a
  value of any type, a peer its address, a point in time a number of nanoseconds.
\<close>

section \<open>State and operations\<close>

record PoolConfig =
  max_idle_per_peer :: int
  max_idle_total :: nat
  keepalive_timeout_sec :: double
  collect_stats :: bool

definition kPoolLatencyHistogramBucketCount :: nat where "kPoolLatencyHistogramBucketCount = 64"

record latency_stats =
  l_count :: u64
  l_time_ns_sum :: u64
  l_time_ns_max :: u64
  l_time_histogram :: "u64 list"

record UpstreamStreamPoolStats =
  acquire_count :: u64
  acquire_hit_count :: u64
  acquire_miss_count :: u64
  release_count :: u64
  release_drop_count :: u64
  connect_success_count :: u64
  connect_failure_count :: u64
  connect_stats :: latency_stats
  upstream_write_stats :: latency_stats
  relay_stats :: latency_stats

record 's IdleEntry =
  ie_iter :: nat
  ie_stream :: 's
  idle_since :: int
  ie_peer :: nat

type_synonym PeerQueue = "nat \<times> nat list"

record 's UpstreamStreamPool =
  pool_config :: PoolConfig
  pool_stats :: UpstreamStreamPoolStats
  idle_total :: nat
  peer_queues :: "PeerQueue list"
  idle_entries :: "'s IdleEntry list"
  next_iter :: nat

definition zero_latency :: latency_stats where
  "zero_latency = \<lparr>l_count = 0, l_time_ns_sum = 0, l_time_ns_max = 0,
     l_time_histogram = replicate kPoolLatencyHistogramBucketCount 0\<rparr>"

definition new_UpstreamStreamPool :: "PoolConfig \<Rightarrow> 's UpstreamStreamPool" where
  "new_UpstreamStreamPool cfg =
     \<lparr>pool_config = cfg,
      pool_stats = \<lparr>acquire_count = 0, acquire_hit_count = 0, acquire_miss_count = 0, release_count = 0,
        release_drop_count = 0, connect_success_count = 0, connect_failure_count = 0,
        connect_stats = zero_latency, upstream_write_stats = zero_latency, relay_stats = zero_latency\<rparr>,
      idle_total = 0, peer_queues = [], idle_entries = [], next_iter = 0\<rparr>"

text \<open>Counters are touched only when statistics are collected.\<close>

definition count_stat ::
  "(UpstreamStreamPoolStats \<Rightarrow> UpstreamStreamPoolStats) \<Rightarrow> 's UpstreamStreamPool \<Rightarrow> 's UpstreamStreamPool" where
  "count_stat f pool = (if collect_stats (pool_config pool) then pool\<lparr>pool_stats := f (pool_stats pool)\<rparr> else pool)"

definition FindPeer :: "nat \<Rightarrow> PeerQueue list \<Rightarrow> nat list option" where
  "FindPeer p qs = map_of qs p"

fun set_queue :: "nat \<Rightarrow> nat list \<Rightarrow> PeerQueue list \<Rightarrow> PeerQueue list" where
  "set_queue p q [] = []"
| "set_queue p q ((p', q') # qs) = (if p' = p then (p', q) # qs else (p', q') # set_queue p q qs)"

fun erase_queue :: "nat \<Rightarrow> PeerQueue list \<Rightarrow> PeerQueue list" where
  "erase_queue p [] = []"
| "erase_queue p ((p', q') # qs) = (if p' = p then qs else (p', q') # erase_queue p qs)"

definition erase_entry :: "nat \<Rightarrow> 's IdleEntry list \<Rightarrow> 's IdleEntry list" where
  "erase_entry it es = filter (\<lambda>e. ie_iter e \<noteq> it) es"

definition entry_stream :: "nat \<Rightarrow> 's IdleEntry list \<Rightarrow> 's option" where
  "entry_stream it es = map_option ie_stream (find (\<lambda>e. ie_iter e = it) es)"

definition pool_Acquire :: "nat \<Rightarrow> 's UpstreamStreamPool \<Rightarrow> 's option \<times> 's UpstreamStreamPool" where
  "pool_Acquire p pool0 =
     (let pool = count_stat (\<lambda>s. s\<lparr>acquire_count := acquire_count s + 1\<rparr>) pool0;
          miss = count_stat (\<lambda>s. s\<lparr>acquire_miss_count := acquire_miss_count s + 1\<rparr>) in
      case FindPeer p (peer_queues pool) of
        None \<Rightarrow> (None, miss pool)
      | Some idle \<Rightarrow>
          if idle \<noteq> [] then
            (let it = last idle in
             (entry_stream it (idle_entries pool),
              count_stat (\<lambda>s. s\<lparr>acquire_hit_count := acquire_hit_count s + 1\<rparr>)
                (pool\<lparr>peer_queues := set_queue p (butlast idle) (peer_queues pool),
                      idle_entries := erase_entry it (idle_entries pool),
                      idle_total := idle_total pool - 1\<rparr>)))
          else (None, miss (pool\<lparr>peer_queues := erase_queue p (peer_queues pool)\<rparr>)))"

definition EvictOldest :: "'s UpstreamStreamPool \<Rightarrow> bool \<times> 's UpstreamStreamPool" where
  "EvictOldest pool =
     (case idle_entries pool of
        [] \<Rightarrow> (False, pool)
      | oldest # _ \<Rightarrow>
          (let p = ie_peer oldest; it = ie_iter oldest in
           case FindPeer p (peer_queues pool) of
             None \<Rightarrow> (False, pool)
           | Some idle \<Rightarrow>
               if it \<notin> set idle then (False, pool)
               else (let idle' = remove1 it idle in
                     (True, pool\<lparr>peer_queues :=
                                (if idle' = [] then erase_queue p (peer_queues pool)
                                 else set_queue p idle' (peer_queues pool)),
                              idle_entries := erase_entry it (idle_entries pool),
                              idle_total := idle_total pool - 1\<rparr>))))"

definition pool_Release :: "int \<Rightarrow> nat \<Rightarrow> 's option \<Rightarrow> 's UpstreamStreamPool \<Rightarrow> 's UpstreamStreamPool" where
  "pool_Release now p stream pool =
     (let cfg = pool_config pool;
          drop_it = count_stat (\<lambda>s. s\<lparr>release_drop_count := release_drop_count s + 1\<rparr>);
          full = (\<lambda>pl. case FindPeer p (peer_queues pl) of
                    None \<Rightarrow> False
                  | Some idle \<Rightarrow> 0 < max_idle_per_peer cfg \<and> max_idle_per_peer cfg \<le> int (length idle)) in
      case stream of
        None \<Rightarrow> drop_it pool
      | Some st \<Rightarrow>
          if max_idle_per_peer cfg \<le> 0 \<and> max_idle_total cfg = 0 then drop_it pool
          else if full pool then drop_it pool
          else let over = (max_idle_total cfg \<noteq> 0 \<and> max_idle_total cfg \<le> idle_total pool);
                   (evicted, pool1) = (if over then EvictOldest pool else (True, pool)) in
            if \<not> evicted then drop_it pool1
            else let pool2 = (case FindPeer p (peer_queues pool1) of
                                None \<Rightarrow> pool1\<lparr>peer_queues := peer_queues pool1 @ [(p, [])]\<rparr>
                              | Some _ \<Rightarrow> pool1) in
              if full pool2 then drop_it pool2
              else let it = next_iter pool2 in
                count_stat (\<lambda>s. s\<lparr>release_count := release_count s + 1\<rparr>)
                  (pool2\<lparr>idle_entries := idle_entries pool2 @
                           [\<lparr>ie_iter = it, ie_stream = st, idle_since = now, ie_peer = p\<rparr>],
                         peer_queues := set_queue p (the (FindPeer p (peer_queues pool2)) @ [it]) (peer_queues pool2),
                         idle_total := idle_total pool2 + 1,
                         next_iter := it + 1\<rparr>))"

text \<open>\<open>now - idle_since >= duration<double>(keepalive_timeout_sec)\<close>, both sides as binary64 nanoseconds.\<close>

definition stale :: "PoolConfig \<Rightarrow> int \<Rightarrow> int \<Rightarrow> bool" where
  "stale cfg now since \<longleftrightarrow> rnd (keepalive_timeout_sec cfg * 1000000000) \<le> rnd (of_int (now - since))"

function EvictStale_loop :: "int \<Rightarrow> 's UpstreamStreamPool \<Rightarrow> 's UpstreamStreamPool" where
  "EvictStale_loop now pool =
     (case idle_entries pool of
        [] \<Rightarrow> pool
      | e # _ \<Rightarrow>
          if stale (pool_config pool) now (idle_since e)
          then (case EvictOldest pool of (True, pool') \<Rightarrow> EvictStale_loop now pool' | (False, pool') \<Rightarrow> pool')
          else pool)"
  by pat_completeness auto
termination
proof (relation "measure (\<lambda>(now, pool). length (idle_entries pool))", goal_cases)
  case (2 now pool e l ok pool')
  then show ?case
    by (auto simp: EvictOldest_def Let_def erase_entry_def le_imp_less_Suc split: option.splits if_splits)
qed simp

declare EvictStale_loop.simps [simp del]

text \<open>The latency statistics.\<close>

function histogram_bucket :: "u64 \<Rightarrow> nat \<Rightarrow> nat" where
  "histogram_bucket elapsed bucket =
     (if 1 < elapsed \<and> bucket + 1 < kPoolLatencyHistogramBucketCount
      then histogram_bucket (drop_bit 1 elapsed) (bucket + 1) else bucket)"
  by auto
termination by (relation "measure (\<lambda>(_, b). kPoolLatencyHistogramBucketCount - b)") auto

declare histogram_bucket.simps [simp del]

definition RecordHistogram :: "u64 \<Rightarrow> u64 list \<Rightarrow> u64 list" where
  "RecordHistogram elapsed h = (let b = histogram_bucket elapsed 0 in h[b := h ! b + 1])"

definition record_latency :: "u64 \<Rightarrow> latency_stats \<Rightarrow> latency_stats" where
  "record_latency ns l =
     l\<lparr>l_count := l_count l + 1, l_time_ns_sum := l_time_ns_sum l + ns, l_time_ns_max := max (l_time_ns_max l) ns,
       l_time_histogram := RecordHistogram ns (l_time_histogram l)\<rparr>"

definition RecordConnect :: "u64 \<Rightarrow> bool \<Rightarrow> 's UpstreamStreamPool \<Rightarrow> 's UpstreamStreamPool" where
  "RecordConnect ns success = count_stat (\<lambda>s.
     (let s' = (if success then s\<lparr>connect_success_count := connect_success_count s + 1\<rparr>
                else s\<lparr>connect_failure_count := connect_failure_count s + 1\<rparr>) in
      s'\<lparr>connect_stats := record_latency ns (connect_stats s')\<rparr>))"

definition RecordUpstreamWrite :: "u64 \<Rightarrow> 's UpstreamStreamPool \<Rightarrow> 's UpstreamStreamPool" where
  "RecordUpstreamWrite ns = count_stat (\<lambda>s. s\<lparr>upstream_write_stats := record_latency ns (upstream_write_stats s)\<rparr>)"

definition RecordRelay :: "u64 \<Rightarrow> 's UpstreamStreamPool \<Rightarrow> 's UpstreamStreamPool" where
  "RecordRelay ns = count_stat (\<lambda>s. s\<lparr>relay_stats := record_latency ns (relay_stats s)\<rparr>)"

section \<open>What the pool promises\<close>

text \<open>The idle streams in the order of their release, each with its peer and the time of release.\<close>

type_synonym 's idle_streams = "(nat \<times> 's \<times> int) list"

fun spec_take :: "nat \<Rightarrow> 's idle_streams \<Rightarrow> ((nat \<times> 's \<times> int) \<times> 's idle_streams) option" where
  "spec_take p [] = None"
| "spec_take p (x # xs) =
     (case spec_take p xs of
        Some (y, xs') \<Rightarrow> Some (y, x # xs')
      | None \<Rightarrow> if fst x = p then Some (x, xs) else None)"

definition spec_release :: "PoolConfig \<Rightarrow> int \<Rightarrow> nat \<Rightarrow> 's \<Rightarrow> 's idle_streams \<Rightarrow> 's idle_streams" where
  "spec_release cfg now p s l =
     (let mine = length (filter (\<lambda>x. fst x = p) l) in
      if max_idle_per_peer cfg \<le> 0 \<and> max_idle_total cfg = 0 then l
      else if 0 < max_idle_per_peer cfg \<and> max_idle_per_peer cfg \<le> int mine then l
      else (if max_idle_total cfg \<noteq> 0 \<and> max_idle_total cfg \<le> length l then tl l else l) @ [(p, s, now)])"

definition idle_streams :: "'s UpstreamStreamPool \<Rightarrow> 's idle_streams" where
  "idle_streams pool = map (\<lambda>e. (ie_peer e, ie_stream e, idle_since e)) (idle_entries pool)"

definition queue_of :: "nat \<Rightarrow> PeerQueue list \<Rightarrow> nat list" where
  "queue_of p qs = (case map_of qs p of None \<Rightarrow> [] | Some q \<Rightarrow> q)"

definition pool_inv :: "'s UpstreamStreamPool \<Rightarrow> bool" where
  "pool_inv pool \<longleftrightarrow>
     distinct (map fst (peer_queues pool)) \<and> distinct (map ie_iter (idle_entries pool)) \<and>
     (\<forall>e \<in> set (idle_entries pool). ie_iter e < next_iter pool) \<and>
     idle_total pool = length (idle_entries pool) \<and>
     (\<forall>p. queue_of p (peer_queues pool) = map ie_iter (filter (\<lambda>e. ie_peer e = p) (idle_entries pool)))"

lemma count_stat_simps [simp]:
  "pool_config (count_stat f pool) = pool_config pool" "idle_total (count_stat f pool) = idle_total pool"
  "peer_queues (count_stat f pool) = peer_queues pool" "idle_entries (count_stat f pool) = idle_entries pool"
  "next_iter (count_stat f pool) = next_iter pool" "idle_streams (count_stat f pool) = idle_streams pool"
  "pool_inv (count_stat f pool) = pool_inv pool"
  by (simp_all add: count_stat_def idle_streams_def pool_inv_def)

lemma count_stat_update [simp]:
  "(count_stat f pool)\<lparr>peer_queues := qs\<rparr> = count_stat f (pool\<lparr>peer_queues := qs\<rparr>)"
  "(count_stat f pool)\<lparr>idle_entries := es\<rparr> = count_stat f (pool\<lparr>idle_entries := es\<rparr>)"
  "(count_stat f pool)\<lparr>idle_total := n\<rparr> = count_stat f (pool\<lparr>idle_total := n\<rparr>)"
  by (simp_all add: count_stat_def)

lemma idle_streams_queues [simp]: "idle_streams (pool\<lparr>peer_queues := qs\<rparr>) = idle_streams pool"
  by (simp add: idle_streams_def)

lemma set_queue_keys [simp]: "map fst (set_queue p q qs) = map fst qs"
  by (induction p q qs rule: set_queue.induct) auto

lemma queue_of_set:
  "map_of qs p \<noteq> None \<Longrightarrow> queue_of k (set_queue p q qs) = (if k = p then q else queue_of k qs)"
  by (induction p q qs rule: set_queue.induct) (auto simp: queue_of_def split: if_splits)

lemma erase_queue_keys: "fst ` set (erase_queue p qs) \<subseteq> fst ` set qs"
  by (induction p qs rule: erase_queue.induct) auto

lemma distinct_erase_queue: "distinct (map fst qs) \<Longrightarrow> distinct (map fst (erase_queue p qs))"
  using erase_queue_keys by (induction p qs rule: erase_queue.induct) fastforce+

lemma queue_of_erase: "distinct (map fst qs) \<Longrightarrow> queue_of k (erase_queue p qs) = (if k = p then [] else queue_of k qs)"
  by (induction p qs rule: erase_queue.induct)
    (auto simp: queue_of_def map_of_eq_None_iff [symmetric] split: option.splits)

lemma queue_of_append: "queue_of k (qs @ [(p, [])]) = queue_of k qs"
  by (auto simp: queue_of_def map_of_append map_add_def split: option.splits)

lemma filter_erase_entry:
  "distinct (map ie_iter es) \<Longrightarrow> map ie_iter (filter P (erase_entry it es)) = remove1 it (map ie_iter (filter P es))"
  by (induction es) (auto simp: erase_entry_def intro!: remove1_idem)

lemma remove1_last: "distinct q \<Longrightarrow> q \<noteq> [] \<Longrightarrow> remove1 (last q) q = butlast q"
  by (induction q rule: rev_induct) (auto simp: remove1_append)

lemma distinct_iters: "distinct (map ie_iter es) \<Longrightarrow> distinct (map ie_iter (filter P es))"
  by (induction es) auto

lemma erase_entry_absent: "it \<notin> ie_iter ` set es \<Longrightarrow> erase_entry it es = es"
  by (auto simp: erase_entry_def filter_id_conv)

lemma erase_entry_keeps:
  "distinct (map ie_iter es) \<Longrightarrow> distinct (map ie_iter (erase_entry it es))"
  "it \<in> ie_iter ` set es \<Longrightarrow> distinct (map ie_iter es) \<Longrightarrow> length (erase_entry it es) = length es - 1"
proof -
  show "distinct (map ie_iter es) \<Longrightarrow> distinct (map ie_iter (erase_entry it es))"
    unfolding erase_entry_def by (rule distinct_iters)
  show "it \<in> ie_iter ` set es \<Longrightarrow> distinct (map ie_iter es) \<Longrightarrow> length (erase_entry it es) = length es - 1"
  proof (induction es)
    case (Cons e es)
    then show ?case using erase_entry_absent [of it es]
      by (cases "it = ie_iter e") (auto simp: erase_entry_def Suc_diff_Suc split: nat.splits dest: length_pos_if_in_set)
  qed simp
qed

text \<open>Taking an entry out of the list and its iterator out of the vector of its peer keeps the pool consistent.\<close>

lemma pool_inv_erase:
  assumes "pool_inv pool" "e \<in> set (idle_entries pool)" "p = ie_peer e"
    and "distinct (map fst qs)" "\<And>k. queue_of k qs = (if k = p then remove1 (ie_iter e) (queue_of k (peer_queues pool)) else queue_of k (peer_queues pool))"
  shows "pool_inv (pool\<lparr>peer_queues := qs, idle_entries := erase_entry (ie_iter e) (idle_entries pool), idle_total := idle_total pool - 1\<rparr>)"
proof -
  have d: "distinct (map ie_iter (idle_entries pool))" using assms(1) by (simp add: pool_inv_def)
  have other: "ie_iter e \<notin> set (map ie_iter (filter (\<lambda>x. ie_peer x = k) (idle_entries pool)))" if "k \<noteq> p" for k
    using d assms(2,3) that by (auto simp: distinct_map dest: inj_onD)
  have "queue_of k qs = map ie_iter (filter (\<lambda>x. ie_peer x = k) (erase_entry (ie_iter e) (idle_entries pool)))" for k
    using assms(1,5) other by (simp add: filter_erase_entry [OF d] pool_inv_def remove1_idem)
  moreover have "\<forall>x \<in> set (erase_entry (ie_iter e) (idle_entries pool)). ie_iter x < next_iter pool"
    using assms(1) by (auto simp: pool_inv_def erase_entry_def)
  moreover have "length (erase_entry (ie_iter e) (idle_entries pool)) = length (idle_entries pool) - 1"
    using erase_entry_keeps(2) d assms(2) by blast
  ultimately show ?thesis
    using assms(1,4) erase_entry_keeps(1) [OF d] by (simp add: pool_inv_def)
qed

lemma spec_take_entries:
  "distinct (map ie_iter es) \<Longrightarrow>
   spec_take p (map (\<lambda>e. (ie_peer e, ie_stream e, idle_since e)) es) =
     (if filter (\<lambda>e. ie_peer e = p) es = [] then None
      else let e = last (filter (\<lambda>e. ie_peer e = p) es) in
        Some ((ie_peer e, ie_stream e, idle_since e),
              map (\<lambda>e. (ie_peer e, ie_stream e, idle_since e)) (erase_entry (ie_iter e) es)))"
proof (induction es)
  case (Cons a es)
  have keep: "erase_entry (ie_iter a) es = es" using Cons.prems by (simp add: erase_entry_absent)
  have "ie_iter (last (filter (\<lambda>e. ie_peer e = p) es)) \<noteq> ie_iter a" if "filter (\<lambda>e. ie_peer e = p) es \<noteq> []"
  proof -
    have "last (filter (\<lambda>e. ie_peer e = p) es) \<in> set es" using last_in_set [OF that] by simp
    then have "ie_iter (last (filter (\<lambda>e. ie_peer e = p) es)) \<in> ie_iter ` set es" by (rule imageI)
    moreover have "ie_iter a \<notin> ie_iter ` set es" using Cons.prems by simp
    ultimately show ?thesis by metis
  qed
  then show ?case using Cons keep by (auto simp: Let_def erase_entry_def)
qed simp

lemma find_iter:
  "distinct (map ie_iter es) \<Longrightarrow> e \<in> set es \<Longrightarrow> find (\<lambda>x. ie_iter x = ie_iter e) es = Some e"
  by (induction es) (auto simp: rev_image_eqI)

lemma Acquire_refines:
  assumes "pool_inv pool" "pool_Acquire p pool = (r, pool')"
  shows "pool_inv pool' \<and> pool_config pool' = pool_config pool \<and>
    (case spec_take p (idle_streams pool) of
       None \<Rightarrow> r = None \<and> idle_streams pool' = idle_streams pool
     | Some ((_, s, _), l) \<Rightarrow> r = Some s \<and> idle_streams pool' = l)"
proof -
  let ?mine = "filter (\<lambda>e. ie_peer e = p) (idle_entries pool)"
  have d: "distinct (map ie_iter (idle_entries pool))" "distinct (map fst (peer_queues pool))"
    and q: "queue_of p (peer_queues pool) = map ie_iter ?mine"
    using assms(1) by (simp_all add: pool_inv_def)
  note take = spec_take_entries [OF d(1), of p, folded idle_streams_def]
  show ?thesis
  proof (cases "?mine = []")
    case True
    have "pool_inv (pool\<lparr>peer_queues := erase_queue p (peer_queues pool)\<rparr>)"
      using assms(1) q True d by (auto simp: pool_inv_def queue_of_erase distinct_erase_queue)
    with True assms q show ?thesis
      by (auto simp: take pool_Acquire_def FindPeer_def Let_def queue_of_def split: option.splits if_splits)
  next
    case False
    define e where "e = last ?mine"
    have e: "e \<in> set (idle_entries pool)" "ie_peer e = p" using last_in_set [OF False] by (auto simp: e_def)
    define idle where "idle = map ie_iter ?mine"
    have it: "last idle = ie_iter e" "idle \<noteq> []" using False by (simp_all add: idle_def e_def last_map)
    have mo: "map_of (peer_queues pool) p = Some idle"
      using q False by (cases "map_of (peer_queues pool) p") (simp_all add: queue_of_def idle_def)
    have bl: "butlast idle = remove1 (ie_iter e) idle"
      using remove1_last [of idle] distinct_iters [OF d(1)] it unfolding idle_def by metis
    define pool1 where "pool1 = pool\<lparr>peer_queues := set_queue p (butlast idle) (peer_queues pool),
        idle_entries := erase_entry (ie_iter e) (idle_entries pool), idle_total := idle_total pool - 1\<rparr>"
    have "pool_inv pool1"
      unfolding pool1_def bl
    proof (rule pool_inv_erase [OF assms(1) e(1) e(2) [symmetric]])
      show "distinct (map fst (set_queue p (remove1 (ie_iter e) idle) (peer_queues pool)))" using d(2) by simp
      show "queue_of k (set_queue p (remove1 (ie_iter e) idle) (peer_queues pool)) =
          (if k = p then remove1 (ie_iter e) (queue_of k (peer_queues pool)) else queue_of k (peer_queues pool))" for k
        using mo q by (simp add: queue_of_set idle_def)
    qed
    moreover have "r = Some (ie_stream e)" "pool' = count_stat (\<lambda>s. s\<lparr>acquire_hit_count := acquire_hit_count s + 1\<rparr>)
        (count_stat (\<lambda>s. s\<lparr>acquire_count := acquire_count s + 1\<rparr>) pool1)"
      using assms(2) mo it find_iter [OF d(1) e(1)]
      by (simp_all add: pool_Acquire_def FindPeer_def Let_def entry_stream_def pool1_def)
    moreover have "idle_streams pool1 = map (\<lambda>e. (ie_peer e, ie_stream e, idle_since e)) (erase_entry (ie_iter e) (idle_entries pool))"
        "pool_config pool1 = pool_config pool" by (simp_all add: pool1_def idle_streams_def)
    ultimately show ?thesis using False by (auto simp: take Let_def simp flip: e_def)
  qed
qed

lemma EvictOldest_refines:
  assumes "pool_inv pool" "EvictOldest pool = (ok, pool')"
  shows "pool_inv pool' \<and> pool_config pool' = pool_config pool \<and> ok = (idle_streams pool \<noteq> [])
    \<and> idle_streams pool' = tl (idle_streams pool) \<and> next_iter pool' = next_iter pool"
proof (cases "idle_entries pool")
  case Nil
  then show ?thesis using assms by (simp add: EvictOldest_def idle_streams_def)
next
  case (Cons e es)
  have d: "distinct (map ie_iter (idle_entries pool))" "distinct (map fst (peer_queues pool))"
    and q: "queue_of (ie_peer e) (peer_queues pool) = map ie_iter (filter (\<lambda>x. ie_peer x = ie_peer e) (idle_entries pool))"
    using assms(1) by (simp_all add: pool_inv_def)
  obtain idle where idle: "map_of (peer_queues pool) (ie_peer e) = Some idle" "ie_iter e \<in> set idle"
      "queue_of (ie_peer e) (peer_queues pool) = idle"
    using q Cons by (auto simp: queue_of_def split: option.splits)
  define qs where "qs = (if remove1 (ie_iter e) idle = [] then erase_queue (ie_peer e) (peer_queues pool)
      else set_queue (ie_peer e) (remove1 (ie_iter e) idle) (peer_queues pool))"
  have "pool_inv (pool\<lparr>peer_queues := qs, idle_entries := erase_entry (ie_iter e) (idle_entries pool), idle_total := idle_total pool - 1\<rparr>)"
    using idle d Cons
    by (intro pool_inv_erase [OF assms(1)]) (auto simp: qs_def queue_of_set queue_of_erase distinct_erase_queue)
  moreover have "erase_entry (ie_iter e) (idle_entries pool) = es"
    using d(1) Cons erase_entry_absent [of "ie_iter e" es] by (simp add: erase_entry_def)
  moreover have "(ok, pool') = (True, pool\<lparr>peer_queues := qs, idle_entries := erase_entry (ie_iter e) (idle_entries pool),
      idle_total := idle_total pool - 1\<rparr>)"
    using assms(2) Cons idle by (simp add: EvictOldest_def FindPeer_def Let_def qs_def)
  ultimately show ?thesis using Cons by (simp add: idle_streams_def)
qed

lemma pool_inv_insert:
  assumes "pool_inv pool" "map_of (peer_queues pool) p = Some q"
  shows "pool_inv (pool\<lparr>idle_entries := idle_entries pool @ [\<lparr>ie_iter = next_iter pool, ie_stream = st, idle_since = now, ie_peer = p\<rparr>],
      peer_queues := set_queue p (q @ [next_iter pool]) (peer_queues pool),
      idle_total := idle_total pool + 1, next_iter := next_iter pool + 1\<rparr>)"
proof -
  have "queue_of p (peer_queues pool) = q" using assms(2) by (simp add: queue_of_def)
  with assms show ?thesis
    by (auto simp: pool_inv_def queue_of_set less_Suc_eq)
qed

lemma pool_inv_new_queue:
  "pool_inv pool \<Longrightarrow> map_of (peer_queues pool) p = None \<Longrightarrow> pool_inv (pool\<lparr>peer_queues := peer_queues pool @ [(p, [])]\<rparr>)"
  by (auto simp: pool_inv_def queue_of_append map_of_eq_None_iff)

lemma mine_count:
  "pool_inv pool \<Longrightarrow> length (queue_of p (peer_queues pool)) = length (filter (\<lambda>x. fst x = p) (idle_streams pool))"
  by (simp add: pool_inv_def idle_streams_def filter_map comp_def)

definition queue_full :: "nat \<Rightarrow> 's UpstreamStreamPool \<Rightarrow> bool" where
  "queue_full p pool \<longleftrightarrow> 0 < max_idle_per_peer (pool_config pool)
     \<and> max_idle_per_peer (pool_config pool) \<le> int (length (filter (\<lambda>x. fst x = p) (idle_streams pool)))"

lemma queue_full_eq:
  assumes "pool_inv pool"
  shows "(case FindPeer p (peer_queues pool) of None \<Rightarrow> False
     | Some idle \<Rightarrow> 0 < max_idle_per_peer (pool_config pool) \<and> max_idle_per_peer (pool_config pool) \<le> int (length idle))
    = queue_full p pool"
  using mine_count [OF assms, of p]
  by (auto simp: queue_full_def FindPeer_def queue_of_def split: option.splits)

definition with_queue :: "nat \<Rightarrow> 's UpstreamStreamPool \<Rightarrow> 's UpstreamStreamPool" where
  "with_queue p pool = (case FindPeer p (peer_queues pool) of
      None \<Rightarrow> pool\<lparr>peer_queues := peer_queues pool @ [(p, [])]\<rparr> | Some _ \<Rightarrow> pool)"

lemma with_queue_refines:
  assumes "pool_inv pool"
  shows "pool_inv (with_queue p pool)" "pool_config (with_queue p pool) = pool_config pool"
    "idle_streams (with_queue p pool) = idle_streams pool"
    "map_of (peer_queues (with_queue p pool)) p \<noteq> None"
  using assms by (auto simp: with_queue_def FindPeer_def pool_inv_new_queue idle_streams_def map_add_def split: option.splits)

lemma Release_refines:
  assumes "pool_inv pool"
  shows "pool_inv (pool_Release now p st pool) \<and> pool_config (pool_Release now p st pool) = pool_config pool \<and>
    idle_streams (pool_Release now p st pool) =
      (case st of None \<Rightarrow> idle_streams pool | Some s \<Rightarrow> spec_release (pool_config pool) now p s (idle_streams pool))"
proof -
  define cfg where "cfg = pool_config pool"
  define over where "over \<longleftrightarrow> max_idle_total cfg \<noteq> 0 \<and> max_idle_total cfg \<le> idle_total pool"
  have total: "idle_total pool = length (idle_streams pool)" using assms by (simp add: pool_inv_def idle_streams_def)
  consider (drop) "st = None \<or> max_idle_per_peer cfg \<le> 0 \<and> max_idle_total cfg = 0 \<or> queue_full p pool"
    | (keep) s where "st = Some s" "\<not> (max_idle_per_peer cfg \<le> 0 \<and> max_idle_total cfg = 0)" "\<not> queue_full p pool"
    by (cases st) blast+
  then show ?thesis
  proof cases
    case drop
    then have "pool_Release now p st pool = count_stat (\<lambda>s. s\<lparr>release_drop_count := release_drop_count s + 1\<rparr>) pool"
      unfolding pool_Release_def Let_def queue_full_eq [OF assms] cfg_def by (elim disjE) (simp_all split: option.split)
    moreover have "spec_release cfg now p s (idle_streams pool) = idle_streams pool" if "st = Some s" for s
      using drop that unfolding spec_release_def queue_full_def cfg_def Let_def by auto
    ultimately show ?thesis using assms by (simp add: cfg_def split: option.split)
  next
    case keep
    obtain ok pool1 where ev: "(if over then EvictOldest pool else (True, pool)) = (ok, pool1)"
      by (cases "if over then EvictOldest pool else (True, pool)")
    have "ok \<and> pool_inv pool1 \<and> pool_config pool1 = cfg
        \<and> idle_streams pool1 = (if over then tl (idle_streams pool) else idle_streams pool)"
    proof (cases over)
      case True
      then have "idle_streams pool \<noteq> []" using total by (auto simp: over_def)
      then show ?thesis using True ev EvictOldest_refines [OF assms, of ok pool1] by (simp add: cfg_def)
    next
      case False
      then show ?thesis using ev assms by (simp add: cfg_def)
    qed
    then have p1: "ok" "pool_inv pool1" "pool_config pool1 = cfg"
        "idle_streams pool1 = (if over then tl (idle_streams pool) else idle_streams pool)"
      by blast+
    define pool2 where "pool2 = with_queue p pool1"
    note p2 = with_queue_refines [OF p1(2), of p, folded pool2_def]
    have "length (filter P (tl l)) \<le> length (filter P l)" for P :: "nat \<times> 'a \<times> int \<Rightarrow> bool" and l by (cases l) auto
    then have "length (filter (\<lambda>x. fst x = p) (idle_streams pool2)) \<le> length (filter (\<lambda>x. fst x = p) (idle_streams pool))"
      using p1(4) p2(3) by simp
    then have nf: "\<not> queue_full p pool2"
      using keep(3) p1(3) p2(2) by (auto simp: queue_full_def cfg_def)
    obtain q where q: "map_of (peer_queues pool2) p = Some q" using p2(4) by blast
    define pool3 where "pool3 = pool2\<lparr>idle_entries := idle_entries pool2 @
          [\<lparr>ie_iter = next_iter pool2, ie_stream = s, idle_since = now, ie_peer = p\<rparr>],
        peer_queues := set_queue p (q @ [next_iter pool2]) (peer_queues pool2),
        idle_total := idle_total pool2 + 1, next_iter := next_iter pool2 + 1\<rparr>"
    have "pool_Release now p st pool = count_stat (\<lambda>s. s\<lparr>release_count := release_count s + 1\<rparr>) pool3"
      using keep(2) keep(3) [folded queue_full_eq [OF assms]] nf [folded queue_full_eq [OF p2(1)]] p1(1,3) p2(2) q [folded FindPeer_def]
      unfolding pool_Release_def Let_def keep(1) over_def [symmetric] cfg_def [symmetric] with_queue_def [symmetric]
        ev pool2_def [symmetric] pool3_def
      by (simp add: ev with_queue_def [symmetric] pool2_def [symmetric] del: de_Morgan_conj)
    moreover have "pool_inv pool3" unfolding pool3_def by (rule pool_inv_insert [OF p2(1) q])
    moreover have "idle_streams pool3 = idle_streams pool2 @ [(p, s, now)]" "pool_config pool3 = pool_config pool2"
      by (simp_all add: pool3_def idle_streams_def)
    ultimately show ?thesis
      using keep p1(3,4) p2(2,3) by (auto simp: spec_release_def Let_def queue_full_def over_def cfg_def total)
  qed
qed

lemma EvictStale_refines:
  assumes "pool_inv pool"
  shows "pool_inv (EvictStale_loop now pool) \<and> pool_config (EvictStale_loop now pool) = pool_config pool \<and>
    idle_streams (EvictStale_loop now pool) = dropWhile (\<lambda>x. stale (pool_config pool) now (snd (snd x))) (idle_streams pool)"
  using assms
proof (induction now pool rule: EvictStale_loop.induct)
  case (1 now pool)
  show ?case
  proof (cases "idle_entries pool")
    case Nil
    then show ?thesis using 1(2) by (simp add: EvictStale_loop.simps [of now pool] idle_streams_def)
  next
    case (Cons e es)
    obtain ok pool' where ev: "EvictOldest pool = (ok, pool')" by (cases "EvictOldest pool")
    have idle: "idle_streams pool = (ie_peer e, ie_stream e, idle_since e) # tl (idle_streams pool)"
      using Cons by (simp add: idle_streams_def)
    note r = EvictOldest_refines [OF 1(2) ev]
    then have ok: "ok" using idle by (metis list.distinct(1))
    show ?thesis
    proof (cases "stale (pool_config pool) now (idle_since e)")
      case True
      have "EvictStale_loop now pool = EvictStale_loop now pool'"
        using Cons True ev ok by (simp add: EvictStale_loop.simps [of now pool])
      moreover have "dropWhile (\<lambda>x. stale (pool_config pool) now (snd (snd x))) (idle_streams pool)
          = dropWhile (\<lambda>x. stale (pool_config pool) now (snd (snd x))) (tl (idle_streams pool))"
        using idle True by (metis (mono_tags, lifting) dropWhile.simps(2) snd_conv)
      ultimately show ?thesis using 1(1) [OF Cons True, of _ pool'] ev ok r by simp
    next
      case False
      moreover have "dropWhile (\<lambda>x. stale (pool_config pool) now (snd (snd x))) (idle_streams pool) = idle_streams pool"
        using idle False by (metis (mono_tags, lifting) dropWhile.simps(2) snd_conv)
      ultimately show ?thesis using Cons 1(2) by (simp add: EvictStale_loop.simps [of now pool])
    qed
  qed
qed

subsection \<open>Any sequence of calls\<close>

datatype 's pool_op = PoolAcquire nat | PoolRelease int nat "'s option" | PoolEvictStale int

fun pool_step :: "'s pool_op \<Rightarrow> 's UpstreamStreamPool \<Rightarrow> 's option \<times> 's UpstreamStreamPool" where
  "pool_step (PoolAcquire p) pool = pool_Acquire p pool"
| "pool_step (PoolRelease now p s) pool = (None, pool_Release now p s pool)"
| "pool_step (PoolEvictStale now) pool = (None, EvictStale_loop now pool)"

fun spec_step :: "PoolConfig \<Rightarrow> 's pool_op \<Rightarrow> 's idle_streams \<Rightarrow> 's option \<times> 's idle_streams" where
  "spec_step cfg (PoolAcquire p) l = (case spec_take p l of None \<Rightarrow> (None, l) | Some ((_, s, _), l') \<Rightarrow> (Some s, l'))"
| "spec_step cfg (PoolRelease now p None) l = (None, l)"
| "spec_step cfg (PoolRelease now p (Some s)) l = (None, spec_release cfg now p s l)"
| "spec_step cfg (PoolEvictStale now) l = (None, dropWhile (\<lambda>x. stale cfg now (snd (snd x))) l)"

definition within_caps :: "PoolConfig \<Rightarrow> 's idle_streams \<Rightarrow> bool" where
  "within_caps cfg l \<longleftrightarrow>
     (max_idle_total cfg \<noteq> 0 \<longrightarrow> length l \<le> max_idle_total cfg) \<and>
     (0 < max_idle_per_peer cfg \<longrightarrow> (\<forall>p. int (length (filter (\<lambda>x. fst x = p) l)) \<le> max_idle_per_peer cfg)) \<and>
     (max_idle_per_peer cfg \<le> 0 \<and> max_idle_total cfg = 0 \<longrightarrow> l = [])"

lemma pool_step_refines:
  assumes "pool_inv pool"
  shows "pool_inv (snd (pool_step x pool)) \<and> pool_config (snd (pool_step x pool)) = pool_config pool \<and>
    (fst (pool_step x pool), idle_streams (snd (pool_step x pool))) = spec_step (pool_config pool) x (idle_streams pool)"
proof (cases x)
  case (PoolAcquire p)
  then show ?thesis using Acquire_refines [OF assms, of p "fst (pool_Acquire p pool)" "snd (pool_Acquire p pool)"]
    by (auto split: option.splits)
next
  case (PoolRelease now p st)
  then show ?thesis using Release_refines [OF assms, of now p st] by (cases st) simp_all
next
  case (PoolEvictStale now)
  then show ?thesis using EvictStale_refines [OF assms, of now] by simp
qed

interpretation pool: refinement pool_step "spec_step cfg" "\<lambda>pool. pool_inv pool \<and> pool_config pool = cfg" idle_streams
  for cfg
  using pool_step_refines by unfold_locales blast+

lemma spec_take_within:
  "spec_take p l = Some (y, l') \<Longrightarrow> length l' \<le> length l \<and> length (filter P l') \<le> length (filter P l)"
proof (induction l arbitrary: y l')
  case (Cons a l)
  then show ?case by (cases "spec_take p l") (auto split: if_splits)
qed simp

lemma filter_suffix_length: "length (filter P (dropWhile Q l)) \<le> length (filter P l)"
  by (induction l) auto

lemma filter_tl_length: "length (filter P (tl l)) \<le> length (filter P l)"
  by (cases l) auto

lemma within_caps_mono:
  assumes "within_caps cfg l" "length l' \<le> length l"
    and "\<And>p. length (filter (\<lambda>x. fst x = p) l') \<le> length (filter (\<lambda>x. fst x = p) l)"
  shows "within_caps cfg l'"
proof -
  have "int (length (filter (\<lambda>x. fst x = p) l')) \<le> max_idle_per_peer cfg" if "0 < max_idle_per_peer cfg" for p
  proof -
    have "int (length (filter (\<lambda>x. fst x = p) l)) \<le> max_idle_per_peer cfg" using assms(1) that by (simp add: within_caps_def)
    then show ?thesis using assms(3) [of p] by linarith
  qed
  moreover have "length l' \<le> max_idle_total cfg" if "max_idle_total cfg \<noteq> 0"
    using assms(1,2) that by (simp add: within_caps_def)
  moreover have "l' = []" if "max_idle_per_peer cfg \<le> 0 \<and> max_idle_total cfg = 0"
    using assms(1,2) that by (simp add: within_caps_def)
  ultimately show ?thesis unfolding within_caps_def by blast
qed

lemma spec_release_within:
  assumes "within_caps cfg l"
  shows "within_caps cfg (spec_release cfg now p s l)"
proof (cases "(max_idle_per_peer cfg \<le> 0 \<and> max_idle_total cfg = 0)
    \<or> (0 < max_idle_per_peer cfg \<and> max_idle_per_peer cfg \<le> int (length (filter (\<lambda>x. fst x = p) l)))")
  case True
  then show ?thesis using assms by (auto simp: spec_release_def Let_def)
next
  case False
  define l1 where "l1 = (if max_idle_total cfg \<noteq> 0 \<and> max_idle_total cfg \<le> length l then tl l else l)"
  have r: "spec_release cfg now p s l = l1 @ [(p, s, now)]"
    using False unfolding spec_release_def Let_def l1_def by (simp only: if_False HOL.simp_thms de_Morgan_disj)
  have c: "length (filter (\<lambda>x. fst x = q) l1) \<le> length (filter (\<lambda>x. fst x = q) l)" for q
    by (simp add: l1_def filter_tl_length)
  have "length (l1 @ [(p, s, now)]) \<le> max_idle_total cfg" if "max_idle_total cfg \<noteq> 0"
    using assms that by (auto simp: within_caps_def l1_def)
  moreover have "int (length (filter (\<lambda>x. fst x = q) (l1 @ [(p, s, now)]))) \<le> max_idle_per_peer cfg"
    if "0 < max_idle_per_peer cfg" for q
  proof -
    have "int (length (filter (\<lambda>x. fst x = q) l)) \<le> max_idle_per_peer cfg" using assms that by (simp add: within_caps_def)
    then show ?thesis using c [of q] False that by (cases "q = p") auto
  qed
  ultimately show ?thesis using False unfolding within_caps_def r by blast
qed

lemma spec_step_within: "within_caps cfg l \<Longrightarrow> within_caps cfg (snd (spec_step cfg x l))"
proof (induction cfg x l rule: spec_step.induct)
  case (1 cfg p l)
  then show ?case using spec_take_within within_caps_mono by (fastforce split: option.splits)
next
  case (4 cfg now l)
  then show ?case using within_caps_mono [OF 4, of "dropWhile (\<lambda>x. stale cfg now (snd (snd x))) l"]
    by (simp add: filter_suffix_length length_dropWhile_le)
qed (simp_all add: spec_release_within)

lemma new_pool_inv: "pool_inv (new_UpstreamStreamPool cfg)" "idle_streams (new_UpstreamStreamPool cfg) = []"
    "pool_config (new_UpstreamStreamPool cfg) = cfg"
  by (simp_all add: new_UpstreamStreamPool_def pool_inv_def idle_streams_def queue_of_def)

text \<open>(C27) The upstream connection pool keeps its promise on any sequence of \<open>Acquire\<close>, \<open>Release\<close> and
\<open>EvictStale\<close> calls: the vectors of iterators per peer and the list threaded through all of them answer every call
exactly as one list of idle streams in release order does (an acquire hands out the most recently released stream
of its peer, a release over the total cap first drops the oldest idle stream of any peer, an eviction drops the
stale prefix), and the idle streams never exceed the total cap nor the cap of a peer.\<close>

theorem pool_refines_idle_list:
  "let (rs, pool) = trace pool_step ops (new_UpstreamStreamPool cfg) in
     (rs, idle_streams pool) = trace (spec_step cfg) ops [] \<and> within_caps cfg (idle_streams pool)
     \<and> idle_total pool = length (idle_streams pool)"
proof -
  have inv: "pool_inv (new_UpstreamStreamPool cfg) \<and> pool_config (new_UpstreamStreamPool cfg) = cfg"
    by (simp add: new_pool_inv)
  have "within_caps cfg (snd (trace (spec_step cfg) ops []))"
    by (rule trace_invariant) (simp_all add: within_caps_def [of cfg "[]"] spec_step_within)
  moreover have "idle_total pool = length (idle_streams pool)" if "pool_inv pool" for pool :: "'a UpstreamStreamPool"
    using that by (simp add: pool_inv_def idle_streams_def)
  ultimately show ?thesis
    using pool.run_refines [OF inv, of ops] pool.run_inv [OF inv, of ops]
    by (simp add: case_prod_beta new_pool_inv) (metis snd_conv)
qed

subsection \<open>The latency histogram\<close>

lemma histogram_bucket_spec:
  "0 < e \<Longrightarrow> b < 64 \<Longrightarrow> unat e < 2 ^ (64 - b) \<Longrightarrow>
   b \<le> histogram_bucket e b \<and> histogram_bucket e b < 64 \<and>
   2 ^ (histogram_bucket e b - b) \<le> unat e \<and> unat e < 2 ^ (histogram_bucket e b - b + 1)"
proof (induction e b rule: histogram_bucket.induct)
  case (1 e b)
  show ?case
  proof (cases "1 < e \<and> b + 1 < kPoolLatencyHistogramBucketCount")
    case True
    let ?r = "histogram_bucket (drop_bit 1 e) (b + 1)"
    have half: "unat (drop_bit 1 e) = unat e div 2" by (simp add: drop_bit_eq_div unat_div)
    have ge: "2 \<le> unat e" using True by (simp add: word_less_nat_alt)
    then have "0 < drop_bit 1 e" using half by (simp add: word_less_nat_alt)
    moreover have "(2::nat) ^ (64 - b) = 2 * 2 ^ (64 - (b + 1))"
      using True by (auto simp: kPoolLatencyHistogramBucketCount_def simp flip: power_Suc)
    ultimately have "b + 1 \<le> ?r \<and> ?r < 64 \<and> 2 ^ (?r - (b + 1)) \<le> unat e div 2 \<and> unat e div 2 < 2 ^ (?r - (b + 1) + 1)"
      using 1 True half by (simp add: kPoolLatencyHistogramBucketCount_def)
    moreover have "?r - b = Suc (?r - (b + 1))" if "b + 1 \<le> ?r" using that by simp
    moreover have "2 * k \<le> n \<and> n < 4 * k" if "k \<le> n div 2" "n div 2 < 2 * k" for k n :: nat using that by linarith
    ultimately show ?thesis using True by (simp add: histogram_bucket.simps [of e b])
  next
    case False
    then have "histogram_bucket e b = b" by (subst histogram_bucket.simps) (simp only: if_False)
    moreover have "unat e < 2"
      using False 1(3,4) by (cases "b = 63") (auto simp: kPoolLatencyHistogramBucketCount_def word_less_nat_alt)
    ultimately show ?thesis using 1(2,3) by (simp add: word_less_nat_alt)
  qed
qed

lemma RecordHistogram_bucket:
  assumes "0 < e" "length h = kPoolLatencyHistogramBucketCount" "2 ^ k \<le> unat e" "unat e < 2 ^ Suc k"
  shows "RecordHistogram e h = h[k := h ! k + 1]" "k < length h"
proof -
  have "unat e < 2 ^ (64 - 0)" using unsigned_less [of e, where ?'a = nat] by simp
  from histogram_bucket_spec [OF assms(1) _ this]
  have b: "histogram_bucket e 0 < 64" "2 ^ histogram_bucket e 0 \<le> unat e" "unat e < 2 ^ Suc (histogram_bucket e 0)"
    by simp_all
  have "(2::nat) ^ k < 2 ^ Suc (histogram_bucket e 0)" "(2::nat) ^ histogram_bucket e 0 < 2 ^ Suc k"
    using b assms(3,4) by linarith+
  then have "k < Suc (histogram_bucket e 0)" "histogram_bucket e 0 < Suc k" by (meson power_strict_increasing_iff one_less_numeral_iff semiring_norm(76))+
  then have "histogram_bucket e 0 = k" by simp
  then show "RecordHistogram e h = h[k := h ! k + 1]" "k < length h"
    using b(1) assms(2) by (simp_all add: RecordHistogram_def kPoolLatencyHistogramBucketCount_def)
qed

end
