(* ===== verification/StringSearch.thy ===== *)
theory StringSearch
  imports Strings "HOL-Library.Sublist"
begin

text \<open>
  The search operations of \<open>std::string_view\<close> and \<open>std::from_chars\<close> as the HTTP
  and configuration code uses them.  A position is a natural number, \<open>npos\<close> is
  \<^const>\<open>None\<close>.  The lemmas say where the first occurrence is found in a text
  built by concatenation, and that text appended later does not move it.
\<close>

fun find_in :: "'a list \<Rightarrow> 'a list \<Rightarrow> nat option" where
  "find_in pat [] = (if pat = [] then Some 0 else None)"
| "find_in pat (c # s) = (if prefix pat (c # s) then Some 0 else map_option Suc (find_in pat s))"

definition find_from :: "'a list \<Rightarrow> 'a list \<Rightarrow> nat \<Rightarrow> nat option" where
  "find_from pat s pos = (if pos \<le> length s then map_option ((+) pos) (find_in pat (drop pos s)) else None)"

definition substr :: "'a list \<Rightarrow> nat \<Rightarrow> nat \<Rightarrow> 'a list" where
  "substr s pos n = take n (drop pos s)"

text \<open>\<open>std::from_chars\<close> into an unsigned 64-bit integer: the longest run of digits, an error when there is none or
the number does not fit; otherwise the number and the characters that follow it.\<close>

definition from_chars :: "string \<Rightarrow> (nat \<times> string) option" where
  "from_chars s =
     (let ds = takeWhile is_digit s in
      if ds = [] \<or> 2 ^ 64 \<le> dec_value ds then None else Some (dec_value ds, dropWhile is_digit s))"

lemma from_chars_to_string: "n < 2 ^ 64 \<Longrightarrow> from_chars (to_string_nat n) = Some (n, [])"
  using to_string_nat_digits [of _ n] by (simp add: from_chars_def Let_def takeWhile_eq_all_conv [THEN iffD2]
    dropWhile_eq_Nil_conv)

subsection \<open>First occurrence\<close>

lemma find_in_Some:
  "find_in pat s = Some i \<Longrightarrow> i + length pat \<le> length s \<and> prefix pat (drop i s)"
  by (induction pat s arbitrary: i rule: find_in.induct)
    (auto split: if_splits dest: prefix_length_le)

lemma find_in_append: "find_in pat s = Some i \<Longrightarrow> find_in pat (s @ t) = Some i"
proof (induction pat s arbitrary: i rule: find_in.induct)
  case (1 pat)
  then show ?case by (cases t) (auto split: if_splits)
next
  case (2 pat c s)
  show ?case
  proof (cases "prefix pat (c # s)")
    case True
    then have "prefix pat ((c # s) @ t)" by (rule prefix_prefix)
    then show ?thesis using True 2(2) by simp
  next
    case False
    then obtain j where j: "find_in pat s = Some j" "i = Suc j" using 2(2) by auto
    have "\<not> prefix pat (c # s @ t)"
    proof
      assume "prefix pat (c # s @ t)"
      moreover have "length pat \<le> length (c # s)" using find_in_Some [OF j(1)] by simp
      ultimately have "prefix pat (c # s)"
        by (metis append_Cons prefix_length_prefix prefixI)
      then show False using False by simp
    qed
    then show ?thesis using 2(1) [OF False j(1)] j(2) by simp
  qed
qed

lemma find_from_append: "find_from pat s pos = Some i \<Longrightarrow> find_from pat (s @ t) pos = Some i"
  by (auto simp: find_from_def find_in_append split: if_splits)

lemma find_from_bounds: "find_from pat s pos = Some i \<Longrightarrow> pos \<le> i \<and> i + length pat \<le> length s"
proof -
  assume "find_from pat s pos = Some i"
  then obtain j where "pos \<le> length s" "find_in pat (drop pos s) = Some j" "i = pos + j"
    by (auto simp: find_from_def split: if_splits)
  then show ?thesis using find_in_Some [of pat "drop pos s" j] by auto
qed

lemma find_in_least:
  "prefix pat (drop i s) \<Longrightarrow> i \<le> length s \<Longrightarrow> \<exists>j \<le> i. find_in pat s = Some j"
proof (induction pat s arbitrary: i rule: find_in.induct)
  case (2 pat c s)
  show ?case
  proof (cases "prefix pat (c # s)")
    case False
    then obtain k where k: "i = Suc k" using 2(2) by (cases i) auto
    then obtain j where "j \<le> k" "find_in pat s = Some j" using 2(1) [OF False, of k] 2(2,3) by auto
    then show ?thesis using False k by auto
  qed simp
qed simp

lemma find_from_least:
  "prefix pat (drop i s) \<Longrightarrow> pos \<le> i \<Longrightarrow> i \<le> length s \<Longrightarrow> \<exists>j \<le> i. pos \<le> j \<and> find_from pat s pos = Some j"
  using find_in_least [of pat "i - pos" "drop pos s"] by (force simp: find_from_def)

lemma find_from_prefix: "find_from pat s pos = Some i \<Longrightarrow> prefix pat (drop i s)"
  by (auto simp: find_from_def add.commute dest: find_in_Some split: if_splits)

text \<open>An occurrence that only shows after more text has come ends in that text.\<close>

lemma find_from_new:
  assumes "find_from pat s pos = None" "find_from pat (s @ t) pos = Some i"
  shows "length s < i + length pat"
proof (rule ccontr)
  assume "\<not> length s < i + length pat"
  then have le: "length pat \<le> length (drop i s)" "i \<le> length s" by simp_all
  have "prefix pat (drop i s @ t)" using find_from_prefix [OF assms(2)] le(2) by simp
  then have "prefix pat (drop i s)" using le(1) by (metis prefix_length_prefix prefixI)
  then show False using find_from_least [of pat i s pos] find_from_bounds [OF assms(2)] le(2) assms(1) by auto
qed

lemma find_in_char:
  "find_in [c] s = (if c \<in> set s then Some (length (takeWhile (\<lambda>x. x \<noteq> c) s)) else None)"
  by (induction s) auto

text \<open>A pattern whose first character does not occur before the place where the pattern stands is found there.\<close>

lemma find_in_at:
  "pat \<noteq> [] \<Longrightarrow> hd pat \<notin> set u \<Longrightarrow> find_in pat (u @ pat @ v) = Some (length u)"
proof (induction u)
  case Nil
  then show ?case by (cases "pat @ v") (auto intro: prefixI [OF sym])
next
  case (Cons a u)
  then have "\<not> prefix pat (a # u @ pat @ v)" by (cases pat) auto
  then show ?case using Cons by simp
qed

lemma find_in_skip:
  "pat \<noteq> [] \<Longrightarrow> hd pat \<notin> set u \<Longrightarrow> find_in pat (u @ s) = map_option ((+) (length u)) (find_in pat s)"
proof (induction u)
  case (Cons a u)
  then have "\<not> prefix pat (a # u @ s)" by (cases pat) auto
  then show ?case using Cons by (cases "find_in pat s") simp_all
qed (cases "find_in pat s"; simp)

lemma find_from_at:
  "pat \<noteq> [] \<Longrightarrow> hd pat \<notin> set u \<Longrightarrow> find_from pat (w @ u @ pat @ v) (length w) = Some (length w + length u)"
  by (simp add: find_from_def find_in_at)

lemma substr_append [simp]:
  "substr (u @ v @ w) (length u) (length v) = v"
  by (simp add: substr_def)

lemma substr_stable: "pos + n \<le> length s \<Longrightarrow> substr (s @ t) pos n = substr s pos n"
  by (simp add: substr_def)

end
