(* ===== verification/Http.thy ===== *)
theory Http
  imports StringSearch
begin

text \<open>
  The HTTP vocabulary of \<open>http_types.h\<close>, \<open>parse_status.h\<close> and \<open>header_utils.h\<close>,
  the request object of \<open>http_request.h\<close> and the response object of
  \<open>http_response.h\<close>.

  A header map is an association list with at most one entry per name; the order in
  which \<open>std::unordered_map\<close> iterates is not specified, so the operations that iterate
  take the enumeration as an argument.  The arena a request allocates from and the clock
  that stamps a response are not part of the model: the current date is an argument.
\<close>

unbundle bit_operations_syntax

section \<open>Types\<close>

datatype Method = Invalid | Get | Post | Put | Delete | Head | Options | Patch | Connect | Trace

datatype Version = Unknown | Http10 | Http11

datatype StatusCode =
    Continue | SwitchingProtocols
  | Ok | Created | NoContent | PartialContent
  | MovedPermanently | Found | SeeOther | NotModified
  | BadRequest | Unauthorized | Forbidden | NotFound | MethodNotAllowed | RequestTimeout
  | PayloadTooLarge | UriTooLong | UnsupportedMediaType | TooManyRequests | RequestHeaderFieldsTooLarge
  | InternalServerError | NotImplemented | BadGateway | ServiceUnavailable | GatewayTimeout
  | HttpVersionNotSupported

fun status_value :: "StatusCode \<Rightarrow> nat" where
  "status_value Continue = 100"
| "status_value SwitchingProtocols = 101"
| "status_value Ok = 200"
| "status_value Created = 201"
| "status_value NoContent = 204"
| "status_value PartialContent = 206"
| "status_value MovedPermanently = 301"
| "status_value Found = 302"
| "status_value SeeOther = 303"
| "status_value NotModified = 304"
| "status_value BadRequest = 400"
| "status_value Unauthorized = 401"
| "status_value Forbidden = 403"
| "status_value NotFound = 404"
| "status_value MethodNotAllowed = 405"
| "status_value RequestTimeout = 408"
| "status_value PayloadTooLarge = 413"
| "status_value UriTooLong = 414"
| "status_value UnsupportedMediaType = 415"
| "status_value TooManyRequests = 429"
| "status_value RequestHeaderFieldsTooLarge = 431"
| "status_value InternalServerError = 500"
| "status_value NotImplemented = 501"
| "status_value BadGateway = 502"
| "status_value ServiceUnavailable = 503"
| "status_value GatewayTimeout = 504"
| "status_value HttpVersionNotSupported = 505"

fun MethodToString :: "Method \<Rightarrow> string" where
  "MethodToString Get = ''GET''"
| "MethodToString Post = ''POST''"
| "MethodToString Put = ''PUT''"
| "MethodToString Delete = ''DELETE''"
| "MethodToString Head = ''HEAD''"
| "MethodToString Options = ''OPTIONS''"
| "MethodToString Patch = ''PATCH''"
| "MethodToString Connect = ''CONNECT''"
| "MethodToString Trace = ''TRACE''"
| "MethodToString Invalid = ''INVALID''"

fun StatusMessage :: "StatusCode \<Rightarrow> string" where
  "StatusMessage Continue = ''Continue''"
| "StatusMessage SwitchingProtocols = ''Switching Protocols''"
| "StatusMessage Ok = ''OK''"
| "StatusMessage Created = ''Created''"
| "StatusMessage NoContent = ''No Content''"
| "StatusMessage PartialContent = ''Partial Content''"
| "StatusMessage MovedPermanently = ''Moved Permanently''"
| "StatusMessage Found = ''Found''"
| "StatusMessage SeeOther = ''See Other''"
| "StatusMessage NotModified = ''Not Modified''"
| "StatusMessage BadRequest = ''Bad Request''"
| "StatusMessage Unauthorized = ''Unauthorized''"
| "StatusMessage Forbidden = ''Forbidden''"
| "StatusMessage NotFound = ''Not Found''"
| "StatusMessage MethodNotAllowed = ''Method Not Allowed''"
| "StatusMessage RequestTimeout = ''Request Timeout''"
| "StatusMessage PayloadTooLarge = ''Payload Too Large''"
| "StatusMessage UriTooLong = ''URI Too Long''"
| "StatusMessage UnsupportedMediaType = ''Unsupported Media Type''"
| "StatusMessage TooManyRequests = ''Too Many Requests''"
| "StatusMessage RequestHeaderFieldsTooLarge = ''Request Header Fields Too Large''"
| "StatusMessage InternalServerError = ''Internal Server Error''"
| "StatusMessage NotImplemented = ''Not Implemented''"
| "StatusMessage BadGateway = ''Bad Gateway''"
| "StatusMessage ServiceUnavailable = ''Service Unavailable''"
| "StatusMessage GatewayTimeout = ''Gateway Timeout''"
| "StatusMessage HttpVersionNotSupported = ''HTTP Version Not Supported''"

definition kAllRequestMethods :: "Method list" where
  "kAllRequestMethods = [Get, Post, Put, Delete, Head, Options, Patch, Connect, Trace]"

record PathParam =
  pp_key :: string
  pp_value :: string

datatype ParseStatus =
    Continue | GotAll | BadRequest | UriTooLong | HeaderTooLarge | PayloadTooLarge | BadMethod | BadVersion

fun ParseStatusToStatusCode :: "ParseStatus \<Rightarrow> StatusCode" where
  "ParseStatusToStatusCode UriTooLong = StatusCode.UriTooLong"
| "ParseStatusToStatusCode HeaderTooLarge = RequestHeaderFieldsTooLarge"
| "ParseStatusToStatusCode PayloadTooLarge = StatusCode.PayloadTooLarge"
| "ParseStatusToStatusCode BadMethod = NotImplemented"
| "ParseStatusToStatusCode BadVersion = HttpVersionNotSupported"
| "ParseStatusToStatusCode BadRequest = StatusCode.BadRequest"
| "ParseStatusToStatusCode Continue = StatusCode.BadRequest"
| "ParseStatusToStatusCode GotAll = StatusCode.BadRequest"

section \<open>Header names and values\<close>

definition CR :: char where "CR = CHR 0x0D"
definition LF :: char where "LF = CHR 0x0A"
definition crlf :: string where "crlf = [CR, LF]"

text \<open>\<open>std::tolower\<close> in the C locale.\<close>

definition tolower :: "char \<Rightarrow> char" where
  "tolower c = (if 65 \<le> (of_char c :: nat) \<and> (of_char c :: nat) \<le> 90 then char_of (of_char c + 32 :: nat) else c)"

definition LowerCopy :: "string \<Rightarrow> string" where
  "LowerCopy s = map tolower s"

definition Trim :: "string \<Rightarrow> string" where
  "Trim s = rev (dropWhile (\<lambda>c. c = CHR '' '') (rev (dropWhile (\<lambda>c. c = CHR '' '') s)))"

definition fnv_offset :: u64 where "fnv_offset = 14695981039346656037"
definition fnv_prime :: u64 where "fnv_prime = 1099511628211"

definition HeaderNameHash :: "string \<Rightarrow> u64" where
  "HeaderNameHash field = foldl (\<lambda>h c. (h XOR of_char (tolower c)) * fnv_prime) fnv_offset field"

fun names_equal_from :: "string \<Rightarrow> string \<Rightarrow> bool" where
  "names_equal_from (a # l) (b # r) = (if tolower a \<noteq> tolower b then False else names_equal_from l r)"
| "names_equal_from _ _ = True"

definition HeaderNameEqual :: "string \<Rightarrow> string \<Rightarrow> bool" where
  "HeaderNameEqual l r = (if length l \<noteq> length r then False else names_equal_from l r)"

definition IsRestrictedResponseHeader :: "string \<Rightarrow> bool" where
  "IsRestrictedResponseHeader k \<longleftrightarrow>
     k \<noteq> [] \<and> hd k = CHR '':'' \<or>
     k = ''content-length'' \<or> k = ''transfer-encoding'' \<or> k = ''connection'' \<or> k = ''keep-alive'' \<or>
     k = ''upgrade'' \<or> k = ''te'' \<or> k = ''trailer'' \<or> k = ''proxy-connection'' \<or>
     k = ''proxy-authenticate'' \<or> k = ''proxy-authorization'' \<or> k = ''date'' \<or> k = ''server''"

definition kServerSignature :: string where "kServerSignature = ''aresna/0.1''"

section \<open>The request\<close>

type_synonym HeaderMap = "(string \<times> string) list"

record HttpRequest =
  rq_method :: Method
  rq_version :: Version
  rq_path :: string
  rq_query :: string
  rq_body :: string
  rq_headers :: HeaderMap
  rq_host :: string
  rq_connection :: string
  rq_content_length :: string
  rq_path_params :: "PathParam list"

definition new_HttpRequest :: HttpRequest where
  "new_HttpRequest = \<lparr>rq_method = Invalid, rq_version = Unknown, rq_path = [], rq_query = [], rq_body = [],
     rq_headers = [], rq_host = [], rq_connection = [], rq_content_length = [], rq_path_params = []\<rparr>"

definition request_Reset :: "HttpRequest \<Rightarrow> HttpRequest" where
  "request_Reset r = r\<lparr>rq_method := Invalid, rq_version := Unknown, rq_path := [], rq_query := [], rq_body := [],
     rq_headers := [], rq_host := [], rq_connection := [], rq_content_length := [], rq_path_params := []\<rparr>"

fun headers_find :: "string \<Rightarrow> HeaderMap \<Rightarrow> (string \<times> string) option" where
  "headers_find f [] = None"
| "headers_find f ((k, v) # hs) = (if HeaderNameEqual f k then Some (k, v) else headers_find f hs)"

fun headers_set :: "string \<Rightarrow> string \<Rightarrow> HeaderMap \<Rightarrow> HeaderMap" where
  "headers_set f v [] = []"
| "headers_set f v ((k, w) # hs) = (if HeaderNameEqual f k then (k, v) # hs else (k, w) # headers_set f v hs)"

fun headers_erase :: "string \<Rightarrow> HeaderMap \<Rightarrow> HeaderMap" where
  "headers_erase f [] = []"
| "headers_erase f ((k, w) # hs) = (if HeaderNameEqual f k then hs else (k, w) # headers_erase f hs)"

definition CacheHeader :: "string \<Rightarrow> string \<Rightarrow> HttpRequest \<Rightarrow> HttpRequest" where
  "CacheHeader field v r =
     (if field = ''host'' then r\<lparr>rq_host := v\<rparr>
      else if field = ''connection'' then r\<lparr>rq_connection := v\<rparr>
      else if field = ''content-length'' then r\<lparr>rq_content_length := v\<rparr>
      else r)"

definition ClearCachedHeader :: "string \<Rightarrow> HttpRequest \<Rightarrow> HttpRequest" where
  "ClearCachedHeader field r =
     (if field = ''host'' then r\<lparr>rq_host := []\<rparr>
      else if field = ''connection'' then r\<lparr>rq_connection := []\<rparr>
      else if field = ''content-length'' then r\<lparr>rq_content_length := []\<rparr>
      else r)"

definition MakeHeaderKey :: "string \<Rightarrow> string" where
  "MakeHeaderKey field = LowerCopy field"

text \<open>\<open>emplace\<close> leaves an existing entry alone.\<close>

definition AddHeaderLowered :: "string \<Rightarrow> string \<Rightarrow> HttpRequest \<Rightarrow> HttpRequest" where
  "AddHeaderLowered field v r =
     (case headers_find field (rq_headers r) of
        Some _ \<Rightarrow> r
      | None \<Rightarrow> CacheHeader field (Trim v) (r\<lparr>rq_headers := rq_headers r @ [(field, Trim v)]\<rparr>))"

definition request_AddHeader :: "string \<Rightarrow> string \<Rightarrow> HttpRequest \<Rightarrow> HttpRequest" where
  "request_AddHeader field v r = AddHeaderLowered (MakeHeaderKey field) v r"

definition header :: "string \<Rightarrow> HttpRequest \<Rightarrow> string" where
  "header field r =
     (if HeaderNameEqual field ''host'' then rq_host r
      else if HeaderNameEqual field ''connection'' then rq_connection r
      else if HeaderNameEqual field ''content-length'' then rq_content_length r
      else case headers_find field (rq_headers r) of None \<Rightarrow> [] | Some (_, v) \<Rightarrow> v)"

definition set_header :: "string \<Rightarrow> string \<Rightarrow> HttpRequest \<Rightarrow> HttpRequest" where
  "set_header field v r =
     (let val = Trim v in
      case headers_find field (rq_headers r) of
        None \<Rightarrow> (let key = LowerCopy field in CacheHeader key val (r\<lparr>rq_headers := rq_headers r @ [(key, val)]\<rparr>))
      | Some (k, _) \<Rightarrow> CacheHeader k val (r\<lparr>rq_headers := headers_set field val (rq_headers r)\<rparr>))"

definition RemoveHeader :: "string \<Rightarrow> HttpRequest \<Rightarrow> bool \<times> HttpRequest" where
  "RemoveHeader field r =
     (case headers_find field (rq_headers r) of
        None \<Rightarrow> (False, r)
      | Some (k, _) \<Rightarrow>
          (let r' = ClearCachedHeader k r in (True, r'\<lparr>rq_headers := headers_erase field (rq_headers r')\<rparr>)))"

definition keep_alive :: "HttpRequest \<Rightarrow> bool" where
  "keep_alive r =
     (if rq_version r = Http11 then rq_connection r \<noteq> ''close''
      else if rq_version r = Http10 then rq_connection r = ''keep-alive''
      else False)"

fun path_param_in :: "string \<Rightarrow> PathParam list \<Rightarrow> string" where
  "path_param_in key [] = []"
| "path_param_in key (p # ps) = (if pp_key p = key then pp_value p else path_param_in key ps)"

definition path_param :: "string \<Rightarrow> HttpRequest \<Rightarrow> string" where
  "path_param key r = path_param_in key (rq_path_params r)"

section \<open>The response\<close>

record HttpResponse =
  rs_status_code :: StatusCode
  rs_close_connection :: bool
  rs_headers :: HeaderMap
  rs_body :: string

definition new_HttpResponse :: "bool \<Rightarrow> HttpResponse" where
  "new_HttpResponse close = \<lparr>rs_status_code = Ok, rs_close_connection = close, rs_headers = [], rs_body = []\<rparr>"

definition set_status_code :: "StatusCode \<Rightarrow> HttpResponse \<Rightarrow> HttpResponse" where
  "set_status_code c r = r\<lparr>rs_status_code := c\<rparr>"

definition set_body :: "string \<Rightarrow> HttpResponse \<Rightarrow> HttpResponse" where
  "set_body b r = r\<lparr>rs_body := b\<rparr>"

definition set_close_connection :: "bool \<Rightarrow> HttpResponse \<Rightarrow> HttpResponse" where
  "set_close_connection b r = r\<lparr>rs_close_connection := b\<rparr>"

text \<open>\<open>std::unordered_map<std::string, std::string>\<close>: names compare byte by byte here.\<close>

fun insert_or_assign :: "string \<Rightarrow> string \<Rightarrow> HeaderMap \<Rightarrow> HeaderMap" where
  "insert_or_assign k v [] = [(k, v)]"
| "insert_or_assign k v ((k', v') # hs) = (if k' = k then (k, v) # hs else (k', v') # insert_or_assign k v hs)"

definition set_content_type :: "string \<Rightarrow> HttpResponse \<Rightarrow> HttpResponse" where
  "set_content_type v r = r\<lparr>rs_headers := insert_or_assign ''Content-Type'' v (rs_headers r)\<rparr>"

definition response_AddHeader :: "string \<Rightarrow> string \<Rightarrow> HttpResponse \<Rightarrow> HttpResponse" where
  "response_AddHeader k v r =
     (if IsRestrictedResponseHeader (LowerCopy k) then r
      else r\<lparr>rs_headers := insert_or_assign k v (rs_headers r)\<rparr>)"

definition header_line :: "string \<times> string \<Rightarrow> string" where
  "header_line h = fst h @ '': '' @ snd h @ crlf"

definition ToString :: "string \<Rightarrow> (HeaderMap \<Rightarrow> HeaderMap) \<Rightarrow> HttpResponse \<Rightarrow> string" where
  "ToString date enum r =
     ''HTTP/1.1 '' @ to_string_nat (status_value (rs_status_code r)) @ '' '' @ StatusMessage (rs_status_code r) @ crlf @
     ''Content-Length: '' @ to_string_nat (length (rs_body r)) @ crlf @
     (if rs_close_connection r then ''Connection: close'' @ crlf else ''Connection: keep-alive'' @ crlf) @
     ''Date: '' @ date @ crlf @
     ''Server: '' @ kServerSignature @ crlf @
     concat (map header_line (enum (rs_headers r))) @
     crlf @ rs_body r"

section \<open>Header names\<close>

lemma tolower_idem [simp]: "tolower (tolower c) = tolower c"
  by (auto simp: tolower_def)

lemma LowerCopy_idem [simp]: "LowerCopy (LowerCopy s) = LowerCopy s"
  by (simp add: LowerCopy_def)

lemma length_LowerCopy [simp]: "length (LowerCopy s) = length s"
  by (simp add: LowerCopy_def)

lemma HeaderNameEqual_iff: "HeaderNameEqual l r \<longleftrightarrow> LowerCopy l = LowerCopy r"
proof -
  have "length l = length r \<Longrightarrow> names_equal_from l r \<longleftrightarrow> map tolower l = map tolower r" for l r
    by (induction l r rule: names_equal_from.induct) auto
  then show ?thesis by (auto simp: HeaderNameEqual_def LowerCopy_def dest: map_eq_imp_length_eq)
qed

lemma HeaderNameHash_lower: "HeaderNameHash (LowerCopy s) = HeaderNameHash s"
proof -
  have "foldl (\<lambda>h c. (h XOR of_char (tolower c)) * fnv_prime) a (map tolower s)
      = foldl (\<lambda>h c. (h XOR of_char (tolower c)) * fnv_prime) a s" for a :: u64
    by (induction s arbitrary: a) auto
  then show ?thesis by (simp add: HeaderNameHash_def LowerCopy_def)
qed

text \<open>The two functions an unordered map is built on agree: names the map takes for equal hash alike, so a header is
found whatever the case of its name.\<close>

lemma HeaderNameEqual_hash: "HeaderNameEqual l r \<Longrightarrow> HeaderNameHash l = HeaderNameHash r"
  by (metis HeaderNameEqual_iff HeaderNameHash_lower)

lemma dropWhile_both:
  "dropWhile P (rev (dropWhile P (rev (dropWhile P s)))) = rev (dropWhile P (rev (dropWhile P s)))"
proof -
  define t where "t = dropWhile P s"
  obtain u where u: "rev t = u @ dropWhile P (rev t)" by (metis takeWhile_dropWhile_id)
  define w where "w = rev (dropWhile P (rev t))"
  have "t = w @ rev u" using u unfolding w_def by (metis rev_append rev_rev_ident)
  moreover have "\<not> P (hd t)" if "t \<noteq> []" using that hd_dropWhile t_def by metis
  ultimately have "w = [] \<or> \<not> P (hd w)" by (metis append_is_Nil_conv hd_append2)
  then have "dropWhile P w = w" by (cases w) auto
  then show ?thesis unfolding t_def [symmetric] w_def .
qed

lemma Trim_idem [simp]: "Trim (Trim s) = Trim s"
  by (simp add: Trim_def dropWhile_both dropWhile_idem)

section \<open>The header store\<close>

definition hmap :: "HttpRequest \<Rightarrow> string \<Rightarrow> string option" where
  "hmap r = map_of (rq_headers r)"

definition or_empty :: "string option \<Rightarrow> string" where
  "or_empty x = (case x of None \<Rightarrow> [] | Some v \<Rightarrow> v)"

text \<open>Names are stored in lower case and once, and the three cached views show the stored values.\<close>

definition request_inv :: "HttpRequest \<Rightarrow> bool" where
  "request_inv r \<longleftrightarrow>
     distinct (map fst (rq_headers r)) \<and> (\<forall>k \<in> set (map fst (rq_headers r)). LowerCopy k = k) \<and>
     rq_host r = or_empty (hmap r ''host'') \<and> rq_connection r = or_empty (hmap r ''connection'') \<and>
     rq_content_length r = or_empty (hmap r ''content-length'')"

lemma lower_literals [simp]:
  "LowerCopy ''host'' = ''host''" "LowerCopy ''connection'' = ''connection''"
  "LowerCopy ''content-length'' = ''content-length''"
  by (simp_all add: LowerCopy_def tolower_def)

lemma lower_capitals [simp]:
  "LowerCopy ''Content-Type'' = ''content-type''" "LowerCopy ''Content-Length'' = ''content-length''"
  "LowerCopy ''Connection'' = ''connection''" "LowerCopy ''Date'' = ''date''" "LowerCopy ''Server'' = ''server''"
  by code_simp+

lemma headers_find_map_of:
  "\<forall>k \<in> set (map fst hs). LowerCopy k = k \<Longrightarrow>
   headers_find f hs = map_option (\<lambda>v. (LowerCopy f, v)) (map_of hs (LowerCopy f))"
  by (induction f hs rule: headers_find.induct) (auto simp: HeaderNameEqual_iff)

lemma headers_set_map_of:
  "\<forall>k \<in> set (map fst hs). LowerCopy k = k \<Longrightarrow> map_of hs (LowerCopy f) \<noteq> None \<Longrightarrow>
   map fst (headers_set f v hs) = map fst hs \<and> map_of (headers_set f v hs) = (map_of hs)(LowerCopy f \<mapsto> v)"
  by (induction f v hs rule: headers_set.induct) (auto simp: HeaderNameEqual_iff fun_eq_iff)

lemma headers_erase_map_of:
  "\<forall>k \<in> set (map fst hs). LowerCopy k = k \<Longrightarrow> distinct (map fst hs) \<Longrightarrow>
   set (map fst (headers_erase f hs)) \<subseteq> set (map fst hs) \<and> distinct (map fst (headers_erase f hs))
   \<and> map_of (headers_erase f hs) = (map_of hs)(LowerCopy f := None)"
proof (induction f hs rule: headers_erase.induct)
  case (2 f k w hs)
  then have "map_of hs k = None" by (simp add: map_of_eq_None_iff)
  then show ?case using 2 by (auto simp: HeaderNameEqual_iff fun_eq_iff)
qed simp

lemma hmap_cached [simp]:
  "hmap (CacheHeader k v r) = hmap r" "hmap (ClearCachedHeader k r) = hmap r"
  "rq_headers (CacheHeader k v r) = rq_headers r" "rq_headers (ClearCachedHeader k r) = rq_headers r"
  by (auto simp: hmap_def CacheHeader_def ClearCachedHeader_def)

lemma CacheHeader_inv:
  assumes "request_inv r" "distinct (map fst hs)" "\<forall>k \<in> set (map fst hs). LowerCopy k = k"
    and "map_of hs = (hmap r)(k \<mapsto> v)"
  shows "request_inv (CacheHeader k v (r\<lparr>rq_headers := hs\<rparr>))"
    and "hmap (CacheHeader k v (r\<lparr>rq_headers := hs\<rparr>)) = (hmap r)(k \<mapsto> v)"
  using assms by (auto simp: request_inv_def CacheHeader_def hmap_def or_empty_def)

lemma ClearCachedHeader_inv:
  assumes "request_inv r" "distinct (map fst hs)" "\<forall>k \<in> set (map fst hs). LowerCopy k = k"
    and "map_of hs = (hmap r)(k := None)"
  shows "request_inv ((ClearCachedHeader k r)\<lparr>rq_headers := hs\<rparr>)"
    and "hmap ((ClearCachedHeader k r)\<lparr>rq_headers := hs\<rparr>) = (hmap r)(k := None)"
  using assms by (auto simp: request_inv_def ClearCachedHeader_def hmap_def or_empty_def)

lemma request_inv_find: "request_inv r \<Longrightarrow> headers_find f (rq_headers r) = map_option (\<lambda>v. (LowerCopy f, v)) (hmap r (LowerCopy f))"
  by (simp add: request_inv_def headers_find_map_of hmap_def)

lemma append_entry:
  assumes "request_inv r" "hmap r k = None" "LowerCopy k = k"
  shows "distinct (map fst (rq_headers r @ [(k, v)]))" "\<forall>k \<in> set (map fst (rq_headers r @ [(k, v)])). LowerCopy k = k"
    "map_of (rq_headers r @ [(k, v)]) = (hmap r)(k \<mapsto> v)"
proof -
  have "k \<notin> fst ` set (rq_headers r)" using assms(2) by (simp add: hmap_def map_of_eq_None_iff)
  then show "distinct (map fst (rq_headers r @ [(k, v)]))" "\<forall>k \<in> set (map fst (rq_headers r @ [(k, v)])). LowerCopy k = k"
    "map_of (rq_headers r @ [(k, v)]) = (hmap r)(k \<mapsto> v)"
    using assms by (auto simp: request_inv_def hmap_def map_of_append fun_eq_iff map_add_def split: option.splits)
qed

lemma request_AddHeader_map:
  assumes "request_inv r"
  shows "request_inv (request_AddHeader f v r)"
    and "hmap (request_AddHeader f v r) = (if hmap r (LowerCopy f) = None then (hmap r)(LowerCopy f \<mapsto> Trim v) else hmap r)"
  using assms CacheHeader_inv [OF assms append_entry [OF assms]]
  by (auto simp: request_AddHeader_def MakeHeaderKey_def AddHeaderLowered_def request_inv_find hmap_def split: option.splits)

lemma set_header_map:
  assumes "request_inv r"
  shows "request_inv (set_header f v r)" and "hmap (set_header f v r) = (hmap r)(LowerCopy f \<mapsto> Trim v)"
proof -
  have "request_inv (set_header f v r) \<and> hmap (set_header f v r) = (hmap r)(LowerCopy f \<mapsto> Trim v)"
  proof (cases "hmap r (LowerCopy f)")
    case None
    then show ?thesis using CacheHeader_inv [OF assms append_entry [OF assms None]] request_inv_find [OF assms, of f]
      by (simp add: set_header_def Let_def)
  next
    case (Some w)
    have ok: "distinct (map fst (rq_headers r))" "\<forall>k \<in> set (map fst (rq_headers r)). LowerCopy k = k"
      using assms by (simp_all add: request_inv_def)
    have "map fst (headers_set f (Trim v) (rq_headers r)) = map fst (rq_headers r)
        \<and> map_of (headers_set f (Trim v) (rq_headers r)) = (hmap r)(LowerCopy f \<mapsto> Trim v)"
      using headers_set_map_of [OF ok(2), of f "Trim v"] Some by (simp add: hmap_def)
    then show ?thesis
      using CacheHeader_inv [OF assms, of "headers_set f (Trim v) (rq_headers r)"] request_inv_find [OF assms, of f] Some ok
      by (simp add: set_header_def Let_def)
  qed
  then show "request_inv (set_header f v r)" "hmap (set_header f v r) = (hmap r)(LowerCopy f \<mapsto> Trim v)" by auto
qed

lemma RemoveHeader_map:
  assumes "request_inv r" "RemoveHeader f r = (b, r')"
  shows "request_inv r' \<and> b = (hmap r (LowerCopy f) \<noteq> None) \<and> hmap r' = (hmap r)(LowerCopy f := None)"
proof (cases "hmap r (LowerCopy f)")
  case None
  then show ?thesis using assms request_inv_find [OF assms(1), of f] by (auto simp: RemoveHeader_def)
next
  case (Some w)
  have ok: "distinct (map fst (rq_headers r))" "\<forall>k \<in> set (map fst (rq_headers r)). LowerCopy k = k"
    using assms(1) by (simp_all add: request_inv_def)
  note er = headers_erase_map_of [OF ok(2,1), of f]
  have "\<forall>k \<in> set (map fst (headers_erase f (rq_headers r))). LowerCopy k = k" using er ok(2) by blast
  then show ?thesis
    using assms Some er ClearCachedHeader_inv [OF assms(1), of "headers_erase f (rq_headers r)"] request_inv_find [OF assms(1), of f]
    by (auto simp: RemoveHeader_def Let_def hmap_def)
qed

lemma header_map:
  assumes "request_inv r"
  shows "header f r = or_empty (hmap r (LowerCopy f))"
proof -
  have "header f r = (case headers_find f (rq_headers r) of None \<Rightarrow> [] | Some (_, v) \<Rightarrow> v)"
    if "\<not> HeaderNameEqual f ''host''" "\<not> HeaderNameEqual f ''connection''" "\<not> HeaderNameEqual f ''content-length''"
    using that by (simp add: header_def)
  then show ?thesis
    using assms request_inv_find [OF assms, of f]
    by (cases "hmap r (LowerCopy f)") (auto simp: header_def HeaderNameEqual_iff request_inv_def or_empty_def)
qed

datatype header_op = AddOp string string | SetOp string string | RemoveOp string

fun header_step :: "HttpRequest \<Rightarrow> header_op \<Rightarrow> HttpRequest" where
  "header_step r (AddOp f v) = request_AddHeader f v r"
| "header_step r (SetOp f v) = set_header f v r"
| "header_step r (RemoveOp f) = snd (RemoveHeader f r)"

fun spec_header_step :: "(string \<Rightarrow> string option) \<Rightarrow> header_op \<Rightarrow> string \<Rightarrow> string option" where
  "spec_header_step m (AddOp f v) = (if m (LowerCopy f) = None then m(LowerCopy f \<mapsto> Trim v) else m)"
| "spec_header_step m (SetOp f v) = m(LowerCopy f \<mapsto> Trim v)"
| "spec_header_step m (RemoveOp f) = m(LowerCopy f := None)"

lemma header_step_map:
  "request_inv r \<Longrightarrow> request_inv (header_step r x) \<and> hmap (header_step r x) = spec_header_step (hmap r) x"
  using request_AddHeader_map set_header_map RemoveHeader_map [OF _ surjective_pairing] by (cases x) auto

lemma header_run_map:
  "request_inv r \<Longrightarrow> request_inv (run header_step r xs) \<and> hmap (run header_step r xs) = run spec_header_step (hmap r) xs"
  by (induction xs arbitrary: r) (use header_step_map in auto)

lemma new_request_inv [simp]: "request_inv new_HttpRequest" "hmap new_HttpRequest = Map.empty"
  by (simp_all add: request_inv_def new_HttpRequest_def hmap_def or_empty_def)

text \<open>(C39) The header store of a request is a map on names without regard to case: after any sequence of
\<open>AddHeader\<close> (first value wins), \<open>set_header\<close> (last value wins) and \<open>RemoveHeader\<close> calls, looking up any name in any
capitalisation gives the trimmed value the map holds or the empty string, also for the three names that are answered
from cached views.\<close>

theorem header_store_is_a_map:
  "header f (run header_step new_HttpRequest ops) = or_empty (run spec_header_step Map.empty ops (LowerCopy f))"
  using header_run_map [OF new_request_inv(1), of ops] header_map [of "run header_step new_HttpRequest ops" f] by simp

section \<open>Framing of a response\<close>

definition lines_text :: "string list \<Rightarrow> string" where
  "lines_text ls = concat (map (\<lambda>l. l @ crlf) ls)"

definition plain :: "string \<Rightarrow> bool" where
  "plain s \<longleftrightarrow> CR \<notin> set s \<and> LF \<notin> set s"

lemma lines_text_simps [simp]:
  "lines_text [] = []" "lines_text (l # ls) = l @ crlf @ lines_text ls" "lines_text (ls @ ms) = lines_text ls @ lines_text ms"
  by (simp_all add: lines_text_def)

lemma crlf_simps [simp]: "crlf \<noteq> []" "hd crlf = CR" "length crlf = 2" "crlf @ s = CR # LF # s" "CR \<noteq> LF" "LF \<noteq> CR"
  by (simp_all add: crlf_def CR_def LF_def)

text \<open>In a block of non-empty lines the first blank line is the one after the last line.\<close>

lemma find_blank_line:
  assumes "ls \<noteq> []" "\<forall>l \<in> set ls. l \<noteq> [] \<and> plain l"
  shows "find_in (crlf @ crlf) (lines_text ls @ crlf @ t) = Some (length (lines_text ls) - 2)"
  using assms
proof (induction ls)
  case (Cons l ls)
  then have l: "hd (crlf @ crlf) \<notin> set l" by (simp add: plain_def)
  show ?case
  proof (cases ls)
    case Nil
    then show ?thesis using l find_in_at [of "crlf @ crlf" l t] by (simp add: crlf_def)
  next
    case (Cons m ms)
    have m: "m \<noteq> []" "hd m \<noteq> CR" using Cons.prems Cons by (auto simp: plain_def) (metis list.set_sel(1))
    have ge: "2 \<le> length (lines_text ls)" using Cons by simp
    obtain c cs where c: "m = c # cs" "c \<noteq> CR" using m by (cases m) auto
    have "find_in (crlf @ crlf) (CR # LF # lines_text ls @ crlf @ t)
        = map_option (Suc \<circ> Suc) (find_in (crlf @ crlf) (lines_text ls @ crlf @ t))"
      using Cons c by (simp add: crlf_def option.map_comp comp_def)
    moreover have "find_in (crlf @ crlf) (lines_text ls @ crlf @ t) = Some (length (lines_text ls) - 2)"
      using Cons.IH Cons.prems Cons by simp
    ultimately have "find_in (crlf @ crlf) (CR # LF # lines_text ls @ crlf @ t) = Some (length (lines_text ls))"
      using ge by simp
    then show ?thesis using find_in_skip [OF _ l, of "CR # LF # lines_text ls @ crlf @ t"] by simp
  qed
qed simp

definition response_lines :: "string \<Rightarrow> (HeaderMap \<Rightarrow> HeaderMap) \<Rightarrow> HttpResponse \<Rightarrow> string list" where
  "response_lines date enum r =
     [''HTTP/1.1 '' @ to_string_nat (status_value (rs_status_code r)) @ '' '' @ StatusMessage (rs_status_code r),
      ''Content-Length: '' @ to_string_nat (length (rs_body r)),
      (if rs_close_connection r then ''Connection: close'' else ''Connection: keep-alive''),
      ''Date: '' @ date, ''Server: '' @ kServerSignature]
     @ map (\<lambda>h. fst h @ '': '' @ snd h) (enum (rs_headers r))"

lemma ToString_lines: "ToString date enum r = lines_text (response_lines date enum r) @ crlf @ rs_body r"
  by (simp add: ToString_def response_lines_def lines_text_def header_line_def [abs_def] o_def crlf_def)

datatype response_op = StatusOp StatusCode | BodyOp string | TypeOp string | HeaderOp string string | CloseOp bool

fun response_step :: "HttpResponse \<Rightarrow> response_op \<Rightarrow> HttpResponse" where
  "response_step r (StatusOp c) = set_status_code c r"
| "response_step r (BodyOp b) = set_body b r"
| "response_step r (TypeOp v) = set_content_type v r"
| "response_step r (HeaderOp k v) = response_AddHeader k v r"
| "response_step r (CloseOp b) = set_close_connection b r"

definition name_ok :: "string \<Rightarrow> bool" where
  "name_ok k \<longleftrightarrow> k \<noteq> [] \<and> plain k \<and> CHR '':'' \<notin> set k"

fun op_plain :: "response_op \<Rightarrow> bool" where
  "op_plain (TypeOp v) = plain v"
| "op_plain (HeaderOp k v) = (name_ok k \<and> plain v)"
| "op_plain _ = True"

definition response_inv :: "HttpResponse \<Rightarrow> bool" where
  "response_inv r \<longleftrightarrow>
     (\<forall>(k, v) \<in> set (rs_headers r). name_ok k \<and> plain v \<and> \<not> IsRestrictedResponseHeader (LowerCopy k))"

lemma set_insert_or_assign: "set (insert_or_assign k v hs) \<subseteq> insert (k, v) (set hs)"
  by (induction k v hs rule: insert_or_assign.induct) auto

lemma response_step_inv: "response_inv r \<Longrightarrow> op_plain x \<Longrightarrow> response_inv (response_step r x)"
proof (cases x)
  case (TypeOp v)
  assume "response_inv r" "op_plain x"
  moreover have "name_ok ''Content-Type'' \<and> \<not> IsRestrictedResponseHeader (LowerCopy ''Content-Type'')"
    by (simp add: name_ok_def plain_def CR_def LF_def IsRestrictedResponseHeader_def)
  ultimately show ?thesis
    using TypeOp set_insert_or_assign [of "''Content-Type''" v "rs_headers r"]
    by (auto simp: response_inv_def set_content_type_def)
next
  case (HeaderOp k v)
  assume "response_inv r" "op_plain x"
  then show ?thesis
    using HeaderOp set_insert_or_assign [of k v "rs_headers r"]
    by (auto simp: response_inv_def response_AddHeader_def)
qed (simp_all add: response_inv_def set_status_code_def set_body_def set_close_connection_def)

lemma response_run_inv: "response_inv r \<Longrightarrow> \<forall>x \<in> set xs. op_plain x \<Longrightarrow> response_inv (run response_step r xs)"
  by (induction xs arbitrary: r) (auto simp: response_step_inv)

definition field_name :: "string \<Rightarrow> string" where
  "field_name l = LowerCopy (takeWhile (\<lambda>c. c \<noteq> CHR '':'') l)"

lemma field_name_entry: "CHR '':'' \<notin> set k \<Longrightarrow> field_name (k @ '': '' @ v) = LowerCopy k"
proof -
  assume "CHR '':'' \<notin> set k"
  then have "takeWhile (\<lambda>c. c \<noteq> CHR '':'') (k @ '': '' @ v) = k" by (induction k) auto
  then show ?thesis by (simp add: field_name_def)
qed

lemma digits_plain: "plain (to_string_nat n)"
  using to_string_nat_digits [of CR n] to_string_nat_digits [of LF n] by (auto simp: plain_def is_digit_def CR_def LF_def)

lemma plain_simps [simp]:
  "plain (a @ b) \<longleftrightarrow> plain a \<and> plain b" "plain (c # a) \<longleftrightarrow> c \<noteq> CR \<and> c \<noteq> LF \<and> plain a" "plain []"
  by (auto simp: plain_def)

lemma StatusMessage_plain: "plain (StatusMessage c)"
  by (cases c) (simp_all add: CR_def LF_def)

lemma response_lines_ok:
  assumes "response_inv r" "plain date" "set (enum (rs_headers r)) = set (rs_headers r)"
  shows "\<forall>l \<in> set (response_lines date enum r). l \<noteq> [] \<and> plain l"
proof -
  have "k @ '': '' @ v \<noteq> [] \<and> plain (k @ '': '' @ v)" if "(k, v) \<in> set (enum (rs_headers r))" for k v
    using assms(1,3) that by (auto simp: response_inv_def name_ok_def CR_def LF_def)
  then have "\<forall>l \<in> set (map (\<lambda>h. fst h @ '': '' @ snd h) (enum (rs_headers r))). l \<noteq> [] \<and> plain l" by auto
  then show ?thesis
    using assms(2) by (simp add: response_lines_def digits_plain StatusMessage_plain kServerSignature_def CR_def LF_def)
qed

lemma field_names_entries:
  assumes "\<forall>(k, v) \<in> set hs. name_ok k \<and> \<not> IsRestrictedResponseHeader (LowerCopy k)" "IsRestrictedResponseHeader n"
  shows "filter (\<lambda>l. field_name l = n) (map (\<lambda>h. fst h @ '': '' @ snd h) hs) = []"
proof -
  have "field_name (k @ '': '' @ v) \<noteq> n" if "(k, v) \<in> set hs" for k v
    using assms that field_name_entry [of k v] by (auto simp: name_ok_def)
  then show ?thesis by (force simp: filter_empty_conv)
qed

text \<open>(C40) A response is framed by its own first header: whatever a handler sets through the interface, with names
that are tokens and values without line breaks, the serialised response consists of lines, the first blank line of the
text is the end of the head, what follows it is exactly the body, and of the header lines one and only one is a
\<open>Content-Length\<close>, with the length of that body, and none a \<open>Transfer-Encoding\<close>.\<close>

theorem response_framing:
  assumes "\<forall>x \<in> set ops. op_plain x" "plain date" "\<forall>hs. set (enum hs) = set hs"
  shows "let r = run response_step (new_HttpResponse close) ops; ls = response_lines date enum r in
    ToString date enum r = lines_text ls @ crlf @ rs_body r
    \<and> find_in (crlf @ crlf) (ToString date enum r) = Some (length (lines_text ls) - 2)
    \<and> filter (\<lambda>l. field_name l = ''content-length'') (tl ls) = [''Content-Length: '' @ to_string_nat (length (rs_body r))]
    \<and> filter (\<lambda>l. field_name l = ''transfer-encoding'') (tl ls) = []"
proof -
  define r where "r = run response_step (new_HttpResponse close) ops"
  define ls where "ls = response_lines date enum r"
  have inv: "response_inv r"
    unfolding r_def by (rule response_run_inv [OF _ assms(1)]) (simp add: response_inv_def new_HttpResponse_def)
  have lines: "\<forall>l \<in> set ls. l \<noteq> [] \<and> plain l" and ne: "ls \<noteq> []"
    using response_lines_ok [OF inv assms(2), of enum] assms(3) by (simp_all add: ls_def response_lines_def)
  have hs: "\<forall>(k, v) \<in> set (enum (rs_headers r)). name_ok k \<and> \<not> IsRestrictedResponseHeader (LowerCopy k)"
    using inv assms(3) by (auto simp: response_inv_def)
  have fixed: "filter (\<lambda>l. field_name l = n) (tl ls) =
      filter (\<lambda>l. field_name l = n) [''Content-Length: '' @ to_string_nat (length (rs_body r)),
        (if rs_close_connection r then ''Connection: close'' else ''Connection: keep-alive''),
        ''Date: '' @ date, ''Server: '' @ kServerSignature]" if "IsRestrictedResponseHeader n" for n
    using field_names_entries [OF hs that] by (simp add: ls_def response_lines_def)
  have names: "field_name (''Content-Length: '' @ x) = ''content-length''" "field_name ''Connection: close'' = ''connection''"
    "field_name ''Connection: keep-alive'' = ''connection''" "field_name (''Date: '' @ x) = ''date''"
    "field_name (''Server: '' @ x) = ''server''" for x
    using field_name_entry [of "''Content-Length''" x] field_name_entry [of "''Connection''" "''close''"]
      field_name_entry [of "''Connection''" "''keep-alive''"] field_name_entry [of "''Date''" x]
      field_name_entry [of "''Server''" x] by simp_all
  show ?thesis
    unfolding Let_def r_def [symmetric] ls_def [symmetric]
    using find_blank_line [OF ne lines, of "rs_body r"] ToString_lines [of date enum r, folded ls_def]
      fixed [of "''content-length''"] fixed [of "''transfer-encoding''"] names
    by (simp add: IsRestrictedResponseHeader_def)
qed

theorem response_framing_witness:
  "find_in (crlf @ crlf) (ToString ''Sun'' rev
      (run response_step (new_HttpResponse False) [HeaderOp ''X-A'' ''1'', HeaderOp ''te'' ''2'', BodyOp ''hi'']))
   = Some (length (lines_text (response_lines ''Sun'' rev
      (run response_step (new_HttpResponse False) [HeaderOp ''X-A'' ''1'', HeaderOp ''te'' ''2'', BodyOp ''hi'']))) - 2)"
proof -
  have "\<forall>x \<in> set [HeaderOp ''X-A'' ''1'', HeaderOp ''te'' ''2'', BodyOp ''hi'']. op_plain x" "plain ''Sun''"
    by (simp_all add: name_ok_def CR_def LF_def)
  then show ?thesis
    using response_framing [of "[HeaderOp ''X-A'' ''1'', HeaderOp ''te'' ''2'', BodyOp ''hi'']" "''Sun''" rev False]
    unfolding Let_def by (metis set_rev)
qed

end
