(* ===== verification/HttpParser.thy ===== *)
theory HttpParser
  imports Http
begin

text \<open>
  The incremental request parser of \<open>http_parser.h\<close> and \<open>http_parser.cc\<close>.  The parser
  keeps the bytes it has not consumed and, on every call, parses them again from the start;
  the loop over the header lines works on positions, as in the source.

  Shown: what is accepted is framed unambiguously; a well-formed request is accepted with
  the fields it was built from; the verdict does not depend on how the bytes were cut into
  chunks, with one exception that is made precise; and a request without any header line is
  never accepted on its own.
\<close>

section \<open>The parser\<close>

definition kMaxRequestLine :: nat where "kMaxRequestLine = 8 * 1024"
definition kMaxHeaderLine :: nat where "kMaxHeaderLine = 8 * 1024"
definition kMaxHeaderCount :: nat where "kMaxHeaderCount = 100"
definition kMaxHeaderBytes :: nat where "kMaxHeaderBytes = 32 * 1024"
definition kMaxBodyBytes :: nat where "kMaxBodyBytes = 8 * 1024 * 1024"

record HttpParser =
  pending :: string
  request :: HttpRequest
  body_bytes_expected :: nat
  header_count :: nat
  header_bytes :: nat
  content_length_seen :: bool
  got_all :: bool

definition new_HttpParser :: HttpParser where
  "new_HttpParser = \<lparr>pending = [], request = new_HttpRequest, body_bytes_expected = 0, header_count = 0,
     header_bytes = 0, content_length_seen = False, got_all = False\<rparr>"

definition parser_Reset :: "HttpParser \<Rightarrow> HttpParser" where
  "parser_Reset p = p\<lparr>request := request_Reset (request p), body_bytes_expected := 0, header_count := 0,
     header_bytes := 0, content_length_seen := False, got_all := False\<rparr>"

definition set_request :: "(HttpRequest \<Rightarrow> HttpRequest) \<Rightarrow> HttpParser \<Rightarrow> HttpParser" where
  "set_request f p = p\<lparr>request := f (request p)\<rparr>"

text \<open>\<open>if (auto st = ...; st != ParseStatus::Continue) return st;\<close>\<close>

definition and_then :: "ParseStatus \<times> 'p \<Rightarrow> ('p \<Rightarrow> ParseStatus \<times> 'p) \<Rightarrow> ParseStatus \<times> 'p" where
  "and_then r f = (if fst r \<noteq> Continue then r else f (snd r))"

lemma and_then_cong [fundef_cong]:
  "r = r' \<Longrightarrow> (\<And>q. r' = (Continue, q) \<Longrightarrow> f q = g q) \<Longrightarrow> and_then r f = and_then r' g"
  by (auto simp: and_then_def) (metis prod.collapse)

definition ParseMethod :: "string \<Rightarrow> HttpParser \<Rightarrow> bool \<times> HttpParser" where
  "ParseMethod s p =
     (let is = (\<lambda>m. (True, set_request (\<lambda>r. r\<lparr>rq_method := m\<rparr>) p)) in
      if length s = 3 then
        if s = ''GET'' then is Get else if s = ''PUT'' then is Put else (False, p)
      else if length s = 4 then
        if s = ''POST'' then is Post else if s = ''HEAD'' then is Head else (False, p)
      else if length s = 5 then
        if s = ''PATCH'' then is Patch else if s = ''TRACE'' then is Trace else (False, p)
      else if length s = 6 then
        if s = ''DELETE'' then is Delete else (False, p)
      else if length s = 7 then
        if s = ''OPTIONS'' then is Options else if s = ''CONNECT'' then is Connect else (False, p)
      else (False, p))"

definition ParseVersion :: "string \<Rightarrow> HttpParser \<Rightarrow> bool \<times> HttpParser" where
  "ParseVersion s p =
     (if s = ''HTTP/1.1'' then (True, set_request (\<lambda>r. r\<lparr>rq_version := Http11\<rparr>) p)
      else if s = ''HTTP/1.0'' then (True, set_request (\<lambda>r. r\<lparr>rq_version := Http10\<rparr>) p)
      else (False, p))"

definition ParseRequestLine :: "string \<Rightarrow> HttpParser \<Rightarrow> ParseStatus \<times> HttpParser" where
  "ParseRequestLine line p =
     (case find_from '' '' line 0 of
        None \<Rightarrow> (BadRequest, p)
      | Some m_end \<Rightarrow>
     (case find_from '' '' line (m_end + 1) of
        None \<Rightarrow> (BadRequest, p)
      | Some uri_end \<Rightarrow>
          (let method_sv = substr line 0 m_end;
               uri_sv = substr line (m_end + 1) (uri_end - m_end - 1);
               version_sv = drop (uri_end + 1) line;
               (ok1, p1) = ParseMethod method_sv p in
           if \<not> ok1 then (BadMethod, p1)
           else let (ok2, p2) = ParseVersion version_sv p1 in
             if \<not> ok2 then (BadVersion, p2)
             else case find_from ''?'' uri_sv 0 of
                 None \<Rightarrow> (Continue, set_request (\<lambda>r. r\<lparr>rq_path := uri_sv, rq_query := []\<rparr>) p2)
               | Some q_pos \<Rightarrow> (Continue, set_request (\<lambda>r. r\<lparr>rq_path := substr uri_sv 0 q_pos,
                                   rq_query := drop (q_pos + 1) uri_sv\<rparr>) p2))))"

definition ParseHeaderLine :: "string \<Rightarrow> HttpParser \<Rightarrow> ParseStatus \<times> HttpParser" where
  "ParseHeaderLine line p0 =
     (let p1 = p0\<lparr>header_count := header_count p0 + 1\<rparr> in
      if kMaxHeaderCount < header_count p1 then (HeaderTooLarge, p1)
      else let p2 = p1\<lparr>header_bytes := header_bytes p1 + length line\<rparr> in
      if kMaxHeaderBytes < header_bytes p2 then (HeaderTooLarge, p2)
      else case find_from '':'' line 0 of
        None \<Rightarrow> (BadRequest, p2)
      | Some colon \<Rightarrow>
          (let field = substr line 0 colon;
               val = dropWhile (\<lambda>c. c = CHR '' '') (drop (colon + 1) line) in
           if field = [] then (BadRequest, p2)
           else let lower_field = MakeHeaderKey field in
           if lower_field = ''transfer-encoding'' then (BadRequest, p2)
           else if lower_field = ''content-length'' then
             (if content_length_seen p2 then (BadRequest, p2)
              else let p3 = p2\<lparr>content_length_seen := True\<rparr> in
                case from_chars val of
                  None \<Rightarrow> (BadRequest, p3)
                | Some (len, rest) \<Rightarrow>
                    if rest \<noteq> [] then (BadRequest, p3)
                    else if kMaxBodyBytes < len then (PayloadTooLarge, p3)
                    else (Continue, set_request (AddHeaderLowered lower_field val) (p3\<lparr>body_bytes_expected := len\<rparr>)))
           else (Continue, set_request (AddHeaderLowered lower_field val) p2)))"

text \<open>The loop over the header lines.\<close>

function header_loop :: "nat \<Rightarrow> nat \<Rightarrow> HttpParser \<Rightarrow> ParseStatus \<times> HttpParser" where
  "header_loop headers_end pos p =
     (if pos < headers_end then
        (case find_from crlf (pending p) pos of
           None \<Rightarrow> (BadRequest, p)
         | Some e \<Rightarrow>
             if headers_end < e then (BadRequest, p)
             else if kMaxHeaderLine < e - pos then (HeaderTooLarge, p)
             else and_then (ParseHeaderLine (substr (pending p) pos (e - pos)) p)
                    (\<lambda>p'. header_loop headers_end (e + 2) p'))
      else (Continue, p))"
  by pat_completeness auto
termination
  by (relation "measure (\<lambda>(headers_end, pos, _). headers_end - pos)") (auto dest: find_from_bounds)

declare header_loop.simps [simp del]

definition parse_body :: "nat \<Rightarrow> HttpParser \<Rightarrow> ParseStatus \<times> HttpParser" where
  "parse_body headers_end p =
     (let body_begin = headers_end + 4 in
      if length (pending p) - body_begin < body_bytes_expected p then (Continue, p)
      else let p' = (if body_bytes_expected p \<noteq> 0
               then set_request (\<lambda>r. r\<lparr>rq_body := substr (pending p) body_begin (body_bytes_expected p)\<rparr>) p
               else p) in
        (GotAll, p'\<lparr>pending := drop (body_begin + body_bytes_expected p') (pending p'), got_all := True\<rparr>))"

definition parse_headers :: "nat \<Rightarrow> HttpParser \<Rightarrow> ParseStatus \<times> HttpParser" where
  "parse_headers line_end p =
     (let headers_begin = line_end + 2 in
      case find_from (crlf @ crlf) (pending p) headers_begin of
        None \<Rightarrow> (if kMaxHeaderBytes < length (pending p) - headers_begin then HeaderTooLarge else Continue, p)
      | Some headers_end \<Rightarrow> and_then (header_loop headers_end headers_begin p) (parse_body headers_end))"

definition ParseAvailable :: "HttpParser \<Rightarrow> ParseStatus \<times> HttpParser" where
  "ParseAvailable p0 =
     (if got_all p0 then (GotAll, p0)
      else let p = parser_Reset p0 in
        case find_from crlf (pending p) 0 of
          None \<Rightarrow> (if kMaxRequestLine < length (pending p) then UriTooLong else Continue, p)
        | Some line_end \<Rightarrow>
            if kMaxRequestLine < line_end then (UriTooLong, p)
            else and_then (ParseRequestLine (substr (pending p) 0 line_end) p) (parse_headers line_end))"

definition Feed :: "string \<Rightarrow> HttpParser \<Rightarrow> ParseStatus \<times> HttpParser" where
  "Feed bytes p = ParseAvailable (p\<lparr>pending := pending p @ bytes\<rparr>)"

definition TakeRequest :: "HttpParser \<Rightarrow> HttpRequest \<times> HttpParser" where
  "TakeRequest p = (request p, parser_Reset (p\<lparr>request := new_HttpRequest\<rparr>))"

section \<open>Bytes that arrive later\<close>

definition with_more :: "string \<Rightarrow> HttpParser \<Rightarrow> HttpParser" where
  "with_more t p = p\<lparr>pending := pending p @ t\<rparr>"

lemma with_more_simps [simp]:
  "pending (with_more t p) = pending p @ t" "request (with_more t p) = request p"
  "body_bytes_expected (with_more t p) = body_bytes_expected p" "got_all (with_more t p) = got_all p"
  "with_more t (set_request f p) = set_request f (with_more t p)"
  "with_more [] p = p" "with_more t (with_more u p) = with_more (u @ t) p"
  by (simp_all add: with_more_def set_request_def)

lemma set_request_simps [simp]:
  "pending (set_request f p) = pending p" "request (set_request f p) = f (request p)"
  "body_bytes_expected (set_request f p) = body_bytes_expected p" "header_count (set_request f p) = header_count p"
  "header_bytes (set_request f p) = header_bytes p" "content_length_seen (set_request f p) = content_length_seen p"
  "got_all (set_request f p) = got_all p"
  by (simp_all add: set_request_def)

lemma ParseMethod_more: "ParseMethod s (with_more t p) = apsnd (with_more t) (ParseMethod s p)"
  by (simp add: ParseMethod_def Let_def)

lemma ParseVersion_more: "ParseVersion s (with_more t p) = apsnd (with_more t) (ParseVersion s p)"
  by (simp add: ParseVersion_def)

lemma ParseRequestLine_more: "ParseRequestLine l (with_more t p) = apsnd (with_more t) (ParseRequestLine l p)"
  by (simp add: ParseRequestLine_def ParseMethod_more ParseVersion_more Let_def split: option.split prod.split)

lemma ParseHeaderLine_more: "ParseHeaderLine l (with_more t p) = apsnd (with_more t) (ParseHeaderLine l p)"
  by (simp add: ParseHeaderLine_def with_more_def set_request_def Let_def split: option.split prod.split)

lemma ParseMethod_pending [simp]: "pending (snd (ParseMethod s p)) = pending p" "got_all (snd (ParseMethod s p)) = got_all p"
  by (simp_all add: ParseMethod_def Let_def)

lemma ParseVersion_pending [simp]: "pending (snd (ParseVersion s p)) = pending p" "got_all (snd (ParseVersion s p)) = got_all p"
  by (simp_all add: ParseVersion_def)

lemma ParseRequestLine_pending [simp]:
  "pending (snd (ParseRequestLine l p)) = pending p" "got_all (snd (ParseRequestLine l p)) = got_all p"
  by (simp_all add: ParseRequestLine_def Let_def case_prod_beta split: option.split)

lemma ParseHeaderLine_pending [simp]:
  "pending (snd (ParseHeaderLine l p)) = pending p" "got_all (snd (ParseHeaderLine l p)) = got_all p"
  by (simp_all add: ParseHeaderLine_def Let_def split: option.split prod.split)

lemma header_loop_pending [simp]: "pending (snd (header_loop e pos p)) = pending p \<and> got_all (snd (header_loop e pos p)) = got_all p"
proof (induction e pos p rule: header_loop.induct)
  case (1 e pos p)
  let ?r = "\<lambda>j. ParseHeaderLine (substr (pending p) pos (j - pos)) p"
  have "pending (snd (header_loop e (j + 2) (snd (?r j)))) = pending (snd (?r j))
      \<and> got_all (snd (header_loop e (j + 2) (snd (?r j)))) = got_all (snd (?r j))"
    if "pos < e" "find_from crlf (pending p) pos = Some j" "\<not> e < j" "\<not> kMaxHeaderLine < j - pos" "fst (?r j) = Continue" for j
    using that by (intro 1) (auto simp: prod_eq_iff)
  then show ?case
    by (auto simp: header_loop.simps [of e pos p] and_then_def split: option.split)
qed

lemma and_then_more:
  assumes "r' = apsnd (with_more t) r" "\<And>q. r = (Continue, q) \<Longrightarrow> g (with_more t q) = apsnd (with_more t) (f q)"
  shows "and_then r' g = apsnd (with_more t) (and_then r f)"
  using assms by (cases r) (auto simp: and_then_def)

lemma header_loop_more:
  "e \<le> length (pending p) \<Longrightarrow> prefix crlf (drop e (pending p)) \<Longrightarrow>
   header_loop e pos (with_more t p) = apsnd (with_more t) (header_loop e pos p)"
proof (induction e pos p rule: header_loop.induct)
  case (1 e pos p)
  show ?case
  proof (cases "pos < e")
    case True
    obtain j where j: "j \<le> e" "pos \<le> j" "find_from crlf (pending p) pos = Some j"
      using find_from_least [OF 1(3), of pos] True 1(2) by auto
    then have jt: "find_from crlf (pending p @ t) pos = Some j" by (simp add: find_from_append)
    have line: "substr (pending p @ t) pos (j - pos) = substr (pending p) pos (j - pos)"
      using find_from_bounds [OF j(3)] by (intro substr_stable) simp
    show ?thesis
    proof (cases "kMaxHeaderLine < j - pos")
      case True
      then show ?thesis using j jt \<open>pos < e\<close> by (simp add: header_loop.simps [of e pos])
    next
      case False
      have "header_loop e (j + 2) (with_more t q) = apsnd (with_more t) (header_loop e (j + 2) q)"
        if q: "ParseHeaderLine (substr (pending p) pos (j - pos)) p = (Continue, q)" for q
      proof (rule 1(1) [OF True j(3) _ False q])
        show "\<not> e < j" using j(1) by simp
        show "e \<le> length (pending q)" "prefix crlf (drop e (pending q))"
          using 1(2,3) ParseHeaderLine_pending(1) [of "substr (pending p) pos (j - pos)" p] q by simp_all
      qed
      then show ?thesis
        using j jt line True False and_then_more [OF ParseHeaderLine_more]
        by (simp add: header_loop.simps [of e pos])
    qed
  qed (simp add: header_loop.simps [of e pos])
qed

text \<open>The size of the header block, its blank line included, as far as it has arrived.\<close>

definition head_size :: "string \<Rightarrow> nat" where
  "head_size s =
     (case find_from crlf s 0 of
        None \<Rightarrow> 0
      | Some l \<Rightarrow> (case find_from (crlf @ crlf) s (l + 2) of None \<Rightarrow> length s | Some e \<Rightarrow> e + 4) - (l + 2))"

definition fresh :: "string \<Rightarrow> HttpParser" where
  "fresh s = new_HttpParser\<lparr>pending := s\<rparr>"

lemma request_Reset_new [simp]: "request_Reset r = new_HttpRequest"
  by (simp add: request_Reset_def new_HttpRequest_def)

lemma parser_Reset_fresh [simp]: "parser_Reset p = fresh (pending p)"
  by (simp add: parser_Reset_def fresh_def new_HttpParser_def)

lemma fresh_simps [simp]:
  "pending (fresh s) = s" "request (fresh s) = new_HttpRequest" "body_bytes_expected (fresh s) = 0"
  "header_count (fresh s) = 0" "header_bytes (fresh s) = 0" "content_length_seen (fresh s) = False"
  "got_all (fresh s) = False" "with_more t (fresh s) = fresh (s @ t)"
  by (simp_all add: fresh_def new_HttpParser_def with_more_def)

lemma ParseAvailable_fresh: "\<not> got_all p \<Longrightarrow> ParseAvailable p = ParseAvailable (fresh (pending p))"
  by (simp add: ParseAvailable_def)

lemma Feed_new: "Feed s new_HttpParser = ParseAvailable (fresh s)"
  by (simp add: Feed_def new_HttpParser_def fresh_def)

lemma parse_headers_continue:
  "parse_headers l p = (Continue, p') \<Longrightarrow> \<not> got_all p \<Longrightarrow> pending p' = pending p \<and> \<not> got_all p'"
  using header_loop_pending [of _ "l + 2" p]
  by (auto simp: parse_headers_def parse_body_def and_then_def Let_def split: option.splits if_splits)

lemma ParseAvailable_continue:
  assumes "ParseAvailable p = (Continue, p')" "\<not> got_all p"
  shows "pending p' = pending p \<and> \<not> got_all p'"
proof (cases "find_from crlf (pending p) 0")
  case None
  then show ?thesis using assms by (auto simp: ParseAvailable_def split: if_splits)
next
  case (Some l)
  let ?r = "ParseRequestLine (substr (pending p) 0 l) (fresh (pending p))"
  have "fst ?r = Continue" "parse_headers l (snd ?r) = (Continue, p')"
    using assms Some by (auto simp: ParseAvailable_def Let_def and_then_def split: if_splits)
  then show ?thesis using parse_headers_continue [of l "snd ?r" p'] by simp
qed

lemma parse_body_more:
  "headers_end + 4 \<le> length (pending p) \<Longrightarrow> fst (parse_body headers_end p) \<noteq> Continue \<Longrightarrow>
   parse_body headers_end (with_more t p) = apsnd (with_more t) (parse_body headers_end p)"
  by (auto simp: parse_body_def Let_def substr_stable with_more_def set_request_def split: if_splits)

lemma parse_headers_more:
  assumes "fst (parse_headers l p) \<noteq> Continue" "find_from crlf (pending p) 0 = Some l"
    and "head_size (pending p @ t) \<le> kMaxHeaderBytes"
  shows "parse_headers l (with_more t p) = apsnd (with_more t) (parse_headers l p)"
proof (cases "find_from (crlf @ crlf) (pending p) (l + 2)")
  case (Some e)
  note b = find_from_bounds [OF Some]
  have "prefix crlf (drop e (pending p))" using find_from_prefix [OF Some] append_prefixD by blast
  then have "header_loop e (l + 2) (with_more t p) = apsnd (with_more t) (header_loop e (l + 2) p)"
    using b by (intro header_loop_more) simp_all
  moreover have "parse_body e (with_more t q) = apsnd (with_more t) (parse_body e q)"
    if "header_loop e (l + 2) p = (Continue, q)" for q
    using that assms(1) Some b header_loop_pending [of e "l + 2" p]
    by (intro parse_body_more) (simp_all add: parse_headers_def and_then_def)
  ultimately show ?thesis
    using Some find_from_append [OF Some, of t] and_then_more by (simp add: parse_headers_def)
next
  case None
  then have big: "kMaxHeaderBytes < length (pending p) - (l + 2)" using assms(1) by (auto simp: parse_headers_def split: if_splits)
  have l: "find_from crlf (pending p @ t) 0 = Some l" by (rule find_from_append [OF assms(2)])
  have "length (pending p) < e + 4" if "find_from (crlf @ crlf) (pending p @ t) (l + 2) = Some e" for e
    using find_from_new [OF None that] by (simp add: crlf_def)
  then have "kMaxHeaderBytes < head_size (pending p @ t)"
    using big l by (fastforce simp: head_size_def split: option.split)
  then show ?thesis using assms(3) by simp
qed

lemma ParseAvailable_more:
  assumes "fst (ParseAvailable (fresh s)) \<noteq> Continue" "head_size (s @ t) \<le> kMaxHeaderBytes"
    and "find_from crlf (s @ t) 0 \<noteq> Some kMaxRequestLine"
  shows "ParseAvailable (fresh (s @ t)) = apsnd (with_more t) (ParseAvailable (fresh s))"
proof (cases "find_from crlf s 0")
  case None
  then have long: "kMaxRequestLine < length s" using assms(1) by (auto simp: ParseAvailable_def split: if_splits)
  show ?thesis
  proof (cases "find_from crlf (s @ t) 0")
    case None
    then show ?thesis using \<open>find_from crlf s 0 = None\<close> long by (simp add: ParseAvailable_def)
  next
    case (Some l)
    have "length s < l + 2" using find_from_new [OF \<open>find_from crlf s 0 = None\<close> Some] by simp
    moreover have "l \<noteq> kMaxRequestLine" using assms(3) Some by simp
    ultimately have "kMaxRequestLine < l" using long by linarith
    then show ?thesis using Some \<open>find_from crlf s 0 = None\<close> long by (simp add: ParseAvailable_def)
  qed
next
  case (Some l)
  have line: "substr (s @ t) 0 l = substr s 0 l" using find_from_bounds [OF Some] by (intro substr_stable) simp
  let ?r = "ParseRequestLine (substr s 0 l) (fresh s)"
  have r: "ParseRequestLine (substr s 0 l) (fresh (s @ t)) = apsnd (with_more t) ?r"
    using ParseRequestLine_more [of "substr s 0 l" t "fresh s"] by simp
  have "parse_headers l (with_more t q) = apsnd (with_more t) (parse_headers l q)"
    if "\<not> kMaxRequestLine < l" "?r = (Continue, q)" for q
  proof -
    have "pending q = s" using ParseRequestLine_pending(1) [of "substr s 0 l" "fresh s"] that(2) by simp
    then show ?thesis
      using assms that Some by (intro parse_headers_more) (simp_all add: ParseAvailable_def and_then_def)
  qed
  then show ?thesis
    using Some find_from_append [OF Some, of t] line and_then_more [OF r]
    by (simp add: ParseAvailable_def Let_def)
qed

text \<open>Feeding chunks until the parser has a verdict: the verdict, the parser, and the bytes not fed.\<close>

fun feed_chunks :: "string list \<Rightarrow> HttpParser \<Rightarrow> ParseStatus \<times> HttpParser \<times> string" where
  "feed_chunks [] p = (Continue, p, [])"
| "feed_chunks (c # cs) p =
     (let (st, p') = Feed c p in if st = Continue then feed_chunks cs p' else (st, p', concat cs))"

lemma feed_chunks_whole:
  assumes "\<not> got_all p" "cs \<noteq> []" "head_size (pending p @ concat cs) \<le> kMaxHeaderBytes"
    and "find_from crlf (pending p @ concat cs) 0 \<noteq> Some kMaxRequestLine"
    and "feed_chunks cs p = (st, p', rest)"
  shows "ParseAvailable (fresh (pending p @ concat cs)) = (st, with_more rest p')"
  using assms
proof (induction cs arbitrary: p)
  case (Cons c cs)
  obtain st1 p1 where f: "Feed c p = (st1, p1)" by (cases "Feed c p")
  have pa: "ParseAvailable (fresh (pending p @ c)) = (st1, p1)"
    using f ParseAvailable_fresh [of "p\<lparr>pending := pending p @ c\<rparr>"] Cons(2) by (simp add: Feed_def)
  show ?case
  proof (cases "st1 = Continue")
    case True
    then have p1: "pending p1 = pending p @ c" "\<not> got_all p1" using ParseAvailable_continue [of "fresh (pending p @ c)" p1] pa by auto
    show ?thesis
    proof (cases "cs = []")
      case True
      then show ?thesis using Cons(6) f pa \<open>st1 = Continue\<close> by simp
    next
      case False
      then show ?thesis using Cons(1) [of p1] Cons(4,5,6) f p1 True by simp
    qed
  next
    case False
    then have "st = st1" "p' = p1" "rest = concat cs" using Cons(6) f by auto
    then show ?thesis using ParseAvailable_more [of "pending p @ c" "concat cs"] pa False Cons(4,5) by simp
  qed
qed simp

text \<open>(C30) The verdict does not depend on how the network cut the bytes: when the header block with its blank line is
within the limit of 32 KiB and the request line is not of exactly the maximal length, feeding the chunks one by one
until the parser answers gives the status, the request and the leftover bytes that feeding all of them at once
gives.\<close>

theorem chunking_irrelevant:
  assumes "head_size (concat cs) \<le> kMaxHeaderBytes" "find_from crlf (concat cs) 0 \<noteq> Some kMaxRequestLine"
    and "feed_chunks cs new_HttpParser = (st, p, rest)"
  shows "Feed (concat cs) new_HttpParser = (st, with_more rest p)"
proof (cases "cs = []")
  case True
  then show ?thesis using assms(3)
    by (auto simp: Feed_def ParseAvailable_def new_HttpParser_def find_from_def fresh_def crlf_def kMaxRequestLine_def)
next
  case False
  then show ?thesis
    using feed_chunks_whole [of new_HttpParser cs st p rest] assms
    by (simp add: Feed_def new_HttpParser_def fresh_def)
qed

theorem chunking_irrelevant_witness:
  "fst (feed_chunks [''GO '', ''/ X'' @ crlf, ''rest''] new_HttpParser) = BadMethod \<and>
   fst (Feed (''GO / X'' @ crlf @ ''rest'') new_HttpParser) = BadMethod"
proof -
  have "feed_chunks [''GO '', ''/ X'' @ crlf, ''rest''] new_HttpParser = (BadMethod, fresh (''GO / X'' @ crlf), ''rest'')"
    by (simp add: Feed_def new_HttpParser_def ParseAvailable_def Let_def fresh_def find_from_def crlf_def CR_def LF_def
          kMaxRequestLine_def ParseRequestLine_def ParseMethod_def substr_def and_then_def)
  moreover have "head_size (concat [''GO '', ''/ X'' @ crlf, ''rest'']) \<le> kMaxHeaderBytes"
      "find_from crlf (concat [''GO '', ''/ X'' @ crlf, ''rest'']) 0 \<noteq> Some kMaxRequestLine"
    by (simp_all add: head_size_def find_from_def crlf_def CR_def LF_def kMaxHeaderBytes_def kMaxRequestLine_def)
  ultimately show ?thesis
    using chunking_irrelevant [of "[''GO '', ''/ X'' @ crlf, ''rest'']"] by simp
qed

section \<open>Well-formed requests are accepted\<close>

record message =
  msg_method :: Method
  msg_version :: Version
  msg_path :: string
  msg_query :: string
  msg_headers :: HeaderMap
  msg_body :: string

definition version_text :: "Version \<Rightarrow> string" where
  "version_text v = (case v of Http11 \<Rightarrow> ''HTTP/1.1'' | Http10 \<Rightarrow> ''HTTP/1.0'' | Unknown \<Rightarrow> [])"

definition uri_text :: "message \<Rightarrow> string" where
  "uri_text m = msg_path m @ (if msg_query m = [] then [] else ''?'' @ msg_query m)"

definition request_line :: "message \<Rightarrow> string" where
  "request_line m = MethodToString (msg_method m) @ '' '' @ uri_text m @ '' '' @ version_text (msg_version m)"

definition header_text :: "string \<times> string \<Rightarrow> string" where
  "header_text h = fst h @ '': '' @ snd h"

definition message_text :: "message \<Rightarrow> string" where
  "message_text m = lines_text (request_line m # map header_text (msg_headers m)) @ crlf @ msg_body m"

definition header_wf :: "string \<Rightarrow> string \<times> string \<Rightarrow> bool" where
  "header_wf body h \<longleftrightarrow>
     name_ok (fst h) \<and> plain (snd h) \<and> Trim (snd h) = snd h \<and> LowerCopy (fst h) \<noteq> ''transfer-encoding'' \<and>
     length (header_text h) \<le> kMaxHeaderLine \<and>
     (LowerCopy (fst h) = ''content-length'' \<longrightarrow> snd h = to_string_nat (length body))"

definition message_wf :: "message \<Rightarrow> bool" where
  "message_wf m \<longleftrightarrow>
     msg_method m \<noteq> Invalid \<and> msg_version m \<noteq> Unknown \<and>
     plain (uri_text m) \<and> CHR '' '' \<notin> set (uri_text m) \<and> CHR ''?'' \<notin> set (msg_path m) \<and>
     length (request_line m) \<le> kMaxRequestLine \<and>
     msg_headers m \<noteq> [] \<and> length (msg_headers m) \<le> kMaxHeaderCount \<and>
     sum_list (map (length \<circ> header_text) (msg_headers m)) \<le> kMaxHeaderBytes \<and>
     (\<forall>h \<in> set (msg_headers m). header_wf (msg_body m) h) \<and>
     distinct (map (LowerCopy \<circ> fst) (msg_headers m)) \<and>
     length (msg_body m) \<le> kMaxBodyBytes \<and>
     (msg_body m \<noteq> [] \<longrightarrow> ''content-length'' \<in> set (map (LowerCopy \<circ> fst) (msg_headers m)))"

subsection \<open>The request line\<close>

lemma ParseMethod_print:
  "m \<noteq> Invalid \<Longrightarrow> ParseMethod (MethodToString m) p = (True, set_request (\<lambda>r. r\<lparr>rq_method := m\<rparr>) p)"
  by (cases m) (simp_all add: ParseMethod_def Let_def)

lemma ParseVersion_print:
  "v \<noteq> Unknown \<Longrightarrow> ParseVersion (version_text v) p = (True, set_request (\<lambda>r. r\<lparr>rq_version := v\<rparr>) p)"
  by (cases v) (simp_all add: ParseVersion_def version_text_def)

lemma MethodToString_chars: "CHR '' '' \<notin> set (MethodToString m)" "plain (MethodToString m)"
  by (cases m; simp add: CR_def LF_def)+

lemma version_text_plain: "plain (version_text v)"
  by (cases v) (simp_all add: version_text_def CR_def LF_def)

lemma find_from_char_at: "c \<notin> set u \<Longrightarrow> find_from [c] (w @ u @ c # v) (length w) = Some (length w + length u)"
  using find_from_at [of "[c]" u w v] by simp

lemma ParseRequestLine_print:
  assumes "msg_method m \<noteq> Invalid" "msg_version m \<noteq> Unknown"
    and "CHR '' '' \<notin> set (uri_text m)" "CHR ''?'' \<notin> set (msg_path m)"
  shows "ParseRequestLine (request_line m) p = (Continue, set_request (\<lambda>r. r\<lparr>rq_method := msg_method m,
      rq_version := msg_version m, rq_path := msg_path m, rq_query := msg_query m\<rparr>) p)"
proof -
  let ?M = "MethodToString (msg_method m)" and ?U = "uri_text m" and ?V = "version_text (msg_version m)"
  have line: "request_line m = ?M @ CHR '' '' # ?U @ CHR '' '' # ?V" by (simp add: request_line_def)
  have m_end: "find_from '' '' (request_line m) 0 = Some (length ?M)"
    using find_from_char_at [OF MethodToString_chars(1), of "[]"] by (simp add: line)
  have uri_end: "find_from '' '' (request_line m) (length ?M + 1) = Some (length ?M + 1 + length ?U)"
    using find_from_char_at [OF assms(3), of "?M @ '' ''"] by (simp add: line)
  have parts: "substr (request_line m) 0 (length ?M) = ?M"
      "substr (request_line m) (length ?M + 1) (length ?M + 1 + length ?U - length ?M - 1) = ?U"
      "drop (length ?M + 1 + length ?U + 1) (request_line m) = ?V"
    by (simp_all add: line substr_def)
  have query: "(case find_from ''?'' ?U 0 of
        None \<Rightarrow> (Continue, set_request (\<lambda>r. r\<lparr>rq_path := ?U, rq_query := []\<rparr>) q)
      | Some q_pos \<Rightarrow> (Continue, set_request (\<lambda>r. r\<lparr>rq_path := substr ?U 0 q_pos, rq_query := drop (q_pos + 1) ?U\<rparr>) q))
      = (Continue, set_request (\<lambda>r. r\<lparr>rq_path := msg_path m, rq_query := msg_query m\<rparr>) q)" for q
  proof (cases "msg_query m = []")
    case True
    then show ?thesis using assms(4) by (simp add: uri_text_def find_from_def find_in_char)
  next
    case False
    then show ?thesis using find_from_char_at [OF assms(4), of "[]"] by (simp add: uri_text_def substr_def)
  qed
  show ?thesis
    unfolding ParseRequestLine_def m_end uri_end option.case Let_def parts
      ParseMethod_print [OF assms(1)] ParseVersion_print [OF assms(2)] prod.case query
    by (simp add: set_request_def)
qed

subsection \<open>Header lines\<close>

definition after_header :: "string \<times> string \<Rightarrow> HttpParser \<Rightarrow> HttpParser" where
  "after_header h p =
     (let cl = (LowerCopy (fst h) = ''content-length'') in
      set_request (AddHeaderLowered (LowerCopy (fst h)) (snd h))
       (p\<lparr>header_count := header_count p + 1, header_bytes := header_bytes p + length (header_text h),
          content_length_seen := content_length_seen p \<or> cl,
          body_bytes_expected := (if cl then dec_value (snd h) else body_bytes_expected p)\<rparr>))"

lemma Trim_leading: "Trim v = v \<Longrightarrow> dropWhile (\<lambda>c. c = CHR '' '') v = v"
proof -
  assume "Trim v = v"
  moreover have "length (Trim v) \<le> length (dropWhile (\<lambda>c. c = CHR '' '') v)"
    by (metis Trim_def length_dropWhile_le length_rev)
  moreover have "length (dropWhile (\<lambda>c. c = CHR '' '') w) \<le> length w" for w by (rule length_dropWhile_le)
  ultimately show ?thesis by (cases v) (auto, metis Suc_n_not_le_n le_trans)
qed

lemma ParseHeaderLine_print:
  assumes wf: "header_wf body h" and "length body \<le> kMaxBodyBytes"
    and "header_count p < kMaxHeaderCount" "header_bytes p + length (header_text h) \<le> kMaxHeaderBytes"
    and "LowerCopy (fst h) = ''content-length'' \<longrightarrow> \<not> content_length_seen p"
  shows "ParseHeaderLine (header_text h) p = (Continue, after_header h p)"
proof -
  obtain k v where h: "h = (k, v)" by (cases h)
  have k: "k \<noteq> []" "CHR '':'' \<notin> set k" "LowerCopy k \<noteq> ''transfer-encoding''" and v: "Trim v = v"
    and cl: "LowerCopy k = ''content-length'' \<Longrightarrow> v = to_string_nat (length body)"
    using wf by (auto simp: header_wf_def name_ok_def h)
  have fs: "fst h = k" "snd h = v" by (simp_all add: h)
  have txt_h: "header_text h = k @ CHR '':'' # CHR '' '' # v" by (simp add: header_text_def h)
  have colon: "find_from '':'' (header_text h) 0 = Some (length k)"
    using find_from_char_at [OF k(2), of "[]"] by (simp add: txt_h)
  have parts: "substr (header_text h) 0 (length k) = k"
      "dropWhile (\<lambda>c. c = CHR '' '') (drop (Suc (length k)) (header_text h)) = v"
    using Trim_leading [OF v] by (simp_all add: txt_h substr_def)
  have "length body < 2 ^ 64" using assms(2) by (simp add: kMaxBodyBytes_def)
  then have "from_chars v = Some (dec_value v, [])" "dec_value v \<le> kMaxBodyBytes" if "LowerCopy k = ''content-length''"
    using from_chars_to_string cl [OF that] assms(2) by simp_all
  then show ?thesis
    using assms(3-5) [unfolded fs] k
    by (cases "LowerCopy k = ''content-length''") (simp_all add: ParseHeaderLine_def after_header_def Let_def colon parts MakeHeaderKey_def set_request_def fs)
qed

lemma after_header_simps [simp]:
  "pending (after_header h p) = pending p" "got_all (after_header h p) = got_all p"
  "header_count (after_header h p) = header_count p + 1"
  "header_bytes (after_header h p) = header_bytes p + length (header_text h)"
  "content_length_seen (after_header h p) \<longleftrightarrow> content_length_seen p \<or> LowerCopy (fst h) = ''content-length''"
  "body_bytes_expected (after_header h p) =
     (if LowerCopy (fst h) = ''content-length'' then dec_value (snd h) else body_bytes_expected p)"
  "request (after_header h p) = AddHeaderLowered (LowerCopy (fst h)) (snd h) (request p)"
  by (simp_all add: after_header_def Let_def)

lemma header_loop_print:
  assumes "\<forall>h \<in> set hs. header_wf body h" "length body \<le> kMaxBodyBytes"
    and "header_count p + length hs \<le> kMaxHeaderCount"
    and "header_bytes p + sum_list (map (length \<circ> header_text) hs) \<le> kMaxHeaderBytes"
    and "distinct (map (LowerCopy \<circ> fst) hs)"
    and "content_length_seen p \<longrightarrow> ''content-length'' \<notin> set (map (LowerCopy \<circ> fst) hs)"
    and "pending p = pre @ lines_text (map header_text hs) @ rest"
    and "e + 2 = length pre + length (lines_text (map header_text hs))"
  shows "header_loop e (length pre) p = (Continue, fold after_header hs p)"
  using assms
proof (induction hs arbitrary: pre p)
  case Nil
  then show ?case by (simp add: header_loop.simps [of e])
next
  case (Cons h hs)
  let ?l = "header_text h"
  have wf: "header_wf body h" using Cons.prems(1) by simp
  have pl: "CR \<notin> set ?l" using wf by (auto simp: header_wf_def header_text_def name_ok_def plain_def CR_def)
  have pend: "pending p = pre @ ?l @ crlf @ lines_text (map header_text hs) @ rest" using Cons.prems(7) by simp
  have e1: "find_from crlf (pending p) (length pre) = Some (length pre + length ?l)"
    unfolding pend using find_from_at [of crlf ?l pre] pl by simp
  have sub: "substr (pending p) (length pre) (length pre + length ?l - length pre) = ?l"
    unfolding pend by (simp add: substr_def)
  have hl: "ParseHeaderLine ?l p = (Continue, after_header h p)"
    using Cons.prems(2-6) by (intro ParseHeaderLine_print [OF wf]) auto
  have "length pre < e" "length pre + length ?l \<le> e" "length ?l \<le> kMaxHeaderLine"
    using Cons.prems(8) wf by (auto simp: header_wf_def header_text_def name_ok_def)
  then have step: "header_loop e (length pre) p = header_loop e (length pre + length ?l + 2) (after_header h p)"
    using e1 sub hl by (simp add: header_loop.simps [of e "length pre"] and_then_def)
  have "header_loop e (length (pre @ ?l @ crlf)) (after_header h p) = (Continue, fold after_header hs (after_header h p))"
  proof (rule Cons.IH)
    show "content_length_seen (after_header h p) \<longrightarrow> ''content-length'' \<notin> set (map (LowerCopy \<circ> fst) hs)"
      using Cons.prems(5,6) by (cases "LowerCopy (fst h) = ''content-length''") simp_all
  qed (use Cons.prems in simp_all)
  then show ?case using step by simp
qed

definition add_header :: "string \<times> string \<Rightarrow> HttpRequest \<Rightarrow> HttpRequest" where
  "add_header h r = AddHeaderLowered (LowerCopy (fst h)) (snd h) r"

lemma add_header_fields [simp]:
  "rq_method (add_header h r) = rq_method r" "rq_version (add_header h r) = rq_version r"
  "rq_path (add_header h r) = rq_path r" "rq_query (add_header h r) = rq_query r" "rq_body (add_header h r) = rq_body r"
  by (simp_all add: add_header_def AddHeaderLowered_def CacheHeader_def split: option.split)

lemma add_header_inv: "request_inv r \<Longrightarrow> request_inv (add_header h r)"
  using request_AddHeader_map(1) [of r "fst h" "snd h"] by (simp add: add_header_def request_AddHeader_def MakeHeaderKey_def)

lemma add_header_new:
  assumes "request_inv r" "LowerCopy (fst h) \<notin> set (map fst (rq_headers r))"
  shows "rq_headers (add_header h r) = rq_headers r @ [(LowerCopy (fst h), Trim (snd h))]"
proof -
  have "hmap r (LowerCopy (fst h)) = None" using assms(2) by (simp add: hmap_def map_of_eq_None_iff)
  then have "headers_find (LowerCopy (fst h)) (rq_headers r) = None"
    using request_inv_find [OF assms(1), of "LowerCopy (fst h)"] by simp
  then show ?thesis by (simp add: add_header_def AddHeaderLowered_def)
qed

lemma fold_add_header:
  assumes "request_inv r" "distinct (map (LowerCopy \<circ> fst) hs)" "\<forall>h \<in> set hs. Trim (snd h) = snd h"
    and "\<forall>h \<in> set hs. LowerCopy (fst h) \<notin> set (map fst (rq_headers r))"
  shows "rq_headers (fold add_header hs r) = rq_headers r @ map (\<lambda>h. (LowerCopy (fst h), snd h)) hs
    \<and> request_inv (fold add_header hs r)"
  using assms
proof (induction hs arbitrary: r)
  case (Cons h hs)
  have new: "rq_headers (add_header h r) = rq_headers r @ [(LowerCopy (fst h), snd h)]"
    using add_header_new [OF Cons.prems(1), of h] Cons.prems(3,4) by simp
  have "\<forall>x \<in> set hs. LowerCopy (fst x) \<noteq> LowerCopy (fst h)"
    using Cons.prems(2) by (simp add: image_iff) metis
  then show ?case using Cons.IH [OF add_header_inv [OF Cons.prems(1)], of h] Cons.prems new by simp
qed simp

lemma fold_add_header_fields [simp]:
  "rq_method (fold add_header hs r) = rq_method r" "rq_version (fold add_header hs r) = rq_version r"
  "rq_path (fold add_header hs r) = rq_path r" "rq_query (fold add_header hs r) = rq_query r"
  "rq_body (fold add_header hs r) = rq_body r"
  by (induction hs arbitrary: r) simp_all

lemma fold_after_header [simp]:
  "pending (fold after_header hs p) = pending p" "got_all (fold after_header hs p) = got_all p"
  "request (fold after_header hs p) = fold add_header hs (request p)"
  by (induction hs arbitrary: p) (simp_all add: add_header_def)

lemma fold_expected:
  "\<forall>h \<in> set hs. LowerCopy (fst h) = ''content-length'' \<longrightarrow> snd h = to_string_nat n \<Longrightarrow>
   body_bytes_expected (fold after_header hs p) =
     (if ''content-length'' \<in> set (map (LowerCopy \<circ> fst) hs) then n else body_bytes_expected p)"
  by (induction hs arbitrary: p) (auto simp: image_iff)

lemma request_line_plain: "message_wf m \<Longrightarrow> request_line m \<noteq> [] \<and> plain (request_line m)"
  using MethodToString_chars(2) [of "msg_method m"] version_text_plain [of "msg_version m"]
  by (auto simp: request_line_def message_wf_def CR_def LF_def)

lemma header_text_plain: "header_wf body h \<Longrightarrow> header_text h \<noteq> [] \<and> plain (header_text h)"
  by (auto simp: header_wf_def header_text_def name_ok_def CR_def LF_def)

lemma parse_message:
  assumes wf: "message_wf m" and p: "p = fresh (message_text m @ t)"
  defines "L \<equiv> length (request_line m)" and "H \<equiv> map header_text (msg_headers m)"
  shows "find_from crlf (pending p) 0 = Some L" "substr (pending p) 0 L = request_line m"
    "find_from (crlf @ crlf) (pending p) (L + 2) = Some (L + length (lines_text H))"
    "pending p = (request_line m @ crlf) @ lines_text H @ crlf @ msg_body m @ t"
proof -
  have pend: "pending p = (request_line m @ crlf) @ lines_text H @ crlf @ msg_body m @ t"
    by (simp add: p message_text_def H_def)
  have H: "H \<noteq> []" "\<forall>l \<in> set H. l \<noteq> [] \<and> plain l"
    using wf header_text_plain by (auto simp: message_wf_def H_def)
  have "2 \<le> length (lines_text H)" using H(1) by (cases H) simp_all
  then show "find_from (crlf @ crlf) (pending p) (L + 2) = Some (L + length (lines_text H))"
    using find_blank_line [OF H, of "msg_body m @ t"] unfolding pend by (simp add: find_from_def L_def)
  show "find_from crlf (pending p) 0 = Some L"
    unfolding pend using find_from_at [of crlf "request_line m" "[]"] request_line_plain [OF wf] by (simp add: L_def plain_def)
  show "substr (pending p) 0 L = request_line m" unfolding pend by (simp add: substr_def L_def)
  show "pending p = (request_line m @ crlf) @ lines_text H @ crlf @ msg_body m @ t" by (rule pend)
qed

lemma request_inv_body [simp]: "request_inv (r\<lparr>rq_body := b\<rparr>) = request_inv r"
  by (simp add: request_inv_def hmap_def)

lemma parse_body_print:
  assumes "pending p = pre @ body @ t" "length pre = e + 4" "body_bytes_expected p = length body" "rq_body (request p) = []"
  shows "\<exists>p'. parse_body e p = (GotAll, p') \<and> pending p' = t \<and> request p' = (request p)\<lparr>rq_body := body\<rparr>"
proof -
  have "length (pending p) - (e + 4) = length body + length t" using assms(1,2) by simp
  moreover have "substr (pending p) (e + 4) (length body) = body" "drop (e + 4 + length body) (pending p) = t"
    unfolding assms(1) assms(2) [symmetric] by (simp_all add: substr_def)
  moreover have "(request p)\<lparr>rq_body := []\<rparr> = request p" using assms(4) by simp
  ultimately show ?thesis using assms(3) by (auto simp: parse_body_def Let_def set_request_def)
qed

lemma parse_print:
  assumes "message_wf m"
  shows "\<exists>p. Feed (message_text m @ t) new_HttpParser = (GotAll, p) \<and> pending p = t \<and>
    rq_method (request p) = msg_method m \<and> rq_version (request p) = msg_version m \<and>
    rq_path (request p) = msg_path m \<and> rq_query (request p) = msg_query m \<and>
    rq_headers (request p) = map (\<lambda>h. (LowerCopy (fst h), snd h)) (msg_headers m) \<and>
    rq_body (request p) = msg_body m \<and> request_inv (request p)"
proof -
  let ?hs = "msg_headers m" and ?L = "length (request_line m)" and ?H = "lines_text (map header_text (msg_headers m))"
  define p0 where "p0 = fresh (message_text m @ t)"
  define p1 where "p1 = set_request (\<lambda>r. r\<lparr>rq_method := msg_method m,
      rq_version := msg_version m, rq_path := msg_path m, rq_query := msg_query m\<rparr>) p0"
  define p2 where "p2 = fold after_header ?hs p1"
  note pm = parse_message [OF assms p0_def]
  have wf: "msg_method m \<noteq> Invalid" "msg_version m \<noteq> Unknown" "CHR '' '' \<notin> set (uri_text m)" "CHR ''?'' \<notin> set (msg_path m)"
    "?L \<le> kMaxRequestLine" "?hs \<noteq> []" "length ?hs \<le> kMaxHeaderCount"
    "sum_list (map (length \<circ> header_text) ?hs) \<le> kMaxHeaderBytes" "\<forall>h \<in> set ?hs. header_wf (msg_body m) h"
    "distinct (map (LowerCopy \<circ> fst) ?hs)" "length (msg_body m) \<le> kMaxBodyBytes"
    "msg_body m \<noteq> [] \<longrightarrow> ''content-length'' \<in> set (map (LowerCopy \<circ> fst) ?hs)"
    using assms unfolding message_wf_def by blast+
  have p0s: "request p0 = new_HttpRequest" "body_bytes_expected p0 = 0" "header_count p0 = 0" "header_bytes p0 = 0"
    "\<not> content_length_seen p0" by (simp_all add: p0_def)
  have line: "ParseRequestLine (request_line m) p0 = (Continue, p1)"
    unfolding p1_def by (rule ParseRequestLine_print [OF wf(1-4)])
  have "2 \<le> length ?H" using wf(6) by (cases ?hs) simp_all
  then have loop: "header_loop (?L + length ?H) (length (request_line m @ crlf)) p1 = (Continue, p2)"
    unfolding p2_def
    by (intro header_loop_print [OF wf(9,11) _ _ wf(10), where rest = "crlf @ msg_body m @ t"])
      (use wf pm(4) p0s in \<open>simp_all add: p1_def\<close>)
  have r2: "request p2 = fold add_header ?hs (request p1)" by (simp add: p2_def)
  have inv1: "request_inv (request p1)" using p0s(1) by (simp add: p1_def request_inv_def new_HttpRequest_def hmap_def or_empty_def)
  have hs2: "rq_headers (request p2) = map (\<lambda>h. (LowerCopy (fst h), snd h)) ?hs \<and> request_inv (request p2)"
    using fold_add_header [OF inv1 wf(10)] wf(9) p0s(1) by (simp add: r2 p1_def header_wf_def new_HttpRequest_def)
  have "body_bytes_expected p2 = length (msg_body m)"
    using fold_expected [of ?hs "length (msg_body m)" p1] wf(9,12) p0s(2) by (auto simp: p2_def p1_def header_wf_def)
  moreover have "pending p2 = (request_line m @ crlf @ ?H @ crlf) @ msg_body m @ t"
    using pm(4) by (simp add: p2_def p1_def)
  moreover have "rq_body (request p2) = []" using p0s(1) by (simp add: r2 p1_def new_HttpRequest_def)
  ultimately obtain p3 where p3: "parse_body (?L + length ?H) p2 = (GotAll, p3)" "pending p3 = t"
      "request p3 = (request p2)\<lparr>rq_body := msg_body m\<rparr>"
    using parse_body_print [of p2 "request_line m @ crlf @ ?H @ crlf" "msg_body m" t "?L + length ?H"] by auto
  have p0': "\<not> got_all p0" "parser_Reset p0 = p0" "\<not> kMaxRequestLine < ?L" using wf(5) by (simp_all add: p0_def)
  have "ParseAvailable p0 = and_then (ParseRequestLine (request_line m) p0) (parse_headers ?L)"
    unfolding ParseAvailable_def Let_def p0'(2) pm(1,2) by (simp only: p0' if_False option.case pm(2))
  also have "\<dots> = parse_headers ?L p1" by (simp add: line and_then_def)
  also have "\<dots> = and_then (header_loop (?L + length ?H) (?L + 2) p1) (parse_body (?L + length ?H))"
  proof -
    have "pending p1 = pending p0" by (simp add: p1_def)
    then show ?thesis unfolding parse_headers_def Let_def by (simp only: pm(3) option.case)
  qed
  also have "\<dots> = (GotAll, p3)" using loop p3(1) by (simp add: and_then_def)
  finally have "Feed (message_text m @ t) new_HttpParser = (GotAll, p3)" by (simp add: Feed_new p0_def)
  moreover have "rq_method (request p2) = msg_method m" "rq_version (request p2) = msg_version m"
      "rq_path (request p2) = msg_path m" "rq_query (request p2) = msg_query m"
    by (simp_all add: r2 p1_def)
  ultimately show ?thesis using p3(2,3) hs2 by (intro exI [of _ p3]) simp
qed

text \<open>(C29) Round trip: every well-formed request within the limits, printed as text and followed by any other bytes, is
accepted at once, with the method, version, path, query, body and headers it was printed from (names in lower case),
and exactly the following bytes are left for the next request.\<close>

theorem request_roundtrip:
  assumes "message_wf m"
  shows "\<exists>p. Feed (message_text m @ t) new_HttpParser = (GotAll, p) \<and> pending p = t \<and>
    rq_method (request p) = msg_method m \<and> rq_version (request p) = msg_version m \<and>
    rq_path (request p) = msg_path m \<and> rq_query (request p) = msg_query m \<and>
    rq_headers (request p) = map (\<lambda>h. (LowerCopy (fst h), snd h)) (msg_headers m) \<and>
    rq_body (request p) = msg_body m \<and> request_inv (request p)"
  by (rule parse_print [OF assms])

definition demo_message :: message where
  "demo_message = \<lparr>msg_method = Post, msg_version = Http11, msg_path = ''/a'', msg_query = ''q=1'',
     msg_headers = [(''host'', ''x''), (''content-length'', ''2'')], msg_body = ''hi''\<rparr>"

lemma demo_message_wf: "message_wf demo_message"
proof -
  have "to_string_nat (Suc (Suc 0)) = ''2''" by code_simp
  then show ?thesis
    by (simp add: message_wf_def demo_message_def header_wf_def header_text_def name_ok_def uri_text_def request_line_def
          version_text_def Trim_def CR_def LF_def kMaxRequestLine_def kMaxHeaderCount_def kMaxHeaderBytes_def
          kMaxHeaderLine_def kMaxBodyBytes_def)
qed

theorem request_roundtrip_witness:
  "\<exists>p. Feed (message_text demo_message @ ''GET '') new_HttpParser = (GotAll, p) \<and> pending p = ''GET '' \<and>
     rq_body (request p) = ''hi''"
  using request_roundtrip [OF demo_message_wf, of "''GET ''"] by (auto simp: demo_message_def)

section \<open>What is accepted is framed unambiguously\<close>

definition framed :: "HttpParser \<Rightarrow> bool" where
  "framed p \<longleftrightarrow>
     request_inv (request p) \<and> rq_body (request p) = [] \<and> header_count p \<le> kMaxHeaderCount \<and>
     length (rq_headers (request p)) \<le> header_count p \<and> hmap (request p) ''transfer-encoding'' = None \<and>
     body_bytes_expected p \<le> kMaxBodyBytes \<and>
     (case hmap (request p) ''content-length'' of
        None \<Rightarrow> \<not> content_length_seen p \<and> body_bytes_expected p = 0
      | Some v \<Rightarrow> content_length_seen p \<and> from_chars v = Some (body_bytes_expected p, []))"

lemma from_chars_trim:
  assumes "from_chars v = Some (n, [])"
  shows "Trim v = v"
proof -
  have dig: "\<forall>c \<in> set v. is_digit c" using assms by (auto simp: from_chars_def Let_def split: if_splits)
  have "dropWhile (\<lambda>c. c = CHR '' '') w = w" if "\<forall>c \<in> set w. is_digit c" for w
    using that by (cases w) (auto simp: is_digit_def)
  then show ?thesis using dig by (simp add: Trim_def)
qed

lemma AddHeaderLowered_framing:
  assumes "request_inv r" "LowerCopy k = k"
  shows "request_inv (AddHeaderLowered k v r)"
    "hmap (AddHeaderLowered k v r) = (if hmap r k = None then (hmap r)(k \<mapsto> Trim v) else hmap r)"
    "length (rq_headers (AddHeaderLowered k v r)) \<le> Suc (length (rq_headers r))"
    "rq_body (AddHeaderLowered k v r) = rq_body r"
  using request_AddHeader_map [OF assms(1), of k v] assms(2)
  by (simp_all add: request_AddHeader_def MakeHeaderKey_def AddHeaderLowered_def CacheHeader_def split: option.splits)

lemma ParseHeaderLine_framed:
  assumes "framed p" "ParseHeaderLine l p = (Continue, p')"
  shows "framed p'"
proof -
  define p1 where "p1 = p\<lparr>header_count := header_count p + 1, header_bytes := header_bytes p + length l\<rparr>"
  obtain colon where colon: "find_from '':'' l 0 = Some colon" "header_count p < kMaxHeaderCount"
    using assms(2) by (auto simp: ParseHeaderLine_def Let_def split: if_splits option.splits)
  define k where "k = LowerCopy (substr l 0 colon)"
  define v where "v = dropWhile (\<lambda>c. c = CHR '' '') (drop (Suc colon) l)"
  have lk: "LowerCopy k = k" by (simp add: k_def)
  have te: "k \<noteq> ''transfer-encoding''"
    using assms(2) colon by (auto simp: ParseHeaderLine_def Let_def MakeHeaderKey_def k_def split: if_splits)
  note add = AddHeaderLowered_framing [of "request p" k v, OF _ lk]
  show ?thesis
  proof (cases "k = ''content-length''")
    case True
    then obtain n where n: "\<not> content_length_seen p" "from_chars v = Some (n, [])" "n \<le> kMaxBodyBytes"
        and p': "p' = set_request (AddHeaderLowered k v) (p1\<lparr>content_length_seen := True, body_bytes_expected := n\<rparr>)"
      using assms(2) colon
      by (auto simp: ParseHeaderLine_def Let_def MakeHeaderKey_def k_def [symmetric] v_def [symmetric] p1_def split: if_splits option.splits)
    have "hmap (request p) k = None" using assms(1) n(1) True by (auto simp: framed_def split: option.splits)
    then show ?thesis
      using assms(1) n colon(2) add True from_chars_trim [OF n(2)] by (auto simp: framed_def p' p1_def)
  next
    case False
    then have p': "p' = set_request (AddHeaderLowered k v) p1"
      using assms(2) colon te
      by (auto simp: ParseHeaderLine_def Let_def MakeHeaderKey_def k_def [symmetric] v_def [symmetric] p1_def split: if_splits)
    then show ?thesis
      using assms(1) colon(2) add te False by (auto simp: framed_def p1_def split: option.split)
  qed
qed

lemma header_loop_framed:
  "framed p \<Longrightarrow> header_loop e pos p = (Continue, p') \<Longrightarrow> framed p'"
proof (induction e pos p rule: header_loop.induct)
  case (1 e pos p)
  show ?case
  proof (cases "pos < e")
    case True
    then obtain j where j: "find_from crlf (pending p) pos = Some j" "\<not> e < j" "\<not> kMaxHeaderLine < j - pos"
      using 1(3) by (auto simp: header_loop.simps [of e pos] split: option.splits if_splits)
    let ?r = "ParseHeaderLine (substr (pending p) pos (j - pos)) p"
    have "?r = (Continue, snd ?r)" "header_loop e (j + 2) (snd ?r) = (Continue, p')"
      using 1(3) True j by (auto simp: header_loop.simps [of e pos] and_then_def prod_eq_iff split: if_splits)
    then show ?thesis using 1(1) [OF True j] ParseHeaderLine_framed [OF 1(2)] by blast
  next
    case False
    then show ?thesis using 1(2,3) by (simp add: header_loop.simps [of e pos])
  qed
qed

lemma ParseRequestLine_framed:
  assumes "ParseRequestLine l (fresh s) = (Continue, p)"
  shows "framed p"
proof -
  have "framed (set_request (\<lambda>r. r\<lparr>rq_method := a, rq_version := b, rq_path := c, rq_query := d\<rparr>) (fresh s))" for a b c d
    by (simp add: framed_def request_inv_def new_HttpRequest_def hmap_def or_empty_def)
  moreover have "\<exists>a b c d. p = set_request (\<lambda>r. r\<lparr>rq_method := a, rq_version := b, rq_path := c, rq_query := d\<rparr>) (fresh s)"
    using assms
    by (auto simp: ParseRequestLine_def ParseMethod_def ParseVersion_def Let_def set_request_def split: option.splits if_splits)
  ultimately show ?thesis by blast
qed

lemma ParseRequestLine_not_all: "fst (ParseRequestLine l p) \<noteq> GotAll"
  by (auto simp: ParseRequestLine_def Let_def split: option.splits prod.splits)

lemma ParseHeaderLine_not_all: "fst (ParseHeaderLine l p) \<noteq> GotAll"
  by (auto simp: ParseHeaderLine_def Let_def split: option.splits prod.splits)

lemma header_loop_not_all: "fst (header_loop e pos p) \<noteq> GotAll"
proof (induction e pos p rule: header_loop.induct)
  case (1 e pos p)
  let ?r = "\<lambda>j. ParseHeaderLine (substr (pending p) pos (j - pos)) p"
  have "fst (header_loop e (j + 2) (snd (?r j))) \<noteq> GotAll"
    if "pos < e" "find_from crlf (pending p) pos = Some j" "\<not> e < j" "\<not> kMaxHeaderLine < j - pos" "fst (?r j) = Continue" for j
    using that by (intro 1) (auto simp: prod_eq_iff)
  then show ?case
    using ParseHeaderLine_not_all by (auto simp: header_loop.simps [of e pos p] and_then_def split: option.split)
qed

lemma and_then_all:
  assumes "and_then r f = (GotAll, p)" "fst r \<noteq> GotAll"
  shows "r = (Continue, snd r) \<and> f (snd r) = (GotAll, p)"
  using assms by (cases r) (auto simp: and_then_def split: if_splits)

lemma parse_headers_all:
  assumes "parse_headers l p = (GotAll, p')"
  shows "\<exists>e q. find_from (crlf @ crlf) (pending p) (l + 2) = Some e \<and> header_loop e (l + 2) p = (Continue, q)
    \<and> parse_body e q = (GotAll, p')"
proof -
  obtain e where e: "find_from (crlf @ crlf) (pending p) (l + 2) = Some e"
    using assms by (auto simp: parse_headers_def split: option.splits if_splits)
  then have "and_then (header_loop e (l + 2) p) (parse_body e) = (GotAll, p')" using assms by (simp add: parse_headers_def)
  then show ?thesis using and_then_all [OF _ header_loop_not_all] e by blast
qed

lemma ParseAvailable_all:
  assumes "ParseAvailable (fresh s) = (GotAll, p)"
  shows "\<exists>l q. find_from crlf s 0 = Some l \<and> ParseRequestLine (substr s 0 l) (fresh s) = (Continue, q)
    \<and> pending q = s \<and> parse_headers l q = (GotAll, p)"
proof -
  obtain l where l: "find_from crlf s 0 = Some l" "\<not> kMaxRequestLine < l"
    using assms by (auto simp: ParseAvailable_def Let_def split: option.splits if_splits)
  let ?r = "ParseRequestLine (substr s 0 l) (fresh s)"
  have "and_then ?r (parse_headers l) = (GotAll, p)" using assms l by (simp add: ParseAvailable_def Let_def)
  then have "?r = (Continue, snd ?r)" "parse_headers l (snd ?r) = (GotAll, p)"
    using and_then_all [OF _ ParseRequestLine_not_all] by blast+
  then show ?thesis using l(1) ParseRequestLine_pending(1) [of "substr s 0 l" "fresh s"] by auto
qed

text \<open>(C28) No ambiguity about where a request ends: an accepted request is the head up to a blank line, then exactly
the body, then what is left for the next request. It has no \<open>Transfer-Encoding\<close> header, its body has the length its
\<open>Content-Length\<close> names and is empty without one, and the limits on header lines and body hold.\<close>

theorem accepted_framing:
  assumes "Feed s new_HttpParser = (GotAll, p)"
  shows "(\<exists>head. s = head @ crlf @ crlf @ rq_body (request p) @ pending p)
    \<and> header ''Transfer-Encoding'' (request p) = []
    \<and> (case hmap (request p) ''content-length'' of
         None \<Rightarrow> rq_body (request p) = []
       | Some v \<Rightarrow> from_chars v = Some (length (rq_body (request p)), []))
    \<and> length (rq_headers (request p)) \<le> kMaxHeaderCount \<and> length (rq_body (request p)) \<le> kMaxBodyBytes"
proof -
  obtain l p1 where r: "ParseRequestLine (substr s 0 l) (fresh s) = (Continue, p1)" and pend1: "pending p1 = s"
      and ph: "parse_headers l p1 = (GotAll, p)"
    using ParseAvailable_all [of s p] assms by (auto simp: Feed_new)
  obtain e p2 where e: "find_from (crlf @ crlf) s (l + 2) = Some e"
      and loop: "header_loop e (l + 2) p1 = (Continue, p2)" and pb: "parse_body e p2 = (GotAll, p)"
    using parse_headers_all [OF ph] unfolding pend1 by blast
  have f2: "framed p2" by (rule header_loop_framed [OF ParseRequestLine_framed [OF r] loop])
  have pend2: "pending p2 = s" using header_loop_pending [of e "l + 2" p1] unfolding loop pend1 by simp
  have len: "body_bytes_expected p2 \<le> length s - (e + 4)" "e + 4 \<le> length s"
    and body: "rq_body (request p) = substr s (e + 4) (body_bytes_expected p2)"
    and pend: "pending p = drop (e + 4 + body_bytes_expected p2) s"
    and hd: "hmap (request p) = hmap (request p2)" "rq_headers (request p) = rq_headers (request p2)" "request_inv (request p)"
    using pb f2 find_from_bounds [OF e] pend2
    by (auto simp: parse_body_def Let_def framed_def substr_def hmap_def crlf_def split: if_splits)
  have "rq_body (request p) @ pending p = drop (e + 4) s"
    unfolding body pend substr_def by (metis append_take_drop_id drop_drop add.commute)
  moreover have "s = take e s @ crlf @ crlf @ drop (e + 4) s"
  proof -
    obtain z where z: "drop e s = (crlf @ crlf) @ z" using find_from_prefix [OF e] by (auto simp: prefix_def)
    have "drop (e + 4) s = drop 4 (drop e s)" by (simp add: add.commute)
    also have "\<dots> = z" by (simp add: z crlf_def)
    finally show ?thesis using z append_take_drop_id [of e s] by simp
  qed
  ultimately have "\<exists>head. s = head @ crlf @ crlf @ rq_body (request p) @ pending p" by metis
  moreover have "length (rq_body (request p)) = body_bytes_expected p2" using body len by (simp add: substr_def)
  moreover have "header ''Transfer-Encoding'' (request p) = []"
  proof -
    have "LowerCopy ''Transfer-Encoding'' = ''transfer-encoding''" by code_simp
    then show ?thesis using header_map [OF hd(3), of "''Transfer-Encoding''"] hd(1) f2 by (simp add: framed_def or_empty_def)
  qed
  ultimately show ?thesis using f2 hd(1,2) unfolding framed_def by (auto split: option.splits)
qed

theorem accepted_framing_witness:
  "\<exists>p. Feed (message_text demo_message) new_HttpParser = (GotAll, p) \<and> length (rq_headers (request p)) \<le> kMaxHeaderCount"
  using parse_print [OF demo_message_wf, of "[]"] accepted_framing [of "message_text demo_message"] by auto

section \<open>Two corner cases\<close>

lemma header_loop_blank:
  assumes "pos < e" "prefix crlf (drop pos (pending p))" "pos \<le> length (pending p)"
  shows "fst (header_loop e pos p) \<noteq> Continue"
proof -
  have "find_from crlf (pending p) pos = Some pos"
    using find_from_least [OF assms(2) order.refl assms(3)] by auto
  moreover have "fst (ParseHeaderLine [] p) \<noteq> Continue"
    by (simp add: ParseHeaderLine_def find_from_def Let_def)
  ultimately show ?thesis
    using assms(1) by (simp add: header_loop.simps [of e pos] and_then_def substr_def)
qed

text \<open>(C31) A request without header lines is never accepted as sent: the search for the blank line starts behind the
line break of the request line, so the blank line that follows it is not seen; unless a third line break comes, the
parser waits for more or rejects what follows.\<close>

theorem headerless_never_accepted:
  assumes "plain l" "\<not> prefix crlf t"
  shows "fst (Feed (l @ crlf @ crlf @ t) new_HttpParser) \<noteq> GotAll"
proof
  let ?s = "l @ crlf @ crlf @ t"
  assume "fst (Feed ?s new_HttpParser) = GotAll"
  then obtain p where p: "ParseAvailable (fresh ?s) = (GotAll, p)" by (metis Feed_new prod.collapse)
  have l: "find_from crlf ?s 0 = Some (length l)"
    using find_from_at [of crlf l "[]" "crlf @ t"] assms(1) by (simp add: plain_def)
  obtain p1 where pend: "pending p1 = ?s" and ph: "parse_headers (length l) p1 = (GotAll, p)"
    using ParseAvailable_all [OF p] l by auto
  obtain e where e: "find_from (crlf @ crlf) ?s (length l + 2) = Some e"
      and loop: "fst (header_loop e (length l + 2) p1) = Continue"
    using parse_headers_all [OF ph] unfolding pend by (metis fst_conv)
  have "e \<noteq> length l + 2" using find_from_prefix [OF e] assms(2) by (auto simp: crlf_def)
  then have "length l + 2 < e" using find_from_bounds [OF e] by simp
  then show False using header_loop_blank [of "length l + 2" e p1] loop pend by (simp add: crlf_def)
qed

theorem headerless_never_accepted_witness:
  "fst (Feed (''GET / HTTP/1.0'' @ crlf @ crlf) new_HttpParser) \<noteq> GotAll"
  using headerless_never_accepted [of "''GET / HTTP/1.0''" "[]"] by (simp add: CR_def LF_def)

text \<open>A request whose request line has exactly the maximal length.\<close>

definition long_message :: message where
  "long_message = \<lparr>msg_method = Get, msg_version = Http11, msg_path = CHR ''/'' # replicate 8178 (CHR ''a''), msg_query = [],
     msg_headers = [(''host'', ''x'')], msg_body = []\<rparr>"

lemma long_message_wf: "message_wf long_message" "length (request_line long_message) = kMaxRequestLine"
  by (simp_all add: message_wf_def long_message_def header_wf_def header_text_def name_ok_def uri_text_def request_line_def
        version_text_def Trim_def CR_def LF_def plain_def kMaxRequestLine_def kMaxHeaderCount_def kMaxHeaderBytes_def
        kMaxHeaderLine_def kMaxBodyBytes_def)

text \<open>(C32) The limit on the request line is applied one byte early when a chunk ends between the two characters of the
line break: every well-formed request whose request line has the maximal length is accepted when its bytes arrive
together and rejected as too long when they arrive in two chunks, cut in the line break.\<close>

theorem chunk_boundary_matters:
  assumes "message_wf m" "length (request_line m) = kMaxRequestLine"
  shows "let bytes = message_text m @ rest; cut = Suc kMaxRequestLine in
    fst (Feed bytes new_HttpParser) = GotAll
    \<and> fst (feed_chunks [take cut bytes, drop cut bytes] new_HttpParser) = UriTooLong"
proof -
  let ?l = "request_line m"
  obtain z where z: "message_text m = (?l @ [CR]) @ LF # z" by (simp add: message_text_def)
  then have first: "take (Suc kMaxRequestLine) (message_text m @ rest) = ?l @ [CR]" by (simp add: assms(2))
  have "plain ?l" using request_line_plain [OF assms(1)] by simp
  then have "find_in crlf (?l @ [CR]) = None"
    using find_in_skip [of crlf ?l "[CR]"] by (simp add: plain_def crlf_def)
  then have "fst (Feed (?l @ [CR]) new_HttpParser) = UriTooLong"
    by (simp add: Feed_new ParseAvailable_def Let_def find_from_def assms(2))
  moreover have "fst (Feed (message_text m @ rest) new_HttpParser) = GotAll"
    using parse_print [OF assms(1), of rest] by auto
  ultimately show ?thesis unfolding Let_def first by (simp add: case_prod_beta)
qed

theorem chunk_boundary_matters_witness:
  "message_wf long_message \<and> fst (Feed (message_text long_message @ []) new_HttpParser) = GotAll
   \<and> fst (feed_chunks [take (Suc kMaxRequestLine) (message_text long_message @ []),
        drop (Suc kMaxRequestLine) (message_text long_message @ [])] new_HttpParser) = UriTooLong"
  using chunk_boundary_matters [OF long_message_wf, of "[]"] long_message_wf(1) unfolding Let_def by blast

end
