(* ===== verification/Router.thy ===== *)
theory Router
  imports Http
begin

text \<open>
  The request router of \<open>router.h\<close> and \<open>router.cc\<close>: a trie over path segments with
  static children, at most one parameter child, and the handlers of each method at
  the node where a path ends.  Registration errors abort the process in the source;
  here they are values.

  Shown: the trie is a routing table.  Registering a list of routes gives a trie whose
  matches are those of the table, with the most static pattern preferred.
\<close>

section \<open>The trie\<close>

datatype RouteError =
  path_must_start_with_slash | handler_must_not_be_empty | empty_parameter_name | param_name_conflict | duplicate_registration

datatype 'h RouteTrieNode = RouteTrieNode
  (static_child: "(string \<times> 'h RouteTrieNode) list")
  (param_child: "'h RouteTrieNode option")
  (param_name: string)
  (handlers: "(Method \<times> 'h) list")

definition new_node :: "string \<Rightarrow> 'h RouteTrieNode" where
  "new_node name = RouteTrieNode [] None name []"

record 'h RouteMatch =
  rm_handler :: "'h option"
  rm_params :: "PathParam list"
  rm_path_matched :: bool

text \<open>The loop of \<open>SplitPath\<close>.\<close>

function split_from :: "string \<Rightarrow> nat \<Rightarrow> string list \<Rightarrow> string list" where
  "split_from path start segments =
     (if start < length path then
        (let e = (case find_from ''/'' path start of None \<Rightarrow> length path | Some e \<Rightarrow> e) in
         split_from path (e + 1) (if start < e then segments @ [substr path start (e - start)] else segments))
      else segments)"
  by pat_completeness auto
termination
  by (relation "measure (\<lambda>(path, start, _). length path - start)")
    (auto dest: find_from_bounds split: option.splits)

declare split_from.simps [simp del]

definition SplitPath :: "string \<Rightarrow> string list" where
  "SplitPath path = split_from path (if path \<noteq> [] \<and> path ! 0 = CHR ''/'' then 1 else 0) []"

definition IsParamSegment :: "string \<Rightarrow> bool" where
  "IsParamSegment seg \<longleftrightarrow> seg \<noteq> [] \<and> seg ! 0 = CHR '':''"

definition ExtractParamName :: "string \<Rightarrow> string" where
  "ExtractParamName seg = drop 1 seg"

fun set_child :: "string \<Rightarrow> 'h RouteTrieNode \<Rightarrow> (string \<times> 'h RouteTrieNode) list \<Rightarrow> (string \<times> 'h RouteTrieNode) list" where
  "set_child seg c [] = [(seg, c)]"
| "set_child seg c ((s, d) # cs) = (if s = seg then (s, c) # cs else (s, d) # set_child seg c cs)"

text \<open>The walk of \<open>Add\<close> down the trie, and the registration at its end.\<close>

fun add_at :: "Method \<Rightarrow> string list \<Rightarrow> 'h \<Rightarrow> 'h RouteTrieNode \<Rightarrow> RouteError + 'h RouteTrieNode" where
  "add_at m [] h (RouteTrieNode sc pc pn hs) =
     (if map_of hs m \<noteq> None then Inl duplicate_registration else Inr (RouteTrieNode sc pc pn (hs @ [(m, h)])))"
| "add_at m (seg # segs) h (RouteTrieNode sc pc pn hs) =
     (if IsParamSegment seg then
        (let name = ExtractParamName seg in
         if name = [] then Inl empty_parameter_name
         else case pc of
             None \<Rightarrow>
               (case add_at m segs h (new_node name) of
                  Inl e \<Rightarrow> Inl e | Inr c \<Rightarrow> Inr (RouteTrieNode sc (Some c) pn hs))
           | Some p \<Rightarrow>
               if param_name p \<noteq> name then Inl param_name_conflict
               else (case add_at m segs h p of
                  Inl e \<Rightarrow> Inl e | Inr c \<Rightarrow> Inr (RouteTrieNode sc (Some c) pn hs)))
      else
        (case add_at m segs h (case map_of sc seg of None \<Rightarrow> new_node [] | Some c \<Rightarrow> c) of
           Inl e \<Rightarrow> Inl e | Inr c \<Rightarrow> Inr (RouteTrieNode (set_child seg c sc) pc pn hs)))"

definition Router_Add :: "Method \<Rightarrow> string \<Rightarrow> 'h option \<Rightarrow> 'h RouteTrieNode \<Rightarrow> RouteError + 'h RouteTrieNode" where
  "Router_Add m path handler root =
     (if path = [] \<or> hd path \<noteq> CHR ''/'' then Inl path_must_start_with_slash
      else case handler of
          None \<Rightarrow> Inl handler_must_not_be_empty
        | Some h \<Rightarrow> add_at m (SplitPath path) h root)"

definition Router_Get :: "string \<Rightarrow> 'h option \<Rightarrow> 'h RouteTrieNode \<Rightarrow> RouteError + 'h RouteTrieNode" where
  "Router_Get path h root = Router_Add Get path h root"

definition Router_Post :: "string \<Rightarrow> 'h option \<Rightarrow> 'h RouteTrieNode \<Rightarrow> RouteError + 'h RouteTrieNode" where
  "Router_Post path h root = Router_Add Post path h root"

definition Router_Put :: "string \<Rightarrow> 'h option \<Rightarrow> 'h RouteTrieNode \<Rightarrow> RouteError + 'h RouteTrieNode" where
  "Router_Put path h root = Router_Add Put path h root"

definition Router_Delete :: "string \<Rightarrow> 'h option \<Rightarrow> 'h RouteTrieNode \<Rightarrow> RouteError + 'h RouteTrieNode" where
  "Router_Delete path h root = Router_Add Delete path h root"

fun MatchNode :: "Method \<Rightarrow> string list \<Rightarrow> 'h RouteTrieNode \<Rightarrow> 'h RouteMatch \<Rightarrow> bool \<times> 'h RouteMatch" where
  "MatchNode m [] node r =
     (if handlers node = [] then (False, r)
      else (let r1 = r\<lparr>rm_path_matched := True\<rparr> in
        case map_of (handlers node) m of
          None \<Rightarrow> (True, r1)
        | Some h \<Rightarrow> (True, r1\<lparr>rm_handler := Some h\<rparr>)))"
| "MatchNode m (seg # segs) node r =
     (let (found, r1) = (case map_of (static_child node) seg of
                           None \<Rightarrow> (False, r)
                         | Some c \<Rightarrow> MatchNode m segs c r) in
      if found then (True, r1)
      else case param_child node of
          None \<Rightarrow> (False, r1)
        | Some c \<Rightarrow>
            (let saved = length (rm_params r1);
                 (ok, r2) = MatchNode m segs c
                    (r1\<lparr>rm_params := rm_params r1 @ [\<lparr>pp_key = param_name c, pp_value = seg\<rparr>]\<rparr>) in
             if ok then (True, r2) else (False, r2\<lparr>rm_params := take saved (rm_params r2)\<rparr>)))"

definition Router_Match :: "Method \<Rightarrow> string \<Rightarrow> 'h RouteTrieNode \<Rightarrow> 'h RouteMatch" where
  "Router_Match m path root =
     snd (MatchNode m (SplitPath path) root \<lparr>rm_handler = None, rm_params = [], rm_path_matched = False\<rparr>)"

section \<open>Path segments\<close>

text \<open>The segments of a path are its non-empty parts between slashes.\<close>

fun parts :: "string \<Rightarrow> string \<Rightarrow> string list" where
  "parts acc [] = [acc]"
| "parts acc (c # cs) = (if c = CHR ''/'' then acc # parts [] cs else parts (acc @ [c]) cs)"

definition segments_of :: "string \<Rightarrow> string list" where
  "segments_of path = filter (\<lambda>s. s \<noteq> []) (parts [] path)"

lemma parts_until:
  "CHR ''/'' \<notin> set u \<Longrightarrow> parts acc (u @ CHR ''/'' # v) = (acc @ u) # parts [] v"
  "CHR ''/'' \<notin> set u \<Longrightarrow> parts acc u = [acc @ u]"
  by (induction u arbitrary: acc) auto

lemma split_from_segments: "split_from path start acc = acc @ segments_of (drop start path)"
proof (induction path start acc rule: split_from.induct)
  case (1 path start acc)
  show ?case
  proof (cases "start < length path")
    case True
    define e where "e = (case find_from ''/'' path start of None \<Rightarrow> length path | Some e \<Rightarrow> e)"
    have IH: "split_from path start acc
        = (if start < e then acc @ [substr path start (e - start)] else acc) @ segments_of (drop (e + 1) path)"
    proof -
      have "split_from path start acc
          = split_from path (e + 1) (if start < e then acc @ [substr path start (e - start)] else acc)"
        using True by (simp add: split_from.simps [of path start] e_def Let_def)
      then show ?thesis using 1 [OF True e_def] by simp
    qed
    show ?thesis
    proof (cases "CHR ''/'' \<in> set (drop start path)")
      case True
      then obtain u v where uv: "drop start path = u @ CHR ''/'' # v" "CHR ''/'' \<notin> set u" by (metis split_list_first)
      then have path: "path = take start path @ u @ CHR ''/'' # v" by (metis append_take_drop_id)
      have e: "e = start + length u"
        using uv \<open>start < length path\<close> by (simp add: e_def find_from_def find_in_at [of "''/''" u v, simplified])
      have "drop (e + 1) path = drop (length u + 1) (drop start path)" by (simp add: e add.commute)
      also have "\<dots> = v" by (simp add: uv)
      finally have "drop (e + 1) path = v" .
      moreover have "substr path start (e - start) = u" by (simp add: substr_def e uv)
      ultimately show ?thesis using IH uv e by (auto simp: segments_of_def parts_until)
    next
      case False
      then have e: "e = length path" by (simp add: e_def find_from_def find_in_char)
      then show ?thesis using IH \<open>start < length path\<close> False by (simp add: segments_of_def parts_until substr_def)
    qed
  next
    case False
    then show ?thesis by (simp add: split_from.simps [of path start] segments_of_def)
  qed
qed

lemma SplitPath_segments: "SplitPath path = segments_of path"
  by (cases path) (simp_all add: SplitPath_def split_from_segments segments_of_def)

section \<open>The routing table\<close>

datatype pat = Static string | Param string

definition pat_of :: "string \<Rightarrow> pat" where
  "pat_of seg = (if IsParamSegment seg then Param (ExtractParamName seg) else Static seg)"

fun find_node :: "pat list \<Rightarrow> 'h RouteTrieNode \<Rightarrow> 'h RouteTrieNode option" where
  "find_node [] node = Some node"
| "find_node (Static s # ps) node = (case map_of (static_child node) s of None \<Rightarrow> None | Some c \<Rightarrow> find_node ps c)"
| "find_node (Param x # ps) node =
     (case param_child node of None \<Rightarrow> None | Some c \<Rightarrow> if param_name c = x then find_node ps c else None)"

definition table :: "'h RouteTrieNode \<Rightarrow> pat list \<Rightarrow> (Method \<times> 'h) list" where
  "table node ps = (case find_node ps node of None \<Rightarrow> [] | Some n \<Rightarrow> handlers n)"

lemma table_simps [simp]:
  "table node [] = handlers node"
  "table node (Static s # ps) = (case map_of (static_child node) s of None \<Rightarrow> [] | Some c \<Rightarrow> table c ps)"
  "table node (Param x # ps) = (case param_child node of None \<Rightarrow> [] | Some c \<Rightarrow> if param_name c = x then table c ps else [])"
  by (simp_all add: table_def split: option.split)

lemma pats_cases:
  obtains "ps = []" | s qs where "ps = Static s # qs" | x qs where "ps = Param x # qs"
  by (metis neq_Nil_conv pat.exhaust)

lemma table_new_node [simp]: "table (new_node name) ps = []"
  by (cases ps rule: pats_cases) (simp_all add: new_node_def)

lemma map_of_set_child: "map_of (set_child seg c cs) s = (if s = seg then Some c else map_of cs s)"
  by (induction seg c cs rule: set_child.induct) auto

lemma add_at_param_name: "add_at m segs h node = Inr node' \<Longrightarrow> param_name node' = param_name node"
  by (cases node; cases segs) (auto simp: Let_def split: if_splits option.splits sum.splits)

lemma add_at_table:
  "add_at m segs h node = Inr node' \<Longrightarrow>
   table node' ps = (if ps = map pat_of segs then table node ps @ [(m, h)] else table node ps) \<and>
   map_of (table node (map pat_of segs)) m = None"
proof (induction segs arbitrary: node node' ps)
  case Nil
  then show ?case by (cases node; cases ps rule: pats_cases) (auto split: if_splits)
next
  case (Cons seg segs)
  obtain sc pc pn hs where node: "node = RouteTrieNode sc pc pn hs" by (cases node)
  show ?case
  proof (cases "IsParamSegment seg")
    case True
    define c0 where "c0 = (case pc of None \<Rightarrow> new_node (ExtractParamName seg) | Some p \<Rightarrow> p)"
    obtain c where c: "add_at m segs h c0 = Inr c" and node': "node' = RouteTrieNode sc (Some c) pn hs"
        and name: "param_name c0 = ExtractParamName seg"
      using Cons.prems True
      by (auto simp: node Let_def c0_def new_node_def split: if_splits option.splits sum.splits)
    have "table node (Param x # qs) = (if x = ExtractParamName seg then table c0 qs else [])" for x qs
      using name by (auto simp: node c0_def split: option.splits)
    moreover have "table node' (Param x # qs) = (if x = ExtractParamName seg then table c qs else [])" for x qs
      using add_at_param_name [OF c] name by (auto simp: node')
    ultimately show ?thesis
      using Cons.IH [OF c] True node node'
      by (cases ps rule: pats_cases) (simp_all add: pat_of_def)
  next
    case False
    define c0 where "c0 = (case map_of sc seg of None \<Rightarrow> new_node [] | Some c \<Rightarrow> c)"
    obtain c where c: "add_at m segs h c0 = Inr c" and node': "node' = RouteTrieNode (set_child seg c sc) pc pn hs"
      using Cons.prems False by (auto simp: node c0_def split: if_splits option.splits sum.splits)
    have "table node (Static seg # qs) = table c0 qs" for qs
      by (auto simp: node c0_def split: option.splits)
    moreover have "table node' (Static s # qs) = (if s = seg then table c qs else table node (Static s # qs))" for s qs
      by (simp add: node' node map_of_set_child)
    ultimately show ?thesis
      using Cons.IH [OF c] False node node'
      by (cases ps rule: pats_cases) (simp_all add: pat_of_def)
  qed
qed

section \<open>Matching\<close>

fun fits :: "pat list \<Rightarrow> string list \<Rightarrow> bool" where
  "fits [] [] = True"
| "fits (Static s # ps) (x # xs) = (s = x \<and> fits ps xs)"
| "fits (Param _ # ps) (x # xs) = fits ps xs"
| "fits _ _ = False"

fun captures :: "pat list \<Rightarrow> string list \<Rightarrow> PathParam list" where
  "captures (Static s # ps) (x # xs) = captures ps xs"
| "captures (Param k # ps) (x # xs) = \<lparr>pp_key = k, pp_value = x\<rparr> # captures ps xs"
| "captures _ _ = []"

text \<open>At the first segment where two patterns differ in kind the preferred one is static.\<close>

fun preferred :: "pat list \<Rightarrow> pat list \<Rightarrow> bool" where
  "preferred (Static _ # ps) (Param _ # qs) = True"
| "preferred (Param _ # ps) (Static _ # qs) = False"
| "preferred (_ # ps) (_ # qs) = preferred ps qs"
| "preferred _ _ = True"

definition best :: "'h RouteTrieNode \<Rightarrow> string list \<Rightarrow> pat list \<Rightarrow> bool" where
  "best node segs ps \<longleftrightarrow>
     fits ps segs \<and> table node ps \<noteq> [] \<and> (\<forall>qs. fits qs segs \<and> table node qs \<noteq> [] \<longrightarrow> preferred ps qs)"

definition unmatched :: "'h RouteTrieNode \<Rightarrow> string list \<Rightarrow> bool" where
  "unmatched node segs \<longleftrightarrow> (\<forall>ps. fits ps segs \<longrightarrow> table node ps = [])"

definition match_result ::
  "Method \<Rightarrow> 'h RouteTrieNode \<Rightarrow> pat list \<Rightarrow> string list \<Rightarrow> 'h RouteMatch \<Rightarrow> 'h RouteMatch" where
  "match_result m node ps segs r =
     r\<lparr>rm_handler := (case map_of (table node ps) m of None \<Rightarrow> rm_handler r | Some h \<Rightarrow> Some h),
       rm_params := rm_params r @ captures ps segs, rm_path_matched := True\<rparr>"

lemma fits_Cons: "fits ps (x # xs) \<longleftrightarrow> (\<exists>qs. (ps = Static x # qs \<or> (\<exists>k. ps = Param k # qs)) \<and> fits qs xs)"
  by (cases ps rule: pats_cases) auto

lemma fits_Nil [simp]: "fits ps [] \<longleftrightarrow> ps = []"
  by (cases ps rule: pats_cases) auto

lemma unmatched_Cons:
  "unmatched node (seg # segs) \<longleftrightarrow>
     (\<forall>c. map_of (static_child node) seg = Some c \<longrightarrow> unmatched c segs) \<and> (\<forall>c. param_child node = Some c \<longrightarrow> unmatched c segs)"
proof -
  have "(\<forall>ps. fits ps (seg # segs) \<longrightarrow> table node ps = []) \<longleftrightarrow>
      (\<forall>qs. fits qs segs \<longrightarrow> table node (Static seg # qs) = [] \<and> (\<forall>k. table node (Param k # qs) = []))"
    unfolding fits_Cons by blast
  then show ?thesis unfolding unmatched_def by (auto split: option.splits)
qed

lemma best_Static:
  "map_of (static_child node) seg = Some c \<Longrightarrow> best c segs ps \<Longrightarrow> best node (seg # segs) (Static seg # ps)"
  by (auto simp: best_def fits_Cons)

lemma best_Param:
  assumes "\<And>c. map_of (static_child node) seg = Some c \<Longrightarrow> unmatched c segs"
    and "param_child node = Some c" "best c segs ps"
  shows "best node (seg # segs) (Param (param_name c) # ps)"
  using assms by (auto simp: best_def unmatched_def fits_Cons split: option.splits if_splits)

lemma MatchNode_spec:
  "case MatchNode m segs node r of
     (True, r') \<Rightarrow> (\<exists>ps. best node segs ps \<and> r' = match_result m node ps segs r)
   | (False, r') \<Rightarrow> r' = r \<and> unmatched node segs"
proof (induction m segs node r rule: MatchNode.induct)
  case (1 m node r)
  then show ?case by (auto simp: best_def unmatched_def match_result_def Let_def split: option.split)
next
  case (2 m seg segs node r)
  show ?case
  proof (cases "\<exists>c r1. map_of (static_child node) seg = Some c \<and> MatchNode m segs c r = (True, r1)")
    case True
    then obtain c r1 where c: "map_of (static_child node) seg = Some c" "MatchNode m segs c r = (True, r1)" by blast
    then obtain ps where "best c segs ps" "r1 = match_result m c ps segs r" using 2(1) [OF c(1)] by auto
    then have "best node (seg # segs) (Static seg # ps) \<and> r1 = match_result m node (Static seg # ps) (seg # segs) r"
      using c(1) best_Static by (auto simp: match_result_def)
    then show ?thesis using c by auto
  next
    case False
    have fail: "MatchNode m segs c r = (False, r) \<and> unmatched c segs" if "map_of (static_child node) seg = Some c" for c
      using 2(1) [OF that] False that by (cases "MatchNode m segs c r"; cases "fst (MatchNode m segs c r)") auto
    then have static: "(case map_of (static_child node) seg of None \<Rightarrow> (False, r) | Some c \<Rightarrow> MatchNode m segs c r) = (False, r)"
      by (simp split: option.split)
    have un: "\<And>c. map_of (static_child node) seg = Some c \<Longrightarrow> unmatched c segs" using fail by blast
    show ?thesis
    proof (cases "param_child node")
      case None
      then show ?thesis using static un by (simp add: unmatched_Cons)
    next
      case (Some c)
      let ?r1 = "r\<lparr>rm_params := rm_params r @ [\<lparr>pp_key = param_name c, pp_value = seg\<rparr>]\<rparr>"
      obtain ok r2 where m: "MatchNode m segs c ?r1 = (ok, r2)" by (cases "MatchNode m segs c ?r1")
      note IH = 2(2) [OF static [symmetric] refl _ Some refl]
      show ?thesis
      proof (cases ok)
        case True
        then obtain ps where ps: "best c segs ps" "r2 = match_result m c ps segs ?r1" using IH m by auto
        then have "best node (seg # segs) (Param (param_name c) # ps)" using best_Param [OF un Some] by blast
        moreover have "r2 = match_result m node (Param (param_name c) # ps) (seg # segs) r"
          using ps(2) Some by (simp add: match_result_def split: option.split)
        ultimately show ?thesis using static Some m True by auto
      next
        case False
        then have "r2 = ?r1" "unmatched c segs" using IH m by auto
        then show ?thesis using static Some m False un by (simp add: unmatched_Cons)
      qed
    qed
  qed
qed

section \<open>Registering routes\<close>

fun register :: "(Method \<times> string \<times> 'h) list \<Rightarrow> 'h RouteTrieNode \<Rightarrow> RouteError + 'h RouteTrieNode" where
  "register [] root = Inr root"
| "register ((m, path, h) # rs) root =
     (case Router_Add m path (Some h) root of Inl e \<Rightarrow> Inl e | Inr root' \<Rightarrow> register rs root')"

definition pattern :: "string \<Rightarrow> pat list" where
  "pattern path = map pat_of (segments_of path)"

definition handlers_for :: "pat list \<Rightarrow> (Method \<times> string \<times> 'h) list \<Rightarrow> (Method \<times> 'h) list" where
  "handlers_for ps rs = map (\<lambda>(m, _, h). (m, h)) (filter (\<lambda>(_, path, _). pattern path = ps) rs)"

lemma register_table: "register rs root = Inr root' \<Longrightarrow> table root' ps = table root ps @ handlers_for ps rs"
proof (induction rs arbitrary: root)
  case (Cons r rs)
  obtain m path h where r: "r = (m, path, h)" by (cases r)
  then obtain root1 where r1: "Router_Add m path (Some h) root = Inr root1" "register rs root1 = Inr root'"
    using Cons.prems by (auto split: sum.splits)
  then have "add_at m (segments_of path) h root = Inr root1"
    by (auto simp: Router_Add_def SplitPath_segments split: if_splits)
  then show ?case using Cons.IH [OF r1(2)] add_at_table [of m "segments_of path" h root root1 ps]
    by (auto simp: r handlers_for_def pattern_def)
qed (simp add: handlers_for_def)

lemma handlers_for_empty: "handlers_for ps rs = [] \<longleftrightarrow> (\<forall>(m, path, h) \<in> set rs. pattern path \<noteq> ps)"
  by (auto simp: handlers_for_def filter_empty_conv)

text \<open>(C33) The router is a routing table: when the registration of a list of routes succeeds, a lookup reports a matched
path exactly if the pattern of some registered route fits the segments of the path. It then answers for one fitting
pattern that is at least as static as every other, with the handler registered for that pattern and the method if
there is one, and with the segments captured by the parameters of that pattern.\<close>

theorem router_is_a_table:
  assumes "register rs (new_node []) = Inr root"
  shows "let r = Router_Match m path root; segs = segments_of path in
    if \<exists>(_, p, _) \<in> set rs. fits (pattern p) segs
    then \<exists>ps. (\<exists>(_, p, _) \<in> set rs. pattern p = ps) \<and> fits ps segs
           \<and> (\<forall>(_, p, _) \<in> set rs. fits (pattern p) segs \<longrightarrow> preferred ps (pattern p))
           \<and> r = \<lparr>rm_handler = map_of (handlers_for ps rs) m, rm_params = captures ps segs, rm_path_matched = True\<rparr>
    else r = \<lparr>rm_handler = None, rm_params = [], rm_path_matched = False\<rparr>"
proof -
  define segs where "segs = segments_of path"
  define r0 :: "'a RouteMatch" where "r0 = \<lparr>rm_handler = None, rm_params = [], rm_path_matched = False\<rparr>"
  have tab: "table root ps = handlers_for ps rs" for ps using register_table [OF assms, of ps] by simp
  obtain ok r where mn: "MatchNode m segs root r0 = (ok, r)" by (cases "MatchNode m segs root r0")
  have res: "Router_Match m path root = r" using mn by (simp add: Router_Match_def SplitPath_segments segs_def r0_def)
  have fit: "(\<exists>ps. fits ps segs \<and> table root ps \<noteq> []) \<longleftrightarrow> (\<exists>(_, p, _) \<in> set rs. fits (pattern p) segs)"
    unfolding tab handlers_for_empty by blast
  show ?thesis
  proof (cases ok)
    case True
    then obtain ps where ps: "best root segs ps" "r = match_result m root ps segs r0"
      using MatchNode_spec [where m = m and segs = segs and node = root and r = r0] mn by auto
    have "r = \<lparr>rm_handler = map_of (handlers_for ps rs) m, rm_params = captures ps segs, rm_path_matched = True\<rparr>"
      using ps(2) by (simp add: match_result_def r0_def tab split: option.split)
    moreover have "\<forall>(_, p, _) \<in> set rs. fits (pattern p) segs \<longrightarrow> preferred ps (pattern p)"
      using ps(1) unfolding best_def tab handlers_for_empty by blast
    moreover have "\<exists>(_, p, _) \<in> set rs. pattern p = ps" "fits ps segs" "\<exists>(_, p, _) \<in> set rs. fits (pattern p) segs"
      using ps(1) fit unfolding best_def tab handlers_for_empty by blast+
    ultimately show ?thesis unfolding Let_def res segs_def [symmetric] by auto
  next
    case False
    then have "r = r0" "unmatched root segs" using MatchNode_spec [where m = m and segs = segs and node = root and r = r0] mn by auto
    then show ?thesis using fit unfolding Let_def res segs_def [symmetric] unmatched_def r0_def by auto
  qed
qed

definition demo_routes :: "(Method \<times> string \<times> nat) list" where
  "demo_routes = [(Get, ''/users/me'', 1), (Post, ''/users/:id'', 2)]"

definition demo_root :: "nat RouteTrieNode" where
  "demo_root = RouteTrieNode
     [(''users'', RouteTrieNode [(''me'', RouteTrieNode [] None [] [(Get, 1)])]
        (Some (RouteTrieNode [] None ''id'' [(Post, 2)])) [] [])] None [] []"

lemma demo_register: "register demo_routes (new_node []) = Inr demo_root"
  by (simp add: demo_routes_def demo_root_def Router_Add_def SplitPath_segments segments_of_def IsParamSegment_def
        ExtractParamName_def new_node_def)

theorem router_is_a_table_witness:
  "rm_handler (Router_Match Post ''/users/7'' demo_root) = Some 2"
proof -
  let ?segs = "segments_of ''/users/7''"
  have "pattern ''/users/:id'' = [Static ''users'', Param ''id'']" "pattern ''/users/me'' = [Static ''users'', Static ''me'']"
      "?segs = [''users'', ''7'']"
    by (simp_all add: pattern_def segments_of_def pat_of_def IsParamSegment_def ExtractParamName_def)
  moreover note router_is_a_table [OF demo_register, of Post "''/users/7''"]
  ultimately show ?thesis by (auto simp: demo_routes_def handlers_for_def Let_def)
qed

text \<open>A route of the requested method can be hidden by a static route of another method.\<close>

lemma static_route_hides_method:
  "Router_Match Post ''/users/me'' demo_root = \<lparr>rm_handler = None, rm_params = [], rm_path_matched = True\<rparr>"
  by (simp add: Router_Match_def SplitPath_segments segments_of_def demo_root_def)

end
