(* ===== verification/Timestamp.thy ===== *)
theory Timestamp
  imports Doubles Strings
begin

text \<open>
  Points in time of \<open>timestamp.h\<close> and \<open>timestamp.cc\<close>: microseconds since the epoch as an
  unsigned 64-bit integer.  The system clock is an argument of what reads it.  The
  formatting in local time (\<open>localtime_r\<close>, \<open>put_time\<close>) is not modelled.
\<close>

type_synonym Timestamp = u64

definition Timestamp_Invalid :: Timestamp where "Timestamp_Invalid = 0"

definition Valid :: "Timestamp \<Rightarrow> bool" where "Valid t \<longleftrightarrow> 0 < t"

definition MillisecondsSinceEpoch :: "Timestamp \<Rightarrow> u64" where "MillisecondsSinceEpoch t = t div 1000"

definition SecondsSinceEpoch :: "Timestamp \<Rightarrow> u64" where "SecondsSinceEpoch t = t div 1000000"

text \<open>\<open>std::setw(6) << std::setfill('0')\<close>.\<close>

definition setw6 :: "string \<Rightarrow> string" where
  "setw6 s = replicate (6 - length s) (CHR ''0'') @ s"

definition Timestamp_ToString :: "Timestamp \<Rightarrow> string" where
  "Timestamp_ToString t =
     to_string_nat (unat (SecondsSinceEpoch t)) @ ''.'' @ setw6 (to_string_nat (unat (t mod 1000000)))"

definition TimeDifference :: "Timestamp \<Rightarrow> Timestamp \<Rightarrow> double" where
  "TimeDifference high low = rnd (rnd (rnd (of_u64 high) - rnd (of_u64 low)) / 1000000)"

text \<open>\<open>static_cast<std::int64_t>\<close> of a double in range truncates towards zero.\<close>

definition trunc :: "double \<Rightarrow> int" where
  "trunc x = (if 0 \<le> x then \<lfloor>x\<rfloor> else \<lceil>x\<rceil>)"

definition AddTime :: "Timestamp \<Rightarrow> double \<Rightarrow> Timestamp" where
  "AddTime t seconds =
     (let delta = trunc (rnd (seconds * 1000000)) in
      if delta < 0 \<and> uint t < - delta then Timestamp_Invalid
      else t + word_of_int delta)"

text \<open>Adding a time does not wrap below the epoch, and above it not before the year 586524.\<close>

lemma AddTime_exact:
  assumes "- uint t \<le> trunc (rnd (seconds * 1000000))" "uint t + trunc (rnd (seconds * 1000000)) < 2 ^ 64"
  shows "uint (AddTime t seconds) = uint t + trunc (rnd (seconds * 1000000))"
proof -
  let ?d = "trunc (rnd (seconds * 1000000))"
  have "uint (t + word_of_int ?d) = (uint t + ?d) mod 2 ^ 64"
    by (simp add: uint_word_ariths unsigned_of_int take_bit_eq_mod mod_simps)
  then show ?thesis using assms by (simp add: AddTime_def Let_def)
qed

lemma AddTime_underflow:
  "uint t < - trunc (rnd (seconds * 1000000)) \<Longrightarrow> \<not> Valid (AddTime t seconds)"
proof -
  assume "uint t < - trunc (rnd (seconds * 1000000))"
  moreover have "0 \<le> uint t" by simp
  ultimately have "trunc (rnd (seconds * 1000000)) < 0" by linarith
  then show ?thesis using \<open>uint t < _\<close> by (simp add: AddTime_def Let_def Timestamp_Invalid_def Valid_def)
qed

subsection \<open>The machine-readable form\<close>

definition micros_of_string :: "string \<Rightarrow> nat" where
  "micros_of_string s =
     dec_value (takeWhile (\<lambda>c. c \<noteq> CHR ''.'') s) * 1000000 + dec_value (drop 1 (dropWhile (\<lambda>c. c \<noteq> CHR ''.'') s))"

lemma dec_value_zeros: "dec_value (replicate n (CHR ''0'') @ s) = dec_value s"
  by (induction n) (simp_all add: dec_value_def digit_val_def)

lemma split_upto:
  "c \<notin> set a \<Longrightarrow> takeWhile (\<lambda>x. x \<noteq> c) (a @ c # s) = a" "c \<notin> set a \<Longrightarrow> dropWhile (\<lambda>x. x \<noteq> c) (a @ c # s) = c # s"
  by (induction a) auto

lemma Timestamp_ToString_roundtrip: "micros_of_string (Timestamp_ToString t) = unat t"
proof -
  let ?a = "to_string_nat (unat (SecondsSinceEpoch t))"
  have "CHR ''.'' \<notin> set ?a" using to_string_nat_digits [of "CHR ''.''"] by (auto simp: is_digit_def)
  note split = split_upto [OF this]
  have "micros_of_string (Timestamp_ToString t) = unat (t div 1000000) * 1000000 + unat (t mod 1000000)"
    by (simp add: micros_of_string_def Timestamp_ToString_def setw6_def dec_value_zeros SecondsSinceEpoch_def split [unfolded SecondsSinceEpoch_def])
  also have "\<dots> = unat t" by (simp add: unat_div unat_mod)
  finally show ?thesis .
qed

end
