(* ===== verification/LruCache.thy ===== *)
theory LruCache
  imports Timestamp Traces
begin

text \<open>
  The LRU cache of \<open>lru_cache.h\<close>: a list of entries from least to most recently used and
  an index from keys to list iterators.  An iterator is a number that identifies an entry,
  as in a \<open>std::list\<close> it stays valid when other entries move.  Every reading of the clock is
  an argument: an operation that may test several entries takes the sequence of its readings.

  Shown: list and index together behave as one list of entries in order of use, within the
  capacity; and an entry is not evicted before as many other keys as the capacity holds
  have been used after it.
\<close>

section \<open>The cache\<close>

record ('k, 'v) Entry =
  en_iter :: nat
  en_key :: 'k
  en_value :: 'v
  en_expire_at :: "Timestamp option"

record ('k, 'v) LRUCache =
  lru_capacity :: nat
  lru_entries :: "('k, 'v) Entry list"
  lru_index :: "('k \<times> nat) list"
  lru_next :: nat

definition new_LRUCache :: "nat \<Rightarrow> ('k, 'v) LRUCache" where
  "new_LRUCache cap = \<lparr>lru_capacity = cap, lru_entries = [], lru_index = [], lru_next = 0\<rparr>"

definition LRU_Empty :: "('k, 'v) LRUCache \<Rightarrow> bool" where "LRU_Empty c \<longleftrightarrow> lru_index c = []"

definition LRU_Size :: "('k, 'v) LRUCache \<Rightarrow> nat" where "LRU_Size c = length (lru_index c)"

definition IsExpired :: "Timestamp \<Rightarrow> ('k, 'v) Entry \<Rightarrow> bool" where
  "IsExpired now e = (case en_expire_at e of None \<Rightarrow> False | Some t \<Rightarrow> t \<le> now)"

definition index_erase :: "'k \<Rightarrow> ('k \<times> nat) list \<Rightarrow> ('k \<times> nat) list" where
  "index_erase k idx = filter (\<lambda>x. fst x \<noteq> k) idx"

definition entry_at :: "nat \<Rightarrow> ('k, 'v) Entry list \<Rightarrow> ('k, 'v) Entry option" where
  "entry_at it es = find (\<lambda>e. en_iter e = it) es"

definition Touch :: "nat \<Rightarrow> ('k, 'v) LRUCache \<Rightarrow> ('k, 'v) LRUCache" where
  "Touch it c = c\<lparr>lru_entries := filter (\<lambda>e. en_iter e \<noteq> it) (lru_entries c) @ filter (\<lambda>e. en_iter e = it) (lru_entries c)\<rparr>"

definition EraseInternal :: "'k \<Rightarrow> nat \<Rightarrow> ('k, 'v) LRUCache \<Rightarrow> ('k, 'v) LRUCache" where
  "EraseInternal k it c =
     c\<lparr>lru_entries := filter (\<lambda>e. en_iter e \<noteq> it) (lru_entries c), lru_index := index_erase k (lru_index c)\<rparr>"

text \<open>The iterator of an index entry always refers to an entry of the list; the case that it does not is undefined
in the source and shown not to occur.\<close>

definition LRU_Get :: "Timestamp \<Rightarrow> 'k \<Rightarrow> ('k, 'v) LRUCache \<Rightarrow> 'v option \<times> ('k, 'v) LRUCache" where
  "LRU_Get now k c =
     (case map_of (lru_index c) k of
        None \<Rightarrow> (None, c)
      | Some it \<Rightarrow>
          (case entry_at it (lru_entries c) of
             None \<Rightarrow> (None, c)
           | Some e \<Rightarrow>
               if IsExpired now e then (None, EraseInternal k it c)
               else (Some (en_value e), Touch it c)))"

definition LRU_Contains :: "Timestamp \<Rightarrow> 'k \<Rightarrow> ('k, 'v) LRUCache \<Rightarrow> bool" where
  "LRU_Contains now k c =
     (case map_of (lru_index c) k of
        None \<Rightarrow> False
      | Some it \<Rightarrow> (case entry_at it (lru_entries c) of None \<Rightarrow> False | Some e \<Rightarrow> \<not> IsExpired now e))"

definition LRU_Erase :: "'k \<Rightarrow> ('k, 'v) LRUCache \<Rightarrow> bool \<times> ('k, 'v) LRUCache" where
  "LRU_Erase k c =
     (case map_of (lru_index c) k of None \<Rightarrow> (False, c) | Some it \<Rightarrow> (True, EraseInternal k it c))"

definition LRU_Clear :: "('k, 'v) LRUCache \<Rightarrow> ('k, 'v) LRUCache" where
  "LRU_Clear c = c\<lparr>lru_index := [], lru_entries := []\<rparr>"

text \<open>The scan of \<open>PruneExpired\<close>; the number of the test decides which reading it uses.\<close>

fun prune_loop ::
  "(nat \<Rightarrow> Timestamp) \<Rightarrow> nat \<Rightarrow> ('k, 'v) Entry list \<Rightarrow> ('k \<times> nat) list \<Rightarrow> nat \<times> ('k, 'v) Entry list \<times> ('k \<times> nat) list" where
  "prune_loop nows i [] idx = (0, [], idx)"
| "prune_loop nows i (e # es) idx =
     (if \<not> IsExpired (nows i) e then
        (let (n, es', idx') = prune_loop nows (i + 1) es idx in (n, e # es', idx'))
      else
        (let (n, es', idx') = prune_loop nows (i + 1) es (index_erase (en_key e) idx) in (n + 1, es', idx')))"

definition PruneExpired :: "(nat \<Rightarrow> Timestamp) \<Rightarrow> ('k, 'v) LRUCache \<Rightarrow> nat \<times> ('k, 'v) LRUCache" where
  "PruneExpired nows c =
     (let (n, es, idx) = prune_loop nows 0 (lru_entries c) (lru_index c) in
      (n, c\<lparr>lru_entries := es, lru_index := idx\<rparr>))"

definition EvictOne :: "('k, 'v) LRUCache \<Rightarrow> ('k, 'v) LRUCache" where
  "EvictOne c =
     (case lru_entries c of
        [] \<Rightarrow> c
      | oldest # es \<Rightarrow> c\<lparr>lru_index := index_erase (en_key oldest) (lru_index c), lru_entries := es\<rparr>)"

fun assign_at :: "nat \<Rightarrow> 'v \<Rightarrow> Timestamp option \<Rightarrow> ('k, 'v) Entry list \<Rightarrow> ('k, 'v) Entry list" where
  "assign_at it v ex [] = []"
| "assign_at it v ex (e # es) =
     (if en_iter e = it then e\<lparr>en_value := v, en_expire_at := ex\<rparr> # es else e # assign_at it v ex es)"

definition PutInternal ::
  "(nat \<Rightarrow> Timestamp) \<Rightarrow> 'k \<Rightarrow> 'v \<Rightarrow> Timestamp option \<Rightarrow> ('k, 'v) LRUCache \<Rightarrow> ('k, 'v) LRUCache" where
  "PutInternal nows k v ex c =
     (if lru_capacity c = 0 then c
      else case map_of (lru_index c) k of
          Some it \<Rightarrow> Touch it (c\<lparr>lru_entries := assign_at it v ex (lru_entries c)\<rparr>)
        | None \<Rightarrow>
            (let c1 = snd (PruneExpired nows c);
                 c2 = (if lru_capacity c1 \<le> LRU_Size c1 then EvictOne c1 else c1);
                 e = \<lparr>en_iter = lru_next c2, en_key = k, en_value = v, en_expire_at = ex\<rparr>;
                 c3 = c2\<lparr>lru_entries := lru_entries c2 @ [e], lru_next := lru_next c2 + 1\<rparr> in
             if map_of (lru_index c3) k = None then c3\<lparr>lru_index := lru_index c3 @ [(k, en_iter e)]\<rparr>
             else c3\<lparr>lru_entries := butlast (lru_entries c3)\<rparr>))"

definition LRU_Put :: "(nat \<Rightarrow> Timestamp) \<Rightarrow> 'k \<Rightarrow> 'v \<Rightarrow> ('k, 'v) LRUCache \<Rightarrow> ('k, 'v) LRUCache" where
  "LRU_Put nows k v c = PutInternal nows k v None c"

definition LRU_Put_until ::
  "(nat \<Rightarrow> Timestamp) \<Rightarrow> 'k \<Rightarrow> 'v \<Rightarrow> Timestamp \<Rightarrow> ('k, 'v) LRUCache \<Rightarrow> ('k, 'v) LRUCache" where
  "LRU_Put_until nows k v expire_at c = PutInternal nows k v (Some expire_at) c"

definition LRU_Put_ttl ::
  "Timestamp \<Rightarrow> (nat \<Rightarrow> Timestamp) \<Rightarrow> 'k \<Rightarrow> 'v \<Rightarrow> double \<Rightarrow> ('k, 'v) LRUCache \<Rightarrow> ('k, 'v) LRUCache" where
  "LRU_Put_ttl now nows k v ttl_seconds c = PutInternal nows k v (Some (AddTime now ttl_seconds)) c"

section \<open>One list in order of use\<close>

type_synonym ('k, 'v) lru_spec = "('k \<times> 'v \<times> Timestamp option) list"

definition dead :: "Timestamp \<Rightarrow> 'k \<times> 'v \<times> Timestamp option \<Rightarrow> bool" where
  "dead now x = (case snd (snd x) of None \<Rightarrow> False | Some t \<Rightarrow> t \<le> now)"

definition without :: "'k \<Rightarrow> ('k, 'v) lru_spec \<Rightarrow> ('k, 'v) lru_spec" where
  "without k l = filter (\<lambda>x. fst x \<noteq> k) l"

fun prune_spec :: "(nat \<Rightarrow> Timestamp) \<Rightarrow> nat \<Rightarrow> ('k, 'v) lru_spec \<Rightarrow> ('k, 'v) lru_spec" where
  "prune_spec nows i [] = []"
| "prune_spec nows i (x # xs) = (if dead (nows i) x then prune_spec nows (i + 1) xs else x # prune_spec nows (i + 1) xs)"

datatype ('k, 'v) cache_op =
    CGet Timestamp 'k | CPut "nat \<Rightarrow> Timestamp" 'k 'v "Timestamp option" | CErase 'k | CPrune "nat \<Rightarrow> Timestamp" | CClear

datatype 'v cache_out = Val "'v option" | Flag bool | Count nat | Done

fun lru_step :: "('k, 'v) cache_op \<Rightarrow> ('k, 'v) LRUCache \<Rightarrow> 'v cache_out \<times> ('k, 'v) LRUCache" where
  "lru_step (CGet now k) c = apfst Val (LRU_Get now k c)"
| "lru_step (CPut nows k v ex) c = (Done, PutInternal nows k v ex c)"
| "lru_step (CErase k) c = apfst Flag (LRU_Erase k c)"
| "lru_step (CPrune nows) c = apfst Count (PruneExpired nows c)"
| "lru_step CClear c = (Done, LRU_Clear c)"

fun spec_cache_step :: "nat \<Rightarrow> ('k, 'v) cache_op \<Rightarrow> ('k, 'v) lru_spec \<Rightarrow> 'v cache_out \<times> ('k, 'v) lru_spec" where
  "spec_cache_step cap (CGet now k) l =
     (case map_of l k of
        None \<Rightarrow> (Val None, l)
      | Some (v, ex) \<Rightarrow> if dead now (k, v, ex) then (Val None, without k l) else (Val (Some v), without k l @ [(k, v, ex)]))"
| "spec_cache_step cap (CPut nows k v ex) l =
     (Done,
      if cap = 0 then l
      else if map_of l k \<noteq> None then without k l @ [(k, v, ex)]
      else (let l1 = prune_spec nows 0 l in (if cap \<le> length l1 then tl l1 else l1) @ [(k, v, ex)]))"
| "spec_cache_step cap (CErase k) l = (Flag (map_of l k \<noteq> None), without k l)"
| "spec_cache_step cap (CPrune nows) l = (Count (length l - length (prune_spec nows 0 l)), prune_spec nows 0 l)"
| "spec_cache_step cap CClear l = (Done, [])"

definition abs_of :: "('k, 'v) Entry \<Rightarrow> 'k \<times> 'v \<times> Timestamp option" where
  "abs_of e = (en_key e, en_value e, en_expire_at e)"

definition view :: "('k, 'v) LRUCache \<Rightarrow> ('k, 'v) lru_spec" where
  "view c = map abs_of (lru_entries c)"

definition lru_inv :: "('k, 'v) LRUCache \<Rightarrow> bool" where
  "lru_inv c \<longleftrightarrow>
     distinct (map en_key (lru_entries c)) \<and> distinct (map en_iter (lru_entries c)) \<and>
     (\<forall>e \<in> set (lru_entries c). en_iter e < lru_next c) \<and>
     distinct (map fst (lru_index c)) \<and>
     set (lru_index c) = (\<lambda>e. (en_key e, en_iter e)) ` set (lru_entries c)"

lemma abs_of_simps [simp]: "fst (abs_of e) = en_key e" "dead now (abs_of e) = IsExpired now e"
  by (simp_all add: abs_of_def dead_def IsExpired_def)

lemma lru_size: "lru_inv c \<Longrightarrow> LRU_Size c = length (view c)"
proof -
  assume inv: "lru_inv c"
  have "length (lru_index c) = card (set (lru_index c))"
    using inv distinct_card [of "lru_index c"] by (simp add: lru_inv_def distinct_map)
  also have "\<dots> = card (set (lru_entries c))"
  proof -
    have "inj_on (\<lambda>e. (en_key e, en_iter e)) (set (lru_entries c))"
      using inv by (auto simp: lru_inv_def distinct_map inj_on_def)
    then show ?thesis using inv by (simp add: lru_inv_def card_image)
  qed
  also have "\<dots> = length (lru_entries c)" using inv by (simp add: lru_inv_def distinct_map distinct_card)
  finally show ?thesis by (simp add: LRU_Size_def view_def)
qed

lemma filter_iter:
  assumes "distinct (map en_iter es)" "distinct (map en_key es)" "e \<in> set es"
  shows "filter (\<lambda>x. en_iter x \<noteq> en_iter e) es = filter (\<lambda>x. en_key x \<noteq> en_key e) es"
    and "filter (\<lambda>x. en_iter x = en_iter e) es = [e]"
proof -
  have same: "en_iter x = en_iter e \<longleftrightarrow> x = e" "en_key x = en_key e \<longleftrightarrow> x = e" if "x \<in> set es" for x
    using assms that by (auto simp: distinct_map dest: inj_onD)
  show "filter (\<lambda>x. en_iter x \<noteq> en_iter e) es = filter (\<lambda>x. en_key x \<noteq> en_key e) es"
    using same by (intro filter_cong) auto
  have "filter (\<lambda>x. en_iter x = en_iter e) es = filter (\<lambda>x. x = e) es"
    using same by (intro filter_cong) auto
  also have "\<dots> = [e]" using assms(1,3) by (induction es) (auto simp: filter_empty_conv)
  finally show "filter (\<lambda>x. en_iter x = en_iter e) es = [e]" .
qed

lemma find_filter: "find P xs = (case filter P xs of [] \<Rightarrow> None | x # _ \<Rightarrow> Some x)"
  by (induction xs) auto

lemma lru_lookup:
  assumes "lru_inv c"
  obtains (absent) "map_of (lru_index c) k = None" "map_of (view c) k = None"
  | (present) e where "e \<in> set (lru_entries c)" "en_key e = k" "map_of (lru_index c) k = Some (en_iter e)"
      "entry_at (en_iter e) (lru_entries c) = Some e" "map_of (view c) k = Some (en_value e, en_expire_at e)"
proof (cases "k \<in> en_key ` set (lru_entries c)")
  case False
  have "fst ` set (lru_index c) = en_key ` set (lru_entries c)" using assms by (auto simp: lru_inv_def image_image)
  then show thesis using False by (intro absent) (auto simp: map_of_eq_None_iff view_def image_image)
next
  case True
  then obtain e where e: "e \<in> set (lru_entries c)" "en_key e = k" by blast
  have d: "distinct (map en_iter (lru_entries c))" "distinct (map en_key (lru_entries c))" "distinct (map fst (lru_index c))"
    using assms by (simp_all add: lru_inv_def)
  have "(k, en_iter e) \<in> set (lru_index c)" using assms e by (auto simp: lru_inv_def)
  moreover have "entry_at (en_iter e) (lru_entries c) = Some e"
    using filter_iter(2) [OF d(1,2) e(1)] by (simp add: entry_at_def find_filter)
  moreover have "(k, en_value e, en_expire_at e) \<in> set (view c)" using e by (force simp: view_def abs_of_def)
  moreover have "distinct (map fst (view c))" using d(2) by (simp add: view_def comp_def)
  ultimately show thesis using e d by (intro present) (simp_all add: map_of_eq_Some_iff)
qed

lemma view_without: "map abs_of (filter (\<lambda>x. en_key x \<noteq> k) es) = without k (map abs_of es)"
  by (simp add: without_def filter_map comp_def)

lemma Touch_view:
  assumes "lru_inv c" "e \<in> set (lru_entries c)"
  shows "lru_inv (Touch (en_iter e) c)" "view (Touch (en_iter e) c) = without (en_key e) (view c) @ [abs_of e]"
proof -
  have d: "distinct (map en_iter (lru_entries c))" "distinct (map en_key (lru_entries c))" using assms by (simp_all add: lru_inv_def)
  note f = filter_iter [OF d assms(2)]
  have set_eq: "set (filter (\<lambda>x. en_key x \<noteq> en_key e) (lru_entries c) @ [e]) = set (lru_entries c)"
    using assms(2) d(2) by (auto simp: distinct_map dest: inj_onD)
  show "view (Touch (en_iter e) c) = without (en_key e) (view c) @ [abs_of e]"
    by (simp add: Touch_def view_def f view_without)
  have "en_iter e \<notin> en_iter ` {x \<in> set (lru_entries c). en_key x \<noteq> en_key e}"
    using d(1) assms(2) by (auto simp: distinct_map dest: inj_onD)
  moreover have "en_key e \<notin> en_key ` {x \<in> set (lru_entries c). en_key x \<noteq> en_key e}" by auto
  ultimately show "lru_inv (Touch (en_iter e) c)"
    using assms(1) set_eq d unfolding lru_inv_def Touch_def
    by (simp add: f distinct_map_filter)
qed

lemma EraseInternal_view:
  assumes "lru_inv c" "e \<in> set (lru_entries c)"
  shows "lru_inv (EraseInternal (en_key e) (en_iter e) c)"
    "view (EraseInternal (en_key e) (en_iter e) c) = without (en_key e) (view c)"
proof -
  have d: "distinct (map en_iter (lru_entries c))" "distinct (map en_key (lru_entries c))" using assms by (simp_all add: lru_inv_def)
  note f = filter_iter(1) [OF d assms(2)]
  show "view (EraseInternal (en_key e) (en_iter e) c) = without (en_key e) (view c)"
    by (simp add: EraseInternal_def view_def f view_without)
  show "lru_inv (EraseInternal (en_key e) (en_iter e) c)"
    using assms(1) d unfolding lru_inv_def EraseInternal_def
    by (auto simp: f distinct_map_filter index_erase_def)
qed

text \<open>What a scan keeps.\<close>

lemma prune_loop_view:
  "prune_loop nows i es idx = (n, es', idx') \<Longrightarrow>
   map abs_of es' = prune_spec nows i (map abs_of es) \<and> n + length es' = length es"
  by (induction nows i es idx arbitrary: n es' idx' rule: prune_loop.induct) (fastforce split: if_splits prod.splits)+

lemma prune_loop_sub:
  "prune_loop nows i es idx = (n, es', idx') \<Longrightarrow> set es' \<subseteq> set es"
  by (induction nows i es idx arbitrary: n es' idx' rule: prune_loop.induct) (fastforce split: if_splits prod.splits)+

lemma prune_loop_distinct:
  "prune_loop nows i es idx = (n, es', idx') \<Longrightarrow> distinct (map f es) \<Longrightarrow> distinct (map f es')"
proof (induction nows i es idx arbitrary: n es' idx' rule: prune_loop.induct)
  case (2 nows i e es idx)
  show ?case
  proof (cases "IsExpired (nows i) e")
    case True
    then show ?thesis using 2(2) [OF _ ] 2(3,4) by (auto split: prod.splits)
  next
    case False
    obtain es1 where r: "prune_loop nows (i + 1) es idx = (n, es1, idx')" "es' = e # es1"
      using 2(3) False by (auto split: prod.splits)
    then show ?thesis using 2(1) [OF False r(1)] prune_loop_sub [OF r(1)] 2(4) by auto
  qed
qed simp

lemma prune_loop_index:
  "prune_loop nows i es idx = (n, es', idx') \<Longrightarrow> distinct (map en_key es) \<Longrightarrow>
   set idx = P \<union> (\<lambda>e. (en_key e, en_iter e)) ` set es \<Longrightarrow> fst ` P \<inter> en_key ` set es = {} \<Longrightarrow> distinct (map fst idx) \<Longrightarrow>
   set idx' = P \<union> (\<lambda>e. (en_key e, en_iter e)) ` set es' \<and> distinct (map fst idx')"
proof (induction nows i es idx arbitrary: P n es' idx' rule: prune_loop.induct)
  case (2 nows i e es idx)
  show ?case
  proof (cases "IsExpired (nows i) e")
    case True
    obtain n1 where r: "prune_loop nows (i + 1) es (index_erase (en_key e) idx) = (n1, es', idx')"
      using 2(3) True by (auto split: prod.splits)
    have "set (index_erase (en_key e) idx) = P \<union> (\<lambda>e. (en_key e, en_iter e)) ` set es"
      using 2(4-6) by (auto simp: index_erase_def) (force simp: image_iff)+
    then show ?thesis
      using 2(2) [OF _ r, of P] True 2(4,6,7) by (auto simp: index_erase_def distinct_map_filter)
  next
    case False
    obtain es1 where r: "prune_loop nows (i + 1) es idx = (n, es1, idx')" "es' = e # es1"
      using 2(3) False by (auto split: prod.splits)
    then show ?thesis
      using 2(1) [OF False r(1), of "insert (en_key e, en_iter e) P"] 2(4-7) by auto
  qed
qed simp

lemma PruneExpired_view:
  assumes "lru_inv c" "PruneExpired nows c = (n, c')"
  shows "lru_inv c' \<and> view c' = prune_spec nows 0 (view c) \<and> n = length (view c) - length (view c')
    \<and> lru_capacity c' = lru_capacity c \<and> lru_next c' = lru_next c"
proof -
  obtain es idx where r: "prune_loop nows 0 (lru_entries c) (lru_index c) = (n, es, idx)"
      and c': "c' = c\<lparr>lru_entries := es, lru_index := idx\<rparr>"
    using assms(2) by (auto simp: PruneExpired_def Let_def split: prod.splits)
  have "set idx = (\<lambda>e. (en_key e, en_iter e)) ` set es \<and> distinct (map fst idx)"
    using prune_loop_index [OF r, of "{}"] assms(1) by (simp add: lru_inv_def)
  then have "lru_inv c'"
    using assms(1) prune_loop_distinct [OF r, of en_key] prune_loop_distinct [OF r, of en_iter] prune_loop_sub [OF r]
    unfolding lru_inv_def c' by auto
  moreover have "length (map abs_of es) = length es" by simp
  ultimately show ?thesis using prune_loop_view [OF r] by (auto simp: c' view_def)
qed

lemma EvictOne_view:
  assumes "lru_inv c"
  shows "lru_inv (EvictOne c)" "view (EvictOne c) = tl (view c)"
    "lru_capacity (EvictOne c) = lru_capacity c" "lru_next (EvictOne c) = lru_next c"
  using assms by (auto simp: EvictOne_def lru_inv_def view_def index_erase_def distinct_map_filter split: list.split) (metis image_eqI)

lemma assign_at_simps:
  "map en_key (assign_at it v ex es) = map en_key es" "map en_iter (assign_at it v ex es) = map en_iter es"
  "(\<lambda>e. (en_key e, en_iter e)) ` set (assign_at it v ex es) = (\<lambda>e. (en_key e, en_iter e)) ` set es"
  "en_iter ` set (assign_at it v ex es) = en_iter ` set es"
  by (induction it v ex es rule: assign_at.induct) auto

lemma assign_at_entry:
  "e \<in> set es \<Longrightarrow> distinct (map en_iter es) \<Longrightarrow>
   e\<lparr>en_value := v, en_expire_at := ex\<rparr> \<in> set (assign_at (en_iter e) v ex es)
   \<and> filter (\<lambda>x. en_key x \<noteq> en_key e) (assign_at (en_iter e) v ex es) = filter (\<lambda>x. en_key x \<noteq> en_key e) es"
  by (induction "en_iter e" v ex es rule: assign_at.induct) (auto simp: image_iff)

lemma insert_view:
  fixes v :: 'v and ex :: "Timestamp option"
  assumes "lru_inv c" "map_of (view c) k = None"
  defines "e \<equiv> \<lparr>en_iter = lru_next c, en_key = k, en_value = v, en_expire_at = ex\<rparr>"
  shows "lru_inv (c\<lparr>lru_entries := lru_entries c @ [e], lru_next := lru_next c + 1, lru_index := lru_index c @ [(k, lru_next c)]\<rparr>)"
    "map_of (lru_index c) k = None"
proof -
  show i: "map_of (lru_index c) k = None" by (rule lru_lookup [OF assms(1), of k]) (use assms(2) in auto)
  have "k \<notin> en_key ` set (lru_entries c)" using assms(2) by (simp add: view_def map_of_eq_None_iff image_image)
  moreover have "k \<notin> fst ` set (lru_index c)" using i by (simp add: map_of_eq_None_iff)
  moreover have "lru_next c \<notin> en_iter ` set (lru_entries c)" using assms(1) by (auto simp: lru_inv_def)
  ultimately show "lru_inv (c\<lparr>lru_entries := lru_entries c @ [e], lru_next := lru_next c + 1, lru_index := lru_index c @ [(k, lru_next c)]\<rparr>)"
    using assms(1) by (auto simp: lru_inv_def e_def less_SucI)
qed

lemma PutInternal_existing:
  fixes v :: 'v and ex :: "Timestamp option"
  assumes "lru_inv c" "e \<in> set (lru_entries c)"
  defines "c' \<equiv> c\<lparr>lru_entries := assign_at (en_iter e) v ex (lru_entries c)\<rparr>"
  shows "lru_inv (Touch (en_iter e) c')" "view (Touch (en_iter e) c') = without (en_key e) (view c) @ [(en_key e, v, ex)]"
proof -
  have d: "distinct (map en_iter (lru_entries c))" using assms(1) by (simp add: lru_inv_def)
  note ae = assign_at_entry [OF assms(2) d, where v = v and ex = ex]
  have "\<forall>y \<in> en_iter ` set (assign_at (en_iter e) v ex (lru_entries c)). y < lru_next c"
    using assms(1) by (simp only: assign_at_simps(4)) (simp add: lru_inv_def)
  then have inv: "lru_inv c'"
    using assms(1) unfolding lru_inv_def c'_def by (simp add: assign_at_simps(1-3))
  let ?e' = "e\<lparr>en_value := v, en_expire_at := ex\<rparr>"
  have mem: "?e' \<in> set (lru_entries c')" using ae by (simp add: c'_def)
  show "lru_inv (Touch (en_iter e) c')" using Touch_view(1) [OF inv mem] by simp
  have "without (en_key e) (view c') = without (en_key e) (view c)"
    unfolding view_def view_without [symmetric] using ae by (simp add: c'_def)
  then show "view (Touch (en_iter e) c') = without (en_key e) (view c) @ [(en_key e, v, ex)]"
    using Touch_view(2) [OF inv mem] by (simp add: abs_of_def)
qed

lemma prune_spec_sub: "set (prune_spec nows i l) \<subseteq> set l"
  by (induction nows i l rule: prune_spec.induct) auto

lemma set_tl_subset: "set (tl l) \<subseteq> set l"
  by (cases l) auto

lemma PutInternal_view:
  assumes "lru_inv c"
  shows "lru_inv (PutInternal nows k v ex c) \<and> lru_capacity (PutInternal nows k v ex c) = lru_capacity c \<and>
    view (PutInternal nows k v ex c) = snd (spec_cache_step (lru_capacity c) (CPut nows k v ex) (view c))"
proof (cases "lru_capacity c = 0")
  case True
  then show ?thesis using assms by (simp add: PutInternal_def)
next
  case cap: False
  show ?thesis
  proof (rule lru_lookup [OF assms, of k])
    fix e assume e: "e \<in> set (lru_entries c)" "en_key e = k" "map_of (lru_index c) k = Some (en_iter e)"
      "map_of (view c) k = Some (en_value e, en_expire_at e)"
    then show ?thesis
      using cap PutInternal_existing [OF assms e(1), where v = v and ex = ex] by (simp add: PutInternal_def Touch_def)
  next
    assume none: "map_of (lru_index c) k = None" "map_of (view c) k = None"
    obtain n c1 where p: "PruneExpired nows c = (n, c1)" by (cases "PruneExpired nows c")
    note c1 = PruneExpired_view [OF assms p]
    define c2 where "c2 = (if lru_capacity c1 \<le> LRU_Size c1 then EvictOne c1 else c1)"
    have c2: "lru_inv c2" "lru_capacity c2 = lru_capacity c"
        "view c2 = (if lru_capacity c \<le> length (prune_spec nows 0 (view c)) then tl (prune_spec nows 0 (view c)) else prune_spec nows 0 (view c))"
      using c1 EvictOne_view [of c1] lru_size [of c1] by (auto simp: c2_def)
    have "set (view c2) \<subseteq> set (view c)"
      using c2(3) prune_spec_sub [of nows 0 "view c"] set_tl_subset [of "prune_spec nows 0 (view c)"] by auto
    then have "map_of (view c2) k = None" using none(2) by (auto simp: map_of_eq_None_iff)
    note ins = insert_view(1) [OF c2(1) this, where v = v and ex = ex] insert_view(2) [OF c2(1) this]
    have put: "PutInternal nows k v ex c = c2\<lparr>lru_entries := lru_entries c2 @ [\<lparr>en_iter = lru_next c2, en_key = k, en_value = v, en_expire_at = ex\<rparr>],
        lru_next := lru_next c2 + 1, lru_index := lru_index c2 @ [(k, lru_next c2)]\<rparr>"
      using cap none(1) p ins(2) by (simp add: PutInternal_def Let_def c2_def [symmetric])
    then show ?thesis using ins(1) c2(2,3) cap none(2) unfolding put by (simp add: view_def abs_of_def Let_def)
  qed
qed

lemma lru_step_refines:
  assumes "lru_inv c"
  shows "lru_inv (snd (lru_step x c)) \<and> lru_capacity (snd (lru_step x c)) = lru_capacity c \<and>
    (fst (lru_step x c), view (snd (lru_step x c))) = spec_cache_step (lru_capacity c) x (view c)"
proof (cases x)
  case (CGet now k)
  show ?thesis
  proof (rule lru_lookup [OF assms, of k])
    fix e assume e: "e \<in> set (lru_entries c)" "en_key e = k" "map_of (lru_index c) k = Some (en_iter e)"
      "entry_at (en_iter e) (lru_entries c) = Some e" "map_of (view c) k = Some (en_value e, en_expire_at e)"
    have "dead now (k, en_value e, en_expire_at e) = IsExpired now e" "abs_of e = (k, en_value e, en_expire_at e)"
      using abs_of_simps(2) [of now e] e(2) by (simp_all add: abs_of_def)
    then show ?thesis
      using CGet e EraseInternal_view [OF assms e(1)] Touch_view [OF assms e(1)]
      by (simp add: LRU_Get_def) (simp add: EraseInternal_def Touch_def)
  qed (use CGet assms in \<open>simp add: LRU_Get_def\<close>)
next
  case (CPut nows k v ex)
  then show ?thesis using PutInternal_view [OF assms, of nows k v ex] by simp
next
  case (CErase k)
  have absent: "without k (view c) = view c" if "map_of (view c) k = None"
    using that by (auto simp: without_def filter_id_conv map_of_eq_None_iff)
  show ?thesis
  proof (rule lru_lookup [OF assms, of k])
    fix e assume e: "e \<in> set (lru_entries c)" "en_key e = k" "map_of (lru_index c) k = Some (en_iter e)"
      "map_of (view c) k = Some (en_value e, en_expire_at e)"
    then show ?thesis
      using CErase EraseInternal_view [OF assms e(1)] by (simp add: LRU_Erase_def) (simp add: EraseInternal_def)
  qed (use CErase assms absent in \<open>simp add: LRU_Erase_def\<close>)
next
  case (CPrune nows)
  obtain n c1 where p: "PruneExpired nows c = (n, c1)" by (cases "PruneExpired nows c")
  then show ?thesis using CPrune PruneExpired_view [OF assms p] by simp
next
  case CClear
  then show ?thesis by (simp add: LRU_Clear_def lru_inv_def view_def)
qed

interpretation lru: refinement lru_step "spec_cache_step cap" "\<lambda>c. lru_inv c \<and> lru_capacity c = cap" view
  for cap
  using lru_step_refines by unfold_locales blast+

lemma new_lru [simp]:
  "lru_inv (new_LRUCache cap)" "lru_capacity (new_LRUCache cap) = cap" "view (new_LRUCache cap) = []"
  by (simp_all add: new_LRUCache_def lru_inv_def view_def)

lemma length_prune_spec: "length (prune_spec nows i l) \<le> length l"
  by (induction nows i l rule: prune_spec.induct) auto

definition spec_inv :: "nat \<Rightarrow> ('k, 'v) lru_spec \<Rightarrow> bool" where
  "spec_inv cap l \<longleftrightarrow> distinct (map fst l) \<and> length l \<le> cap"

lemma without_simps [simp]:
  "without k [] = []" "without k (x # l) = (if fst x = k then without k l else x # without k l)"
  "without k (l @ m) = without k l @ without k m"
  by (simp_all add: without_def)

lemma set_without: "set (without k l) = {x \<in> set l. fst x \<noteq> k}"
  by (simp add: without_def)

lemma length_without: "map_of l k \<noteq> None \<Longrightarrow> length (without k l) < length l"
proof (induction l)
  case (Cons x l)
  have "length (without k l) \<le> length l" by (simp add: without_def)
  then show ?case using Cons by (cases x) (auto split: if_splits)
qed simp

lemma distinct_without: "distinct (map fst l) \<Longrightarrow> distinct (map fst (without k l))"
  by (simp add: without_def distinct_map_filter)

lemma distinct_prune_spec: "distinct (map fst l) \<Longrightarrow> distinct (map fst (prune_spec nows i l))"
proof (induction nows i l rule: prune_spec.induct)
  case (2 nows i x xs)
  then show ?case using prune_spec_sub [of nows "i + 1" xs] by (auto simp: image_iff)
qed simp

lemma spec_step_inv:
  assumes "spec_inv cap l"
  shows "spec_inv cap (snd (spec_cache_step cap x l))"
proof -
  have d: "distinct (map fst l)" "length l \<le> cap" using assms by (simp_all add: spec_inv_def)
  have lw: "length (without k l) \<le> cap" "fst ` set (without k l) = fst ` set l - {k}" for k
    using d(2) by (auto simp: without_def intro: le_trans [OF length_filter_le])
  have lt: "Suc (length (without k l)) \<le> cap" if "map_of l k \<noteq> None" for k using length_without [OF that] d(2) by simp
  show ?thesis
  proof (cases x)
    case (CGet now k)
    then show ?thesis using d lw [of k] distinct_without [OF d(1), of k] lt [of k]
      by (cases "map_of l k") (auto simp: spec_inv_def)
  next
    case (CPut nows k v ex)
    define l1 where "l1 = prune_spec nows 0 l"
    have l1: "distinct (map fst l1)" "length l1 \<le> cap" "set l1 \<subseteq> set l"
      using distinct_prune_spec [OF d(1)] length_prune_spec [of nows 0 l] prune_spec_sub [of nows 0 l] d(2)
      unfolding l1_def by (auto dest: le_trans)
    have "k \<notin> fst ` set (tl l1) \<and> k \<notin> fst ` set l1" if "map_of l k = None"
      using that l1(3) set_tl_subset [of l1] by (auto simp: map_of_eq_None_iff)
    then show ?thesis
      using CPut d lw [of k] distinct_without [OF d(1), of k] lt [of k] l1(1,2)
      by (cases "map_of l k") (auto simp: spec_inv_def l1_def [symmetric] Let_def distinct_tl map_tl)
  next
    case (CErase k)
    then show ?thesis using d lw [of k] distinct_without [OF d(1), of k] by (simp add: spec_inv_def)
  next
    case (CPrune nows)
    then show ?thesis using d distinct_prune_spec [OF d(1), of nows 0] length_prune_spec [of nows 0 l] by (simp add: spec_inv_def)
  next
    case CClear
    then show ?thesis by (simp add: spec_inv_def)
  qed
qed

lemma lru_run:
  fixes ops :: "('k, 'v) cache_op list"
  shows "view (snd (trace lru_step ops (new_LRUCache cap))) = snd (trace (spec_cache_step cap) ops [])"
    and "fst (trace lru_step ops (new_LRUCache cap)) = fst (trace (spec_cache_step cap) ops [])"
    and "spec_inv cap (view (snd (trace lru_step ops (new_LRUCache cap))))"
    and "LRU_Size (snd (trace lru_step ops (new_LRUCache cap))) = length (view (snd (trace lru_step ops (new_LRUCache cap))))"
proof -
  have inv: "lru_inv (new_LRUCache cap :: ('k, 'v) LRUCache) \<and> lru_capacity (new_LRUCache cap :: ('k, 'v) LRUCache) = cap" by simp
  show v: "view (snd (trace lru_step ops (new_LRUCache cap))) = snd (trace (spec_cache_step cap) ops [])"
    "fst (trace lru_step ops (new_LRUCache cap)) = fst (trace (spec_cache_step cap) ops [])"
    using lru.run_abs [OF inv, of ops] lru.run_results [OF inv, of ops] by simp_all
  have "spec_inv cap (snd (trace (spec_cache_step cap) ops []))"
    by (rule trace_invariant) (simp_all add: spec_inv_def [of cap "[]"] spec_step_inv)
  then show "spec_inv cap (view (snd (trace lru_step ops (new_LRUCache cap))))" using v by simp
  show "LRU_Size (snd (trace lru_step ops (new_LRUCache cap))) = length (view (snd (trace lru_step ops (new_LRUCache cap))))"
    using lru_size lru.run_inv [OF inv, of ops] by blast
qed

lemma lru_bounded: "LRU_Size (snd (trace lru_step ops (new_LRUCache cap))) \<le> cap"
  using lru_run(3,4) [where cap = cap and ops = ops] by (simp add: spec_inv_def)

text \<open>(C37) The cache is one list in order of use: over any calls, with any readings of the clock, the list of entries
and the index of iterators give the results of the plain list (a hit moves its entry to the back, a new key first drops
the expired entries and then, when the cache is full, the entry at the front), no key occurs twice, and the size never
exceeds the capacity.\<close>

theorem lru_refines_list:
  "let (rs, c) = trace lru_step ops (new_LRUCache cap) in
     (rs, view c) = trace (spec_cache_step cap) ops [] \<and> LRU_Size c = length (view c)
     \<and> LRU_Size c \<le> cap \<and> distinct (map fst (view c))"
  using lru_run [where cap = cap and ops = ops] by (simp add: case_prod_beta spec_inv_def prod_eq_iff)

section \<open>What is not evicted\<close>

fun op_keys :: "('k, 'v) cache_op \<Rightarrow> 'k set" where
  "op_keys (CGet _ k) = {k}"
| "op_keys (CPut _ k _ _) = {k}"
| "op_keys _ = {}"

fun spares :: "'k \<Rightarrow> ('k, 'v) cache_op \<Rightarrow> bool" where
  "spares k (CPut _ k' _ _) = (k' \<noteq> k)"
| "spares k (CErase k') = (k' \<noteq> k)"
| "spares k CClear = False"
| "spares k _ = True"

text \<open>The entry is there, and the entries behind it are of keys in \<open>K\<close>.\<close>

definition recent :: "'k set \<Rightarrow> 'k \<Rightarrow> 'v \<Rightarrow> ('k, 'v) lru_spec \<Rightarrow> bool" where
  "recent K k v l \<longleftrightarrow> (\<exists>u w. l = u @ (k, v, None) # w \<and> fst ` set w \<subseteq> K) \<and> distinct (map fst l)"

lemma recentI: "l = u @ (k, v, None) # w \<Longrightarrow> fst ` set w \<subseteq> K \<Longrightarrow> distinct (map fst l) \<Longrightarrow> recent K k v l"
  unfolding recent_def by blast

lemma recent_prune: "recent K k v l \<Longrightarrow> recent K k v (prune_spec nows i l)"
proof -
  assume "recent K k v l"
  then obtain u w where l: "l = u @ (k, v, None) # w" "fst ` set w \<subseteq> K" "distinct (map fst l)" by (auto simp: recent_def)
  have "\<exists>u' w'. prune_spec nows i (u @ (k, v, None) # w) = u' @ (k, v, None) # w' \<and> set w' \<subseteq> set w" for i
  proof (induction u arbitrary: i)
    case Nil
    then show ?case using prune_spec_sub [of nows "i + 1" w] by (auto simp: dead_def intro: exI [of _ "[]"])
  next
    case (Cons x u)
    then show ?case by (metis append_Cons prune_spec.simps(2))
  qed
  then obtain u' w' where "prune_spec nows i l = u' @ (k, v, None) # w'" "set w' \<subseteq> set w" unfolding l(1) by blast
  then show ?thesis using l(2) distinct_prune_spec [OF l(3), of nows i] by (intro recentI [of _ u' _ _ w']) auto
qed

lemma recent_without:
  assumes "recent K k v l" "k' \<noteq> k"
  shows "recent K k v (without k' l)"
proof -
  obtain u w where l: "l = u @ (k, v, None) # w" "fst ` set w \<subseteq> K" "distinct (map fst l)" using assms(1) by (auto simp: recent_def)
  show ?thesis
  proof (rule recentI)
    show "without k' l = without k' u @ (k, v, None) # without k' w" using l(1) assms(2) by simp
    show "fst ` set (without k' w) \<subseteq> K" using l(2) by (auto simp: set_without)
  qed (rule distinct_without [OF l(3)])
qed

lemma recent_append:
  assumes "recent K k v l" "k' \<noteq> k" "k' \<in> K" "k' \<notin> fst ` set l"
  shows "recent K k v (l @ [(k', x)])"
proof -
  obtain u w where l: "l = u @ (k, v, None) # w" "fst ` set w \<subseteq> K" "distinct (map fst l)" using assms(1) by (auto simp: recent_def)
  show ?thesis by (rule recentI [of _ u _ _ "w @ [(k', x)]"]) (use l assms in auto)
qed

lemma recent_self: "distinct (map fst l) \<Longrightarrow> recent K k v (without k l @ [(k, v, None)])"
  by (rule recentI [of _ "without k l" _ _ "[]"]) (auto simp: set_without distinct_without)

lemma recent_lookup: "recent K k v l \<Longrightarrow> map_of l k = Some (v, None)"
  unfolding recent_def by (auto simp: map_of_append map_add_def map_of_eq_None_iff split: option.splits)

lemma recent_tl:
  assumes "recent K k v l" "finite K" "k' \<in> K" "k' \<notin> fst ` set l" "card K < cap" "cap \<le> length l"
  shows "recent K k v (tl l)"
proof -
  obtain u w where l: "l = u @ (k, v, None) # w" "fst ` set w \<subseteq> K" "distinct (map fst l)" using assms(1) by (auto simp: recent_def)
  show ?thesis
  proof (cases u)
    case Nil
    have "length w = card (fst ` set w)" using l(1,3) distinct_card [of "map fst w"] by simp
    also have "\<dots> \<le> card (K - {k'})" using assms(2,4) l by (intro card_mono) auto
    also have "\<dots> < card K" using assms(2,3) by (rule card_Diff1_less)
    finally show ?thesis using assms(5,6) l(1) Nil by simp
  next
    case (Cons x u')
    then show ?thesis using l unfolding recent_def by auto
  qed
qed

lemma recent_step:
  assumes r: "recent K k v l" and "spares k x" "op_keys x - {k} \<subseteq> K" "finite K" "card K < cap"
  shows "recent K k v (snd (spec_cache_step cap x l))"
proof (cases x)
  case (CGet now k')
  have d: "distinct (map fst l)" using r by (simp add: recent_def)
  show ?thesis
  proof (cases "k' = k")
    case True
    then show ?thesis using CGet recent_lookup [OF r] recent_self [OF d] by (simp add: dead_def)
  next
    case False
    then show ?thesis
      using CGet assms(3) recent_without [OF r False] recent_append [OF recent_without [OF r False] False] r
      by (auto simp: set_without split: option.split)
  qed
next
  case (CPut nows k' v' ex)
  then have k': "k' \<noteq> k" "k' \<in> K" using assms(2,3) by auto
  note p = recent_prune [OF r, of nows 0]
  have new: "k' \<notin> fst ` set (prune_spec nows 0 l)" if "map_of l k' = None"
    using that prune_spec_sub [of nows 0 l] by (auto simp: map_of_eq_None_iff)
  have "k' \<notin> fst ` set (tl (prune_spec nows 0 l))" if "map_of l k' = None"
    using new [OF that] set_tl_subset [of "prune_spec nows 0 l"] by blast
  then show ?thesis
    using CPut k' r recent_append [OF recent_without [OF r k'(1)] k'] recent_append [OF p k' new]
      recent_append [OF recent_tl [OF p assms(4) k'(2) new assms(5)] k']
    by (cases "map_of l k'") (auto simp: Let_def set_without)
next
  case (CErase k')
  then show ?thesis using recent_without [OF r] assms(2) by auto
qed (use assms recent_prune in auto)

lemma recent_run:
  assumes "recent K k v l" "\<forall>x \<in> set xs. spares k x \<and> op_keys x - {k} \<subseteq> K" "finite K" "card K < cap"
  shows "recent K k v (snd (trace (spec_cache_step cap) xs l))"
  using assms(1,2)
proof (induction xs arbitrary: l)
  case (Cons x xs)
  then show ?case using recent_step [OF Cons(2) _ _ assms(3,4), of x] by (simp add: Let_def case_prod_beta)
qed simp

text \<open>Least recently used goes first: a key that was put without an expiry time is still found, with its value, after any
further calls that do not put, erase or clear it, as long as they use fewer other keys than the capacity.\<close>

theorem lru_keeps_recent:
  assumes "\<forall>x \<in> set later. spares k x" "card (\<Union> (op_keys ` set later) - {k}) < cap"
  shows "fst (LRU_Get now k (snd (trace lru_step (before @ CPut nows k v None # later) (new_LRUCache cap)))) = Some v"
proof -
  define K where "K = \<Union> (op_keys ` set later) - {k}"
  have inv: "lru_inv (new_LRUCache cap :: ('a, 'b) LRUCache) \<and> lru_capacity (new_LRUCache cap :: ('a, 'b) LRUCache) = cap"
    by simp
  let ?step = "spec_cache_step cap"
  define l where "l = snd (trace ?step before [])"
  have si: "spec_inv cap l"
    unfolding l_def by (rule trace_invariant) (simp_all add: spec_inv_def [of cap "[]"] spec_step_inv)
  have pos: "0 < cap" using assms(2) by simp
  have "finite (op_keys x)" for x :: "('a, 'b) cache_op" by (cases x) simp_all
  then have fin: "finite K" by (simp add: K_def)
  have put: "recent K k v (snd (?step (CPut nows k v None) l))"
  proof (cases "map_of l k")
    case None
    define l2 where "l2 = (let l1 = prune_spec nows 0 l in if cap \<le> length l1 then tl l1 else l1)"
    have "set l2 \<subseteq> set l" using prune_spec_sub [of nows 0 l] set_tl_subset [of "prune_spec nows 0 l"] by (auto simp: l2_def Let_def)
    then have "k \<notin> fst ` set l2" using None by (auto simp: map_of_eq_None_iff)
    moreover have "distinct (map fst l2)"
      using si distinct_prune_spec [of l nows 0] by (auto simp: spec_inv_def l2_def Let_def distinct_tl map_tl)
    ultimately have "recent K k v (l2 @ [(k, v, None)])" by (intro recentI [of _ l2 _ _ "[]"]) auto
    then show ?thesis using None pos by (simp add: l2_def Let_def)
  next
    case (Some y)
    then show ?thesis using pos si recent_self [of l K k v] by (simp add: spec_inv_def)
  qed
  have "recent K k v (snd (trace ?step (before @ CPut nows k v None # later) []))"
    unfolding trace_append l_def [symmetric]
    using recent_run [OF put _ fin, of later cap] assms by (auto simp: Let_def case_prod_beta K_def [symmetric]) (auto simp: K_def)
  then have rec: "recent K k v (view (snd (trace lru_step (before @ CPut nows k v None # later) (new_LRUCache cap))))"
    using lru.run_abs [OF inv] by simp
  have "fst (lru_step (CGet now k) (snd (trace lru_step (before @ CPut nows k v None # later) (new_LRUCache cap)))) = Val (Some v)"
    using lru.step_abs [OF lru.run_inv [OF inv], of "CGet now k"] recent_lookup [OF rec]
    by (simp add: dead_def prod_eq_iff)
  then show ?thesis by simp
qed

theorem lru_keeps_recent_witness:
  "fst (LRU_Get 9 (1 :: nat) (snd (trace lru_step
     ([CPut (\<lambda>_. 5) 3 ''c'' None] @ CPut (\<lambda>_. 5) 1 ''a'' None # [CPut (\<lambda>_. 6) 2 ''b'' None, CGet 7 2]) (new_LRUCache 2)))) = Some ''a''"
  by (rule lru_keeps_recent) simp_all

end
