(* ===== verification/ShardedCache.thy ===== *)
theory ShardedCache
  imports LruCache
begin

text \<open>
  The sharded cache of \<open>sharded_lru_cache.h\<close>: one LRU cache per shard, a key belongs to the
  shard its hash selects.  The hash function is an argument.  The mutex of a shard makes
  each access to it one step, so an operation is a function; operations that visit all
  shards do so one after the other.

  Shown: the capacities of the shards add up to the capacity, and the sharded cache is the
  product of independent LRU caches: each shard is in the state its own operations lead to.
\<close>

section \<open>The sharded cache\<close>

record ('k, 'v) ShardedLRUCache =
  sh_capacity :: nat
  sh_count :: nat
  shards :: "('k, 'v) LRUCache list"

datatype shard_error = invalid_argument

definition NormalizeShardCount :: "nat \<Rightarrow> nat \<Rightarrow> shard_error + nat" where
  "NormalizeShardCount capacity shard_count =
     (if shard_count = 0 then Inl invalid_argument
      else if capacity = 0 then Inr 1
      else Inr (min capacity shard_count))"

definition shard_capacity :: "nat \<Rightarrow> nat \<Rightarrow> nat \<Rightarrow> nat" where
  "shard_capacity capacity n i = capacity div n + (if i < capacity mod n then 1 else 0)"

definition new_ShardedLRUCache :: "nat \<Rightarrow> nat \<Rightarrow> shard_error + ('k, 'v) ShardedLRUCache" where
  "new_ShardedLRUCache capacity shard_count =
     (case NormalizeShardCount capacity shard_count of
        Inl e \<Rightarrow> Inl e
      | Inr n \<Rightarrow> Inr \<lparr>sh_capacity = capacity, sh_count = n,
                     shards = map (\<lambda>i. new_LRUCache (shard_capacity capacity n i)) [0..<n]\<rparr>)"

definition ShardIndex :: "('k \<Rightarrow> nat) \<Rightarrow> ('k, 'v) ShardedLRUCache \<Rightarrow> 'k \<Rightarrow> nat" where
  "ShardIndex hash c k = hash k mod sh_count c"

text \<open>\<open>Shard& shard = GetShard(key); std::lock_guard lock(shard.mutex); return shard.cache.f(...)\<close>.\<close>

definition at_shard ::
  "nat \<Rightarrow> (('k, 'v) LRUCache \<Rightarrow> 'r \<times> ('k, 'v) LRUCache) \<Rightarrow> ('k, 'v) ShardedLRUCache \<Rightarrow> 'r \<times> ('k, 'v) ShardedLRUCache" where
  "at_shard i f c = (let (r, s) = f (shards c ! i) in (r, c\<lparr>shards := (shards c)[i := s]\<rparr>))"

definition Sharded_Get ::
  "('k \<Rightarrow> nat) \<Rightarrow> Timestamp \<Rightarrow> 'k \<Rightarrow> ('k, 'v) ShardedLRUCache \<Rightarrow> 'v option \<times> ('k, 'v) ShardedLRUCache" where
  "Sharded_Get hash now k c = at_shard (ShardIndex hash c k) (LRU_Get now k) c"

definition Sharded_Contains :: "('k \<Rightarrow> nat) \<Rightarrow> Timestamp \<Rightarrow> 'k \<Rightarrow> ('k, 'v) ShardedLRUCache \<Rightarrow> bool" where
  "Sharded_Contains hash now k c = LRU_Contains now k (shards c ! ShardIndex hash c k)"

definition Sharded_Put ::
  "('k \<Rightarrow> nat) \<Rightarrow> (nat \<Rightarrow> Timestamp) \<Rightarrow> 'k \<Rightarrow> 'v \<Rightarrow> ('k, 'v) ShardedLRUCache \<Rightarrow> ('k, 'v) ShardedLRUCache" where
  "Sharded_Put hash nows k v c = snd (at_shard (ShardIndex hash c k) (\<lambda>s. ((), LRU_Put nows k v s)) c)"

definition Sharded_Put_until ::
  "('k \<Rightarrow> nat) \<Rightarrow> (nat \<Rightarrow> Timestamp) \<Rightarrow> 'k \<Rightarrow> 'v \<Rightarrow> Timestamp \<Rightarrow> ('k, 'v) ShardedLRUCache \<Rightarrow> ('k, 'v) ShardedLRUCache" where
  "Sharded_Put_until hash nows k v expire_at c =
     snd (at_shard (ShardIndex hash c k) (\<lambda>s. ((), LRU_Put_until nows k v expire_at s)) c)"

definition Sharded_Put_ttl ::
  "('k \<Rightarrow> nat) \<Rightarrow> Timestamp \<Rightarrow> (nat \<Rightarrow> Timestamp) \<Rightarrow> 'k \<Rightarrow> 'v \<Rightarrow> double \<Rightarrow> ('k, 'v) ShardedLRUCache \<Rightarrow> ('k, 'v) ShardedLRUCache" where
  "Sharded_Put_ttl hash now nows k v ttl c =
     snd (at_shard (ShardIndex hash c k) (\<lambda>s. ((), LRU_Put_ttl now nows k v ttl s)) c)"

definition Sharded_Erase :: "('k \<Rightarrow> nat) \<Rightarrow> 'k \<Rightarrow> ('k, 'v) ShardedLRUCache \<Rightarrow> bool \<times> ('k, 'v) ShardedLRUCache" where
  "Sharded_Erase hash k c = at_shard (ShardIndex hash c k) (LRU_Erase k) c"

definition Sharded_Size :: "('k, 'v) ShardedLRUCache \<Rightarrow> nat" where
  "Sharded_Size c = sum_list (map LRU_Size (shards c))"

definition Sharded_Empty :: "('k, 'v) ShardedLRUCache \<Rightarrow> bool" where
  "Sharded_Empty c \<longleftrightarrow> Sharded_Size c = 0"

definition Sharded_Clear :: "('k, 'v) ShardedLRUCache \<Rightarrow> ('k, 'v) ShardedLRUCache" where
  "Sharded_Clear c = c\<lparr>shards := map LRU_Clear (shards c)\<rparr>"

definition Sharded_PruneExpired ::
  "(nat \<Rightarrow> nat \<Rightarrow> Timestamp) \<Rightarrow> ('k, 'v) ShardedLRUCache \<Rightarrow> nat \<times> ('k, 'v) ShardedLRUCache" where
  "Sharded_PruneExpired nows c =
     (let rs = map (\<lambda>i. PruneExpired (nows i) (shards c ! i)) [0..<length (shards c)] in
      (sum_list (map fst rs), c\<lparr>shards := map snd rs\<rparr>))"

section \<open>The product of its shards\<close>

text \<open>Capacity is neither lost nor added, and no shard is left without any when there is enough for all.\<close>

lemma shard_capacity_sum: "0 < n \<Longrightarrow> (\<Sum>i<n. shard_capacity cap n i) = cap"
proof -
  assume n: "0 < n"
  have "(\<Sum>i<n. shard_capacity cap n i) = n * (cap div n) + (\<Sum>i<n. if i < cap mod n then 1 else 0)"
    by (simp add: shard_capacity_def sum.distrib)
  also have "(\<Sum>i<n. if i < cap mod n then 1 else 0) = min n (cap mod n)"
  proof -
    have "(\<Sum>i<m. if i < r then 1 else (0::nat)) = min m r" for m r by (induction m) auto
    then show ?thesis .
  qed
  also have "\<dots> = cap mod n" using mod_less_divisor [OF n, of cap] by simp
  finally show ?thesis by simp
qed

lemma shard_capacity_pos: "0 < cap \<Longrightarrow> n \<le> cap \<Longrightarrow> 0 < n \<Longrightarrow> 0 < shard_capacity cap n i"
  by (simp add: shard_capacity_def div_greater_zero_iff)

datatype ('k, 'v) sharded_op = OnKey "('k, 'v) cache_op" | PruneAll "nat \<Rightarrow> nat \<Rightarrow> Timestamp" | ClearAll

fun op_key :: "('k, 'v) cache_op \<Rightarrow> 'k option" where
  "op_key (CGet _ k) = Some k"
| "op_key (CPut _ k _ _) = Some k"
| "op_key (CErase k) = Some k"
| "op_key _ = None"

fun sharded_step :: "('k \<Rightarrow> nat) \<Rightarrow> ('k, 'v) sharded_op \<Rightarrow> ('k, 'v) ShardedLRUCache \<Rightarrow> 'v cache_out \<times> ('k, 'v) ShardedLRUCache" where
  "sharded_step hash (OnKey x) c =
     (case op_key x of None \<Rightarrow> (Done, c) | Some k \<Rightarrow> at_shard (ShardIndex hash c k) (lru_step x) c)"
| "sharded_step hash (PruneAll nows) c = apfst Count (Sharded_PruneExpired nows c)"
| "sharded_step hash ClearAll c = (Done, Sharded_Clear c)"

text \<open>The calls that reach the shard \<open>i\<close> of \<open>n\<close>.\<close>

fun shard_ops :: "('k \<Rightarrow> nat) \<Rightarrow> nat \<Rightarrow> nat \<Rightarrow> ('k, 'v) sharded_op \<Rightarrow> ('k, 'v) cache_op list" where
  "shard_ops hash n i (OnKey x) = (case op_key x of None \<Rightarrow> [] | Some k \<Rightarrow> if hash k mod n = i then [x] else [])"
| "shard_ops hash n i (PruneAll nows) = [CPrune (nows i)]"
| "shard_ops hash n i ClearAll = [CClear]"

lemma Sharded_ops_steps:
  "apfst Val (Sharded_Get hash now k c) = sharded_step hash (OnKey (CGet now k)) c"
  "Sharded_Put hash nows k v c = snd (sharded_step hash (OnKey (CPut nows k v None)) c)"
  "Sharded_Put_until hash nows k v t c = snd (sharded_step hash (OnKey (CPut nows k v (Some t))) c)"
  "Sharded_Put_ttl hash now nows k v ttl c = snd (sharded_step hash (OnKey (CPut nows k v (Some (AddTime now ttl)))) c)"
  "apfst Flag (Sharded_Erase hash k c) = sharded_step hash (OnKey (CErase k)) c"
  by (simp_all add: Sharded_Get_def Sharded_Put_def Sharded_Put_until_def Sharded_Put_ttl_def Sharded_Erase_def
        at_shard_def LRU_Put_def LRU_Put_until_def LRU_Put_ttl_def case_prod_beta)

lemma sharded_step_frame [simp]:
  "sh_count (snd (sharded_step hash x c)) = sh_count c" "length (shards (snd (sharded_step hash x c))) = length (shards c)"
  by (cases x; simp add: at_shard_def Sharded_PruneExpired_def Sharded_Clear_def Let_def case_prod_beta split: option.split)+

lemma sharded_step_shard:
  assumes "i < length (shards c)" "length (shards c) = sh_count c"
  shows "shards (snd (sharded_step hash x c)) ! i = snd (trace lru_step (shard_ops hash (sh_count c) i x) (shards c ! i))"
proof (cases x)
  case (OnKey y)
  then show ?thesis using assms
    by (auto simp: at_shard_def ShardIndex_def case_prod_beta Let_def split: option.split)
next
  case (PruneAll nows)
  then show ?thesis using assms by (simp add: Sharded_PruneExpired_def Let_def case_prod_beta)
next
  case ClearAll
  then show ?thesis using assms by (simp add: Sharded_Clear_def)
qed

lemma sharded_run_shard:
  "i < length (shards c) \<Longrightarrow> length (shards c) = sh_count c \<Longrightarrow>
   length (shards (snd (trace (sharded_step hash) xs c))) = sh_count c \<and>
   shards (snd (trace (sharded_step hash) xs c)) ! i
     = snd (trace lru_step (concat (map (shard_ops hash (sh_count c) i) xs)) (shards c ! i))"
proof (induction xs arbitrary: c)
  case (Cons x xs)
  show ?case
    using Cons(1) [of "snd (sharded_step hash x c)"] Cons(2,3) sharded_step_shard [OF Cons(2,3), of hash x]
    by (simp add: Let_def case_prod_beta trace_append)
qed simp

text \<open>(C38) Sharding: for a valid number of shards the constructor succeeds, the capacities of the shards add up to the
capacity, and after any calls each shard is in exactly the state in which an LRU cache of its capacity would be that
got the calls for its keys only; so the total size never exceeds the capacity.\<close>

theorem sharded_is_product:
  assumes "new_ShardedLRUCache capacity shard_count = Inr c0"
  shows "let c = snd (trace (sharded_step hash) ops c0); n = sh_count c0 in
    0 < n \<and> n \<le> shard_count \<and> (\<Sum>i<n. shard_capacity capacity n i) = capacity
    \<and> (\<forall>i<n. shards c ! i = snd (trace lru_step (concat (map (shard_ops hash n i) ops)) (new_LRUCache (shard_capacity capacity n i))))
    \<and> Sharded_Size c \<le> capacity"
proof -
  define n where "n = sh_count c0"
  have n: "0 < n" "n \<le> shard_count" and c0: "shards c0 = map (\<lambda>i. new_LRUCache (shard_capacity capacity n i)) [0..<n]"
    using assms by (auto simp: new_ShardedLRUCache_def NormalizeShardCount_def n_def split: if_splits)
  define c where "c = snd (trace (sharded_step hash) ops c0)"
  have len: "length (shards c) = n" and
    sh: "shards c ! i = snd (trace lru_step (concat (map (shard_ops hash n i) ops)) (new_LRUCache (shard_capacity capacity n i)))"
      if "i < n" for i
    using sharded_run_shard [of i c0 hash ops] that c0 by (simp_all add: c_def n_def [symmetric])
  have "LRU_Size (shards c ! i) \<le> shard_capacity capacity n i" if "i < n" for i
    using lru_bounded [of "concat (map (shard_ops hash n i) ops)" "shard_capacity capacity n i"] sh [OF that] by simp
  then have "(\<Sum>i<n. LRU_Size (shards c ! i)) \<le> (\<Sum>i<n. shard_capacity capacity n i)" by (intro sum_mono) simp
  moreover have "Sharded_Size c = (\<Sum>i<n. LRU_Size (shards c ! i))"
    using len [OF n(1)] by (simp add: Sharded_Size_def sum_list_sum_nth atLeast0LessThan)
  ultimately show ?thesis
    using n sh shard_capacity_sum [OF n(1), of capacity] unfolding Let_def n_def [symmetric] c_def [symmetric] by auto
qed

theorem sharded_is_product_witness:
  "Sharded_Size (snd (trace (sharded_step (\<lambda>k. k)) [OnKey (CPut (\<lambda>_. 1) (4 :: nat) ''x'' None), OnKey (CGet 2 4)]
     (case new_ShardedLRUCache 5 2 of Inr c \<Rightarrow> c | Inl _ \<Rightarrow> \<lparr>sh_capacity = 0, sh_count = 0, shards = []\<rparr>))) \<le> 5"
proof -
  have ok: "new_ShardedLRUCache 5 2 = Inr \<lparr>sh_capacity = 5, sh_count = 2, shards = [new_LRUCache 3, new_LRUCache 2]\<rparr>"
    by (simp add: new_ShardedLRUCache_def NormalizeShardCount_def shard_capacity_def upt_rec) (simp add: eval_nat_numeral)
  show ?thesis
    using sharded_is_product [OF ok, of "\<lambda>k. k" "[OnKey (CPut (\<lambda>_. 1) 4 ''x'' None), OnKey (CGet 2 4)]"]
    unfolding ok sum.case Let_def by (elim conjE)
qed

end
