(* ===== verification/QuadHeap.thy ===== *)
theory QuadHeap
  imports Traces "HOL-Library.Word"
begin

unbundle bit_operations_syntax

text \<open>
  The intrusive four-ary heap of \<open>intrusive_quadheap.h\<close>.  The heap is a vector of node
  pointers; every node carries its slot in the vector, \<open>None\<close> for \<open>kNotInHeap\<close>.  Nodes are values
  of any type, the slots a function on them, and the comparison \<open>kLess\<close> is an argument.  The
  code relies on it being a strict weak order (\<open>strict_weak\<close>).

  Shown: inserting and erasing keep vector and slots consistent and the heap ordered, so that
  the heap is a priority queue of the set of its nodes; and popping while a predicate holds
  ends and gives the due nodes in order.
\<close>

section \<open>The heap\<close>

record 'n QuadHeap =
  slots :: "'n list"
  heap_index :: "'n \<Rightarrow> nat option"

definition new_QuadHeap :: "'n QuadHeap" where
  "new_QuadHeap = \<lparr>slots = [], heap_index = \<lambda>_. None\<rparr>"

definition InHeap :: "'n \<Rightarrow> 'n QuadHeap \<Rightarrow> bool" where "InHeap n h \<longleftrightarrow> heap_index h n \<noteq> None"

definition set_heap_index :: "'n \<Rightarrow> nat \<Rightarrow> 'n QuadHeap \<Rightarrow> 'n QuadHeap" where
  "set_heap_index n i h = h\<lparr>heap_index := (heap_index h)(n \<mapsto> i)\<rparr>"

definition clear_hook :: "'n \<Rightarrow> 'n QuadHeap \<Rightarrow> 'n QuadHeap" where
  "clear_hook n h = h\<lparr>heap_index := (heap_index h)(n := None)\<rparr>"

definition heap_empty :: "'n QuadHeap \<Rightarrow> bool" where "heap_empty h \<longleftrightarrow> slots h = []"

definition heap_size :: "'n QuadHeap \<Rightarrow> nat" where "heap_size h = length (slots h)"

definition earliest :: "'n QuadHeap \<Rightarrow> 'n option" where
  "earliest h = (if heap_empty h then None else Some (hd (slots h)))"

definition kArity :: nat where "kArity = 4"

definition Parent :: "nat \<Rightarrow> nat" where "Parent child = drop_bit 2 (child - 1)"

definition FirstChild :: "nat \<Rightarrow> nat" where "FirstChild parent = push_bit 2 parent OR 1"

definition SwapNodes :: "nat \<Rightarrow> nat \<Rightarrow> 'n QuadHeap \<Rightarrow> 'n QuadHeap" where
  "SwapNodes i j h =
     (let v = (slots h)[i := slots h ! j, j := slots h ! i] in
      set_heap_index (v ! j) j (set_heap_index (v ! i) i (h\<lparr>slots := v\<rparr>)))"

lemma Parent_div: "Parent c = (c - 1) div 4"
  by (simp add: Parent_def drop_bit_eq_div)

lemma FirstChild_mult: "FirstChild p = 4 * p + 1"
proof -
  have "even (push_bit 2 p)" by (simp add: push_bit_eq_mult)
  then have "push_bit 2 p OR 1 = push_bit 2 p + 1" by (simp add: or_Suc_0_eq)
  then show ?thesis by (simp add: FirstChild_def push_bit_eq_mult)
qed

lemma Parent_less: "0 < c \<Longrightarrow> Parent c < c"
  by (simp add: Parent_div)

lemma Parent_child: "0 < c \<Longrightarrow> Parent c = p \<longleftrightarrow> FirstChild p \<le> c \<and> c < FirstChild p + kArity"
  unfolding Parent_div FirstChild_mult kArity_def by arith

lemma slots_SwapNodes [simp]: "slots (SwapNodes i j h) = (slots h)[i := slots h ! j, j := slots h ! i]"
  by (simp add: SwapNodes_def Let_def set_heap_index_def)

function SiftUp :: "('n \<Rightarrow> 'n \<Rightarrow> bool) \<Rightarrow> nat \<Rightarrow> 'n QuadHeap \<Rightarrow> 'n QuadHeap" where
  "SiftUp kLess child h =
     (if 0 < child then
        let parent = Parent child in
        if \<not> kLess (slots h ! child) (slots h ! parent) then h
        else SiftUp kLess parent (SwapNodes child parent h)
      else h)"
  by pat_completeness auto
termination
  by (relation "measure (\<lambda>(_, child, _). child)") (auto simp: Parent_less)

declare SiftUp.simps [simp del]

definition Insert :: "('n \<Rightarrow> 'n \<Rightarrow> bool) \<Rightarrow> 'n \<Rightarrow> 'n QuadHeap \<Rightarrow> bool \<times> 'n QuadHeap" where
  "Insert kLess n h =
     (if InHeap n h then (False, h)
      else let h1 = h\<lparr>slots := slots h @ [n]\<rparr>;
               h2 = set_heap_index n (heap_size h1 - 1) h1
           in (True, SiftUp kLess (heap_size h2 - 1) h2))"

text \<open>The scan for the smallest child.\<close>

function smallest_child :: "('n \<Rightarrow> 'n \<Rightarrow> bool) \<Rightarrow> 'n list \<Rightarrow> nat \<Rightarrow> nat \<Rightarrow> nat \<Rightarrow> nat" where
  "smallest_child kLess v next_child stop smallest =
     (if next_child < stop then
        smallest_child kLess v (next_child + 1) stop
          (if kLess (v ! next_child) (v ! smallest) then next_child else smallest)
      else smallest)"
  by pat_completeness auto
termination
  by (relation "measure (\<lambda>(_, _, next_child, stop, _). stop - next_child)") auto

declare smallest_child.simps [simp del]

lemma smallest_child_range:
  "smallest_child kLess v n stop s \<in> insert s {n..<stop}"
proof (induction kLess v n stop s rule: smallest_child.induct)
  case (1 kLess v n stop s)
  then show ?case by (subst smallest_child.simps) (auto split: if_splits)
qed

function SiftDown :: "('n \<Rightarrow> 'n \<Rightarrow> bool) \<Rightarrow> nat \<Rightarrow> 'n QuadHeap \<Rightarrow> 'n QuadHeap" where
  "SiftDown kLess parent h =
     (let sz = heap_size h; first_child = FirstChild parent in
      if first_child \<ge> sz then h
      else let stop = min (first_child + kArity) sz;
               smallest = smallest_child kLess (slots h) (first_child + 1) stop first_child
           in if \<not> kLess (slots h ! smallest) (slots h ! parent) then h
              else SiftDown kLess smallest (SwapNodes parent smallest h))"
  by pat_completeness auto
termination
proof (relation "measure (\<lambda>(_, parent, h). heap_size h - parent)")
  fix kLess :: "'n \<Rightarrow> 'n \<Rightarrow> bool" and parent h sz first_child stop smallest
  assume a: "sz = heap_size h" "first_child = FirstChild parent" "\<not> sz \<le> first_child"
    "stop = min (first_child + kArity) sz"
    "smallest = smallest_child kLess (slots h) (first_child + 1) stop first_child"
  then have "smallest \<in> insert first_child {first_child + 1..<stop}" using smallest_child_range by metis
  then have "parent < smallest \<and> smallest < heap_size h" using a by (auto simp: FirstChild_mult)
  then show "((kLess, smallest, SwapNodes parent smallest h), kLess, parent, h)
      \<in> measure (\<lambda>(_, parent, h). heap_size h - parent)"
    by (auto simp: heap_size_def)
qed simp

declare SiftDown.simps [simp del]

definition Erase :: "('n \<Rightarrow> 'n \<Rightarrow> bool) \<Rightarrow> 'n \<Rightarrow> 'n QuadHeap \<Rightarrow> bool \<times> 'n QuadHeap" where
  "Erase kLess n h =
     (case heap_index h n of
        None \<Rightarrow> (False, h)
      | Some index \<Rightarrow>
          let last_node = last (slots h);
              h1 = clear_hook n (h\<lparr>slots := butlast (slots h)\<rparr>)
          in if index \<ge> heap_size h1 then (True, h1)
             else let h2 = set_heap_index last_node index (h1\<lparr>slots := (slots h1)[index := last_node]\<rparr>)
                  in if 0 < index \<and> kLess (slots h2 ! index) (slots h2 ! Parent index)
                     then (True, SiftUp kLess index h2)
                     else (True, SiftDown kLess index h2))"

text \<open>
  The loops of \<open>PopWhile\<close> end only if the erased node leaves the vector; \<open>None\<close> stands for a
  loop that does not end.  The callback of the second form may itself use the heap.
\<close>

partial_function (option) PopWhile_loop ::
    "('n \<Rightarrow> 'n \<Rightarrow> bool) \<Rightarrow> ('n \<Rightarrow> bool) \<Rightarrow> 'n list \<Rightarrow> 'n QuadHeap \<Rightarrow> ('n list \<times> 'n QuadHeap) option" where
  "PopWhile_loop kLess pred result h =
     (case earliest h of
        None \<Rightarrow> Some (result, h)
      | Some elem \<Rightarrow>
          if \<not> pred elem then Some (result, h)
          else PopWhile_loop kLess pred (result @ [elem]) (snd (Erase kLess elem h)))"

definition PopWhile ::
    "('n \<Rightarrow> 'n \<Rightarrow> bool) \<Rightarrow> ('n \<Rightarrow> bool) \<Rightarrow> 'n QuadHeap \<Rightarrow> ('n list \<times> 'n QuadHeap) option" where
  "PopWhile kLess pred h = PopWhile_loop kLess pred [] h"

partial_function (option) PopWhile_each ::
    "('n \<Rightarrow> 'n \<Rightarrow> bool) \<Rightarrow> ('n \<Rightarrow> bool) \<Rightarrow> ('n \<Rightarrow> 'n QuadHeap \<times> 's \<Rightarrow> 'n QuadHeap \<times> 's) \<Rightarrow> nat
     \<Rightarrow> 'n QuadHeap \<times> 's \<Rightarrow> (nat \<times> 'n QuadHeap \<times> 's) option" where
  "PopWhile_each kLess pred on_pop popped hs =
     (case earliest (fst hs) of
        None \<Rightarrow> Some (popped, hs)
      | Some elem \<Rightarrow>
          if \<not> pred elem then Some (popped, hs)
          else PopWhile_each kLess pred on_pop (popped + 1)
                 (on_pop elem (snd (Erase kLess elem (fst hs)), snd hs)))"


section \<open>Vector and slots\<close>

definition slots_ok :: "'n QuadHeap \<Rightarrow> bool" where
  "slots_ok h \<longleftrightarrow> (\<forall>n i. heap_index h n = Some i \<longleftrightarrow> i < length (slots h) \<and> slots h ! i = n)"

lemma slots_okD:
  assumes "slots_ok h"
  shows "heap_index h n = Some i \<longleftrightarrow> i < length (slots h) \<and> slots h ! i = n"
  using assms by (simp add: slots_ok_def)

lemma slots_inj:
  "\<lbrakk>slots_ok h; i < length (slots h); j < length (slots h); slots h ! i = slots h ! j\<rbrakk> \<Longrightarrow> i = j"
  by (metis option.inject slots_okD)

lemma slots_neq:
  "\<lbrakk>slots_ok h; i < length (slots h); slots h ! i = n; j < length (slots h); j \<noteq> i\<rbrakk> \<Longrightarrow> slots h ! j \<noteq> n"
  using slots_inj [of h j i] by argo

lemma slots_distinct: "slots_ok h \<Longrightarrow> distinct (slots h)"
  by (auto simp: distinct_conv_nth dest: slots_inj)

lemma InHeap_set: "slots_ok h \<Longrightarrow> InHeap n h \<longleftrightarrow> n \<in> set (slots h)"
  by (auto simp: InHeap_def slots_okD in_set_conv_nth)

lemma heap_index_SwapNodes:
  "i < length (slots h) \<Longrightarrow> j < length (slots h) \<Longrightarrow>
   heap_index (SwapNodes i j h) = (heap_index h)(slots h ! j \<mapsto> i, slots h ! i \<mapsto> j)"
  by (simp add: SwapNodes_def Let_def set_heap_index_def nth_list_update)

lemma slots_ok_SwapNodes:
  assumes ok: "slots_ok h" and ij: "i < length (slots h)" "j < length (slots h)"
  shows "slots_ok (SwapNodes i j h)"
  unfolding slots_ok_def
proof (intro allI)
  fix n k
  have inj: "slots h ! k = slots h ! l \<longleftrightarrow> k = l" if "k < length (slots h)" "l < length (slots h)" for k l
    using slots_inj [OF ok that] by auto
  show "heap_index (SwapNodes i j h) n = Some k \<longleftrightarrow>
      k < length (slots (SwapNodes i j h)) \<and> slots (SwapNodes i j h) ! k = n"
    using ij slots_okD [OF ok, of n k] inj
    by (auto simp: heap_index_SwapNodes nth_list_update)
qed

lemma set_SwapNodes:
  "i < length (slots h) \<Longrightarrow> j < length (slots h) \<Longrightarrow> set (slots (SwapNodes i j h)) = set (slots h)"
  by (simp add: set_swap)

section \<open>Heap order\<close>

definition strict_weak :: "('n \<Rightarrow> 'n \<Rightarrow> bool) \<Rightarrow> bool" where
  "strict_weak kLess \<longleftrightarrow> (\<forall>x y. kLess x y \<longrightarrow> \<not> kLess y x) \<and>
     (\<forall>x y z. \<not> kLess x y \<longrightarrow> \<not> kLess y z \<longrightarrow> \<not> kLess x z)"

lemma strict_weakD:
  assumes "strict_weak kLess"
  shows sw_asym: "kLess x y \<Longrightarrow> \<not> kLess y x"
    and sw_negtrans: "\<not> kLess x y \<Longrightarrow> \<not> kLess y z \<Longrightarrow> \<not> kLess x z"
    and sw_trans: "kLess x y \<Longrightarrow> kLess y z \<Longrightarrow> kLess x z"
  using assms unfolding strict_weak_def by blast+

text \<open>The order holds but for the edges above, or below, one slot.\<close>

definition edge_ok :: "('n \<Rightarrow> 'n \<Rightarrow> bool) \<Rightarrow> 'n list \<Rightarrow> nat \<Rightarrow> bool" where
  "edge_ok kLess v k \<longleftrightarrow> \<not> kLess (v ! k) (v ! Parent k)"

definition ordered :: "('n \<Rightarrow> 'n \<Rightarrow> bool) \<Rightarrow> 'n list \<Rightarrow> bool" where
  "ordered kLess v \<longleftrightarrow> (\<forall>k. 0 < k \<longrightarrow> k < length v \<longrightarrow> edge_ok kLess v k)"

definition bypass :: "('n \<Rightarrow> 'n \<Rightarrow> bool) \<Rightarrow> 'n list \<Rightarrow> nat \<Rightarrow> bool" where
  "bypass kLess v i \<longleftrightarrow>
     (\<forall>k. 0 < i \<longrightarrow> 0 < k \<longrightarrow> k < length v \<longrightarrow> Parent k = i \<longrightarrow> \<not> kLess (v ! k) (v ! Parent i))"

definition up_ok :: "('n \<Rightarrow> 'n \<Rightarrow> bool) \<Rightarrow> 'n list \<Rightarrow> nat \<Rightarrow> bool" where
  "up_ok kLess v c \<longleftrightarrow> bypass kLess v c \<and> (\<forall>k. 0 < k \<longrightarrow> k < length v \<longrightarrow> k \<noteq> c \<longrightarrow> edge_ok kLess v k)"

definition down_ok :: "('n \<Rightarrow> 'n \<Rightarrow> bool) \<Rightarrow> 'n list \<Rightarrow> nat \<Rightarrow> bool" where
  "down_ok kLess v p \<longleftrightarrow>
     bypass kLess v p \<and> (\<forall>k. 0 < k \<longrightarrow> k < length v \<longrightarrow> Parent k \<noteq> p \<longrightarrow> edge_ok kLess v k)"

lemma up_ok_swap:
  assumes sw: "strict_weak kLess" and up: "up_ok kLess v c"
    and c: "0 < c" "c < length v" and less: "kLess (v ! c) (v ! Parent c)"
  shows "up_ok kLess (v[c := v ! Parent c, Parent c := v ! c]) (Parent c)"
proof -
  let ?p = "Parent c" and ?w = "v[c := v ! Parent c, Parent c := v ! c]"
  have pc: "?p < c" "?p < length v" using Parent_less [of c] c by auto
  have w: "?w ! k = (if k = ?p then v ! c else if k = c then v ! ?p else v ! k)" if "k < length v" for k
    using that pc c by (auto simp: nth_list_update)
  have edge: "\<not> kLess (v ! k) (v ! Parent k)" if "0 < k" "k < length v" "k \<noteq> c" for k
    using up that by (simp add: up_ok_def edge_ok_def)
  have grand: "\<not> kLess (v ! k) (v ! ?p)" if "0 < k" "k < length v" "Parent k = c" for k
    using up that c by (simp add: up_ok_def bypass_def)
  have "edge_ok kLess ?w k" if k: "0 < k" "k < length v" "k \<noteq> ?p" for k
  proof -
    have pk: "Parent k < length v" "Parent k < k" using Parent_less [of k] k by auto
    consider "k = c" | "k \<noteq> c" "Parent k = c" | "k \<noteq> c" "Parent k = ?p" | "k \<noteq> c" "Parent k \<noteq> c" "Parent k \<noteq> ?p"
      by blast
    then show ?thesis
    proof cases
      case 3
      then have "\<not> kLess (v ! k) (v ! ?p)" using edge [OF k(1,2)] by simp
      then have "\<not> kLess (v ! k) (v ! c)" using sw_trans [OF sw _ less] by blast
      then show ?thesis using 3 k pc w [of k] w [of ?p] by (simp add: edge_ok_def)
    qed (use k pc c pk w [OF k(2)] w [OF pk(1)] edge [OF k(1,2)] grand [OF k(1,2)] sw_asym [OF sw less] in
        \<open>auto simp: edge_ok_def\<close>)
  qed
  moreover have "\<not> kLess (?w ! k) (?w ! Parent ?p)" if k: "0 < ?p" "0 < k" "k < length v" "Parent k = ?p" for k
  proof -
    have pp: "Parent ?p < ?p" using Parent_less [OF k(1)] .
    have above: "\<not> kLess (v ! ?p) (v ! Parent ?p)" using edge [of ?p] k pc by simp
    have "k \<noteq> ?p" using Parent_less [OF k(2)] k(4) by simp
    moreover have "\<not> kLess (v ! k) (v ! Parent ?p)" if "k \<noteq> c"
      using sw_negtrans [OF sw _ above] edge [OF k(2,3) that] k(4) by simp
    ultimately show ?thesis using pp pc k above w [OF k(3)] w [of "Parent ?p"] by (cases "k = c") auto
  qed
  ultimately show ?thesis by (simp add: up_ok_def bypass_def)
qed

lemma down_ok_swap:
  assumes sw: "strict_weak kLess" and down: "down_ok kLess v p"
    and m: "0 < m" "m < length v" "Parent m = p"
    and least: "\<And>k. 0 < k \<Longrightarrow> k < length v \<Longrightarrow> Parent k = p \<Longrightarrow> \<not> kLess (v ! k) (v ! m)"
    and less: "kLess (v ! m) (v ! p)"
  shows "down_ok kLess (v[p := v ! m, m := v ! p]) m"
proof -
  let ?w = "v[p := v ! m, m := v ! p]"
  have pm: "p < m" "p < length v" using Parent_less [of m] m by auto
  have w: "?w ! k = (if k = m then v ! p else if k = p then v ! m else v ! k)" if "k < length v" for k
    using that pm m by (auto simp: nth_list_update)
  have edge: "\<not> kLess (v ! k) (v ! Parent k)" if "0 < k" "k < length v" "Parent k \<noteq> p" for k
    using down that by (simp add: down_ok_def edge_ok_def)
  have grand: "\<not> kLess (v ! k) (v ! Parent p)" if "0 < p" "0 < k" "k < length v" "Parent k = p" for k
    using down that by (simp add: down_ok_def bypass_def)
  have "edge_ok kLess ?w k" if k: "0 < k" "k < length v" "Parent k \<noteq> m" for k
  proof -
    have pk: "Parent k < length v" "Parent k < k" using Parent_less [of k] k by auto
    show ?thesis
    proof (cases "Parent k = p")
      case True
      then show ?thesis
        using w [OF k(2)] w [OF pk(1)] pm pk least [OF k(1,2)] sw_asym [OF sw less] by (auto simp: edge_ok_def)
    next
      case False
      then have "k \<noteq> m" using m(3) by auto
      then show ?thesis
        using w [OF k(2)] w [OF pk(1)] False k edge [OF k(1,2)] grand [of m] m by (auto simp: edge_ok_def)
    qed
  qed
  moreover have "\<not> kLess (?w ! k) (?w ! Parent m)" if k: "0 < k" "k < length v" "Parent k = m" for k
  proof -
    have "m < k" using Parent_less [OF k(1)] k(3) by simp
    then show ?thesis using w [OF k(2)] w [OF pm(2)] pm m k edge [OF k(1,2)] by auto
  qed
  ultimately show ?thesis by (simp add: down_ok_def bypass_def)
qed

text \<open>Sifting restores the order and permutes the nodes.\<close>

definition same_nodes :: "'n QuadHeap \<Rightarrow> 'n QuadHeap \<Rightarrow> bool" where
  "same_nodes h h' \<longleftrightarrow> slots_ok h' \<and> length (slots h') = length (slots h) \<and> set (slots h') = set (slots h)"

lemma same_nodes_SwapNodes:
  "\<lbrakk>slots_ok h; i < length (slots h); j < length (slots h)\<rbrakk> \<Longrightarrow> same_nodes h (SwapNodes i j h)"
  using slots_ok_SwapNodes [of h i j] set_SwapNodes [of i h j] by (simp add: same_nodes_def)

lemma same_nodes_trans: "same_nodes h h' \<Longrightarrow> same_nodes h' h'' \<Longrightarrow> same_nodes h h''"
  by (simp add: same_nodes_def)

lemma SiftUp_correct:
  "\<lbrakk>strict_weak kLess; slots_ok h; c < length (slots h); up_ok kLess (slots h) c\<rbrakk>
    \<Longrightarrow> same_nodes h (SiftUp kLess c h) \<and> ordered kLess (slots (SiftUp kLess c h))"
proof (induction kLess c h rule: SiftUp.induct)
  case (1 kLess c h)
  show ?case
  proof (cases "0 < c \<and> kLess (slots h ! c) (slots h ! Parent c)")
    case False
    have "edge_ok kLess (slots h) k" if "0 < k" "k < length (slots h)" for k
      using 1(5) False that by (cases "k = c") (auto simp: up_ok_def edge_ok_def)
    then have "ordered kLess (slots h)" by (simp add: ordered_def)
    moreover have "SiftUp kLess c h = h" using False by (subst SiftUp.simps) (auto simp: Let_def)
    ultimately show ?thesis using 1(3) by (simp add: same_nodes_def)
  next
    case True
    let ?h = "SwapNodes c (Parent c) h"
    have p: "Parent c < length (slots h)" using Parent_less [of c] True 1(4) by simp
    have same: "same_nodes h ?h" using same_nodes_SwapNodes [OF 1(3,4) p] .
    have "up_ok kLess (slots ?h) (Parent c)" using up_ok_swap [OF 1(2) 1(5) _ 1(4)] True by simp
    then have "same_nodes ?h (SiftUp kLess (Parent c) ?h) \<and> ordered kLess (slots (SiftUp kLess (Parent c) ?h))"
      using 1(1) [of "Parent c"] 1(2) True p same by (simp add: same_nodes_def)
    moreover have "SiftUp kLess c h = SiftUp kLess (Parent c) ?h"
      using True by (subst SiftUp.simps) (simp add: Let_def)
    ultimately show ?thesis using same_nodes_trans [OF same] by simp
  qed
qed

lemma smallest_child_least:
  "\<lbrakk>strict_weak kLess; \<forall>k\<in>{f..<n}. \<not> kLess (v ! k) (v ! s); f \<le> n; k \<in> {f..<n} \<union> {n..<stop}\<rbrakk>
   \<Longrightarrow> \<not> kLess (v ! k) (v ! smallest_child kLess v n stop s)"
proof (induction kLess v n stop s rule: smallest_child.induct)
  case (1 kLess v n stop s)
  let ?s = "if kLess (v ! n) (v ! s) then n else s"
  show ?case
  proof (cases "n < stop")
    case True
    have least: "\<not> kLess (v ! k) (v ! ?s)" if "k \<in> {f..<n + 1}" for k
      using that 1(3) sw_trans [OF 1(2), of "v ! k" "v ! n" "v ! s"] sw_asym [OF 1(2), of "v ! n" "v ! n"]
      by (cases "k = n") auto
    have "k \<in> {f..<n + 1} \<union> {n + 1..<stop}" using 1(4,5) True by auto
    then have "\<not> kLess (v ! k) (v ! smallest_child kLess v (n + 1) stop ?s)"
      using 1(1) [OF True 1(2) ballI [OF least]] 1(4) by simp
    then show ?thesis using True by (subst smallest_child.simps) simp
  next
    case False
    then show ?thesis using 1(3,5) by (subst smallest_child.simps) auto
  qed
qed

lemma SiftDown_correct:
  "\<lbrakk>strict_weak kLess; slots_ok h; p < length (slots h); down_ok kLess (slots h) p\<rbrakk>
    \<Longrightarrow> same_nodes h (SiftDown kLess p h) \<and> ordered kLess (slots (SiftDown kLess p h))"
proof (induction kLess p h rule: SiftDown.induct)
  case (1 kLess p h)
  let ?v = "slots h"
  let ?f = "FirstChild p"
  let ?stop = "min (?f + kArity) (heap_size h)"
  define m where "m = smallest_child kLess ?v (?f + 1) ?stop ?f"
  have child: "Parent k = p \<longleftrightarrow> k \<in> {?f..<?stop}" if "0 < k" "k < length ?v" for k
    using that Parent_child [of k p] by (auto simp: heap_size_def)
  have m: "m \<in> {?f..<?stop}" if "?f < heap_size h"
    using smallest_child_range [of kLess ?v "?f + 1" ?stop ?f] that by (auto simp: kArity_def m_def)
  have first: "\<forall>k\<in>{?f..<?f + 1}. \<not> kLess (?v ! k) (?v ! ?f)"
    using sw_asym [OF 1(2), of "?v ! ?f" "?v ! ?f"] by auto
  have least: "\<not> kLess (?v ! k) (?v ! m)" if "0 < k" "k < length ?v" "Parent k = p" for k
  proof -
    have "k \<in> {?f..<?f + 1} \<union> {?f + 1..<?stop}" using child [OF that(1,2)] that(3) by auto
    then show ?thesis unfolding m_def by (rule smallest_child_least [OF 1(2) first le_add1])
  qed
  show ?case
  proof (cases "?f < heap_size h \<and> kLess (?v ! m) (?v ! p)")
    case False
    have "edge_ok kLess ?v k" if k: "0 < k" "k < length ?v" for k
    proof (cases "Parent k = p")
      case True
      then have "?f < heap_size h" using child [OF k] by auto
      then have "\<not> kLess (?v ! m) (?v ! p)" using False by simp
      then show ?thesis using sw_negtrans [OF 1(2) least [OF k True]] True by (simp add: edge_ok_def)
    qed (use 1(5) k in \<open>simp add: down_ok_def\<close>)
    then have "ordered kLess ?v" by (simp add: ordered_def)
    moreover have "SiftDown kLess p h = h" using False by (subst SiftDown.simps) (auto simp: Let_def m_def)
    ultimately show ?thesis using 1(3) by (simp add: same_nodes_def)
  next
    case True
    let ?h = "SwapNodes p m h"
    have ml: "m < length ?v" "0 < m" using m True by (auto simp: heap_size_def FirstChild_mult)
    then have mp: "Parent m = p" using child m True by simp
    have same: "same_nodes h ?h" using same_nodes_SwapNodes [OF 1(3,4) ml(1)] .
    have down: "down_ok kLess (slots ?h) m"
      unfolding slots_SwapNodes by (rule down_ok_swap [OF 1(2,5) ml(2,1) mp least conjunct2 [OF True]])
    have less: "\<not> heap_size h \<le> ?f" "\<not> \<not> kLess (?v ! m) (?v ! p)" using True by simp_all
    have "same_nodes ?h (SiftDown kLess m ?h) \<and> ordered kLess (slots (SiftDown kLess m ?h))"
      using 1(1) [OF refl refl less(1) refl m_def less(2) 1(2) _ _ down] ml(1) same unfolding same_nodes_def by simp
    moreover have "SiftDown kLess p h = SiftDown kLess m ?h"
      using less unfolding m_def by (subst SiftDown.simps) (simp only: Let_def if_False)
    ultimately show ?thesis using same_nodes_trans [OF same] by simp
  qed
qed

section \<open>The operations\<close>

definition heap_inv :: "('n \<Rightarrow> 'n \<Rightarrow> bool) \<Rightarrow> 'n QuadHeap \<Rightarrow> bool" where
  "heap_inv kLess h \<longleftrightarrow> strict_weak kLess \<and> slots_ok h \<and> ordered kLess (slots h)"

lemma heap_inv_new: "strict_weak kLess \<Longrightarrow> heap_inv kLess new_QuadHeap"
  by (simp add: heap_inv_def new_QuadHeap_def slots_ok_def ordered_def)

lemma Insert_linked: "InHeap n h \<Longrightarrow> Insert kLess n h = (False, h)"
  by (simp add: Insert_def)

lemma Insert_correct:
  assumes inv: "heap_inv kLess h" and new: "\<not> InHeap n h"
  shows "fst (Insert kLess n h)" "heap_inv kLess (snd (Insert kLess n h))"
    "set (slots (snd (Insert kLess n h))) = insert n (set (slots h))"
proof -
  let ?l = "length (slots h)"
  define h2 where "h2 = set_heap_index n ?l (h\<lparr>slots := slots h @ [n]\<rparr>)"
  have ok: "strict_weak kLess" "slots_ok h" "ordered kLess (slots h)" using inv by (simp_all add: heap_inv_def)
  have sl: "slots h2 = slots h @ [n]" by (simp add: h2_def set_heap_index_def)
  have fresh: "n \<noteq> slots h ! k" if "k < ?l" for k using new that by (auto simp: InHeap_set [OF ok(2)])
  have "slots_ok h2"
    unfolding slots_ok_def sl using slots_okD [OF ok(2)] fresh
    by (auto simp: h2_def set_heap_index_def nth_append less_Suc_eq)
  moreover have "up_ok kLess (slots h2) ?l"
  proof -
    have below: "Parent k < ?l" if "0 < k" "k < Suc ?l" for k using Parent_less [OF that(1)] that(2) by simp
    then have "bypass kLess (slots h2) ?l" by (auto simp: bypass_def sl dest: less_imp_neq)
    moreover have "edge_ok kLess (slots h2) k" if "0 < k" "k < Suc ?l" "k \<noteq> ?l" for k
      using ok(3) that below [OF that(1,2)] by (simp add: sl ordered_def edge_ok_def nth_append)
    ultimately show ?thesis by (simp add: up_ok_def sl)
  qed
  ultimately have "same_nodes h2 (SiftUp kLess ?l h2)" "ordered kLess (slots (SiftUp kLess ?l h2))"
    using SiftUp_correct [OF ok(1), of h2 ?l] by (simp_all add: sl)
  moreover have "Insert kLess n h = (True, SiftUp kLess ?l h2)"
    using new by (simp add: Insert_def Let_def h2_def heap_size_def set_heap_index_def)
  ultimately show "fst (Insert kLess n h)" "heap_inv kLess (snd (Insert kLess n h))"
    "set (slots (snd (Insert kLess n h))) = insert n (set (slots h))"
    using ok(1) by (simp_all add: heap_inv_def same_nodes_def sl)
qed

lemma ordered_butlast: "ordered kLess v \<Longrightarrow> ordered kLess (butlast v)"
proof -
  assume ord: "ordered kLess v"
  have "edge_ok kLess (butlast v) k" if "0 < k" "k < length v - 1" for k
    using ord that less_trans [OF Parent_less [OF that(1)] that(2)] by (simp add: ordered_def edge_ok_def nth_butlast)
  then show ?thesis by (simp add: ordered_def)
qed

text \<open>The last node in the place of an erased one.\<close>

lemma replace_order:
  assumes sw: "strict_weak kLess" and ord: "ordered kLess v" and i: "i < length v"
  shows "0 < i \<Longrightarrow> kLess y (v ! Parent i) \<Longrightarrow> up_ok kLess (v[i := y]) i"
    and "i = 0 \<or> \<not> kLess y (v ! Parent i) \<Longrightarrow> down_ok kLess (v[i := y]) i"
proof -
  have edge: "\<not> kLess (v ! k) (v ! Parent k)" if "0 < k" "k < length v" for k
    using ord that by (simp add: ordered_def edge_ok_def)
  have grand: "\<not> kLess (v ! k) (v ! Parent i)" if "0 < i" "0 < k" "k < length v" "Parent k = i" for k
    using sw_negtrans [OF sw edge [OF that(2,3)]] edge [of i] that i by simp
  have around: "bypass kLess (v[i := y]) i"
    unfolding bypass_def
  proof (intro allI impI)
    fix k assume k: "0 < i" "0 < k" "k < length (v[i := y])" "Parent k = i"
    then have "k \<noteq> i" "Parent i \<noteq> i" using Parent_less [of k] Parent_less [of i] by auto
    then show "\<not> kLess (v[i := y] ! k) (v[i := y] ! Parent i)" using grand [OF k(1,2)] k by simp
  qed
  { assume less: "0 < i" "kLess y (v ! Parent i)"
    have "edge_ok kLess (v[i := y]) k" if k: "0 < k" "k < length v" "k \<noteq> i" for k
    proof (cases "Parent k = i")
      case True
      then have "\<not> kLess (v ! k) y" using grand [OF less(1) k(1,2)] sw_trans [OF sw _ less(2)] by blast
      then show ?thesis using True k i by (simp add: edge_ok_def)
    qed (use k edge in \<open>simp add: edge_ok_def\<close>)
    then show "up_ok kLess (v[i := y]) i" using around by (simp add: up_ok_def) }
  { assume "i = 0 \<or> \<not> kLess y (v ! Parent i)"
    then have "edge_ok kLess (v[i := y]) k" if "0 < k" "k < length v" "Parent k \<noteq> i" for k
      using edge [OF that(1,2)] that i by (cases "k = i") (auto simp: edge_ok_def)
    then show "down_ok kLess (v[i := y]) i" using around by (simp add: down_ok_def) }
qed

lemma Erase_unlinked: "\<not> InHeap n h \<Longrightarrow> Erase kLess n h = (False, h)"
  by (simp add: Erase_def InHeap_def)

lemma InHeap_sets:
  assumes "slots_ok h" "slots_ok h'" "\<And>m. InHeap m h' \<longleftrightarrow> InHeap m h \<and> m \<noteq> n"
  shows "set (slots h') = set (slots h) - {n}"
  using assms by (auto simp: InHeap_set)

lemma Erase_last:
  assumes ok: "slots_ok h" and i: "heap_index h n = Some i" and l: "length (slots h) \<le> Suc i"
  defines "h1 \<equiv> clear_hook n (h\<lparr>slots := butlast (slots h)\<rparr>)"
  shows "slots_ok h1" "set (slots h1) = set (slots h) - {n}"
proof -
  have at: "i < length (slots h)" "slots h ! i = n" using iffD1 [OF slots_okD [OF ok] i] by simp_all
  have "heap_index h1 m = Some k \<longleftrightarrow> k < length (slots h1) \<and> slots h1 ! k = m" for m k
  proof (cases "m = n")
    case True
    have "slots h ! k \<noteq> n" if "k < length (slots h) - 1" 
      by (rule slots_neq [OF ok at]) (use that l in simp_all)
    then show ?thesis using True by (auto simp: h1_def clear_hook_def nth_butlast)
  next
    case False
    then have "k < length (slots h) \<and> slots h ! k = m \<longleftrightarrow> k < length (slots h) - 1 \<and> slots h ! k = m"
      using at l by (cases "k = i") auto
    then show ?thesis using False slots_okD [OF ok, of m k] by (auto simp: h1_def clear_hook_def nth_butlast)
  qed
  then show "slots_ok h1" by (simp add: slots_ok_def)
  then show "set (slots h1) = set (slots h) - {n}"
    using InHeap_sets [OF ok, of h1 n] i by (simp add: InHeap_def h1_def clear_hook_def)
qed

lemma Erase_inner:
  assumes ok: "slots_ok h" and i: "heap_index h n = Some i" and l: "Suc i < length (slots h)"
  defines "h2 \<equiv> set_heap_index (last (slots h)) i
      (clear_hook n (h\<lparr>slots := (butlast (slots h))[i := last (slots h)]\<rparr>))"
  shows "slots_ok h2" "set (slots h2) = set (slots h) - {n}"
proof -
  let ?v = "slots h" and ?e = "length (slots h) - 1"
  have at: "i < length ?v" "?v ! i = n" using iffD1 [OF slots_okD [OF ok] i] by simp_all
  have y: "last ?v = ?v ! ?e" "?e < length ?v" "?e \<noteq> i" using l last_conv_nth [of ?v] by fastforce+
  have ne: "last ?v \<noteq> n" unfolding y(1) by (rule slots_neq [OF ok at y(2,3)])
  have "heap_index h2 m = Some k \<longleftrightarrow> k < length (slots h2) \<and> slots h2 ! k = m" for m k
  proof -
    have h: "heap_index h2 m = (if m = last ?v then Some i else if m = n then None else heap_index h m)"
      by (simp add: h2_def set_heap_index_def clear_hook_def)
    have s: "slots h2 ! k = (if k = i then last ?v else ?v ! k)" if "k < ?e"
      using that l by (simp add: h2_def set_heap_index_def clear_hook_def nth_butlast)
    have len: "length (slots h2) = ?e" by (simp add: h2_def set_heap_index_def clear_hook_def)
    have vn: "?v ! k \<noteq> n" if "k < ?e" "k \<noteq> i" by (rule slots_neq [OF ok at]) (use that in simp_all)
    have vl: "?v ! k \<noteq> last ?v" if "k < ?e"
      by (rule slots_neq [OF ok y(2) y(1) [symmetric]]) (use that in simp_all)
    have ie: "i < ?e" using l by simp
    consider "m = last ?v" | "m = n" | "m \<noteq> last ?v" "m \<noteq> n" by blast
    then show ?thesis
    proof cases
      case 1
      then show ?thesis unfolding h len using s vl ie by (cases "k = i") auto
    next
      case 2
      then show ?thesis unfolding h len using s vn ne by (cases "k = i") auto
    next
      case 3
      then have "k < length ?v \<and> ?v ! k = m \<longleftrightarrow> k < ?e \<and> k \<noteq> i \<and> ?v ! k = m"
        using at(2) y(1) by (cases "k = ?e") auto
      then show ?thesis unfolding h len using slots_okD [OF ok, of m k] s 3 by (cases "k = i") auto
    qed
  qed
  then show "slots_ok h2" by (simp add: slots_ok_def)
  moreover have "InHeap (last ?v) h" using slots_okD [OF ok, of "last ?v" ?e] y by (auto simp: InHeap_def)
  ultimately show "set (slots h2) = set ?v - {n}"
    using InHeap_sets [OF ok, of h2 n] ne by (auto simp: InHeap_def h2_def set_heap_index_def clear_hook_def)
qed

lemma Erase_correct:
  assumes inv: "heap_inv kLess h" and linked: "InHeap n h"
  shows "fst (Erase kLess n h)" "heap_inv kLess (snd (Erase kLess n h))"
    "set (slots (snd (Erase kLess n h))) = set (slots h) - {n}"
proof -
  have ok: "strict_weak kLess" "slots_ok h" "ordered kLess (slots h)" using inv by (simp_all add: heap_inv_def)
  obtain i where i: "heap_index h n = Some i" using linked by (auto simp: InHeap_def)
  let ?r = "Erase kLess n h"
  have "fst ?r \<and> heap_inv kLess (snd ?r) \<and> set (slots (snd ?r)) = set (slots h) - {n}"
  proof (cases "Suc i < length (slots h)")
    case False
    let ?h1 = "clear_hook n (h\<lparr>slots := butlast (slots h)\<rparr>)"
    have r: "?r = (True, ?h1)" using i False by (simp add: Erase_def Let_def heap_size_def clear_hook_def)
    have "slots ?h1 = butlast (slots h)" by (simp add: clear_hook_def)
    then show ?thesis
      using r Erase_last [OF ok(2) i] False ordered_butlast [OF ok(3)] ok(1) by (simp add: heap_inv_def)
  next
    case True
    let ?y = "last (slots h)" and ?w = "butlast (slots h)"
    define h2 where "h2 = set_heap_index ?y i (clear_hook n (h\<lparr>slots := ?w[i := ?y]\<rparr>))"
    have sl: "slots h2 = ?w[i := ?y]" by (simp add: h2_def set_heap_index_def clear_hook_def)
    have il: "i < length ?w" using True by simp
    have s2: "slots_ok h2" "set (slots h2) = set (slots h) - {n}"
      using Erase_inner [OF ok(2) i True] by (simp_all add: h2_def)
    let ?up = "0 < i \<and> kLess ?y (?w ! Parent i)"
    have par: "0 < i \<Longrightarrow> ?w[i := ?y] ! Parent i = ?w ! Parent i" using Parent_less [of i] by simp
    have r: "?r = (True, if ?up then SiftUp kLess i h2 else SiftDown kLess i h2)"
      using i il par
      by (auto simp: Erase_def Let_def heap_size_def clear_hook_def set_heap_index_def h2_def)
    have "same_nodes h2 (snd ?r) \<and> ordered kLess (slots (snd ?r))"
      using r SiftUp_correct [OF ok(1) s2(1), of i] SiftDown_correct [OF ok(1) s2(1), of i]
        replace_order [OF ok(1) ordered_butlast [OF ok(3)] il, of ?y] il
      by (cases ?up) (auto simp: sl)
    then show ?thesis using ok(1) s2(2) r by (simp add: heap_inv_def same_nodes_def)
  qed
  then show "fst (Erase kLess n h)" "heap_inv kLess (snd (Erase kLess n h))"
    "set (slots (snd (Erase kLess n h))) = set (slots h) - {n}" by simp_all
qed

section \<open>A priority queue\<close>

datatype 'n heap_op = HInsert 'n | HErase 'n

fun heap_step :: "('n \<Rightarrow> 'n \<Rightarrow> bool) \<Rightarrow> 'n heap_op \<Rightarrow> 'n QuadHeap \<Rightarrow> bool \<times> 'n QuadHeap" where
  "heap_step kLess (HInsert n) h = Insert kLess n h"
| "heap_step kLess (HErase n) h = Erase kLess n h"

fun spec_heap_step :: "'n heap_op \<Rightarrow> 'n set \<Rightarrow> bool \<times> 'n set" where
  "spec_heap_step (HInsert n) S = (n \<notin> S, insert n S)"
| "spec_heap_step (HErase n) S = (n \<in> S, S - {n})"

definition nodes :: "'n QuadHeap \<Rightarrow> 'n set" where "nodes h = set (slots h)"

lemma InHeap_nodes: "heap_inv kLess h \<Longrightarrow> InHeap n h \<longleftrightarrow> n \<in> nodes h"
  by (simp add: heap_inv_def InHeap_set nodes_def)

lemma heap_step_refines:
  assumes "heap_inv kLess h"
  shows "heap_inv kLess (snd (heap_step kLess x h)) \<and>
    (fst (heap_step kLess x h), nodes (snd (heap_step kLess x h))) = spec_heap_step x (nodes h)"
proof (cases x)
  case (HInsert n)
  then show ?thesis using assms Insert_linked [of n h kLess] Insert_correct [OF assms, of n] InHeap_nodes [OF assms, of n]
    by (cases "InHeap n h") (auto simp: nodes_def)
next
  case (HErase n)
  then show ?thesis using assms Erase_unlinked [of n h kLess] Erase_correct [OF assms, of n] InHeap_nodes [OF assms, of n]
    by (cases "InHeap n h") (auto simp: nodes_def)
qed

interpretation quad: refinement "heap_step kLess" spec_heap_step "heap_inv kLess" nodes for kLess :: "'n \<Rightarrow> 'n \<Rightarrow> bool"
  by unfold_locales (use heap_step_refines in blast)+

lemma root_least:
  assumes sw: "strict_weak kLess" and ord: "ordered kLess v"
  shows "k < length v \<Longrightarrow> \<not> kLess (v ! k) (v ! 0)"
proof (induction k rule: less_induct)
  case (less k)
  show ?case
  proof (cases "k = 0")
    case True
    then show ?thesis using sw_asym [OF sw] by blast
  next
    case False
    then have "Parent k < k" using Parent_less by simp
    then have "\<not> kLess (v ! Parent k) (v ! 0)" using less by simp
    moreover have "\<not> kLess (v ! k) (v ! Parent k)" using ord False less(2) by (simp add: ordered_def edge_ok_def)
    ultimately show ?thesis using sw_negtrans [OF sw] by blast
  qed
qed

lemma earliest_least:
  assumes "heap_inv kLess h"
  shows "earliest h = None \<longleftrightarrow> nodes h = {}"
    and "earliest h = Some n \<Longrightarrow> n \<in> nodes h \<and> (\<forall>m\<in>nodes h. \<not> kLess m n)"
proof -
  have "strict_weak kLess" "ordered kLess (slots h)" using assms by (simp_all add: heap_inv_def)
  note least = root_least [OF this]
  show "earliest h = Some n \<Longrightarrow> n \<in> nodes h \<and> (\<forall>m\<in>nodes h. \<not> kLess m n)"
    using least by (auto simp: earliest_def heap_empty_def nodes_def in_set_conv_nth hd_conv_nth split: if_splits)
qed (simp add: earliest_def heap_empty_def nodes_def)

definition empty_run :: "('n \<Rightarrow> 'n \<Rightarrow> bool) \<Rightarrow> 'n heap_op list \<Rightarrow> bool list \<times> 'n QuadHeap" where
  "empty_run kLess ops = trace (heap_step kLess) ops new_QuadHeap"

lemma empty_run_inv:
  assumes "strict_weak kLess"
  shows "heap_inv kLess (snd (empty_run kLess ops))"
    and "(fst (empty_run kLess ops), nodes (snd (empty_run kLess ops))) = trace spec_heap_step ops {}"
  using quad.run_inv [OF heap_inv_new [OF assms]] quad.run_refines [OF heap_inv_new [OF assms]]
  by (simp_all add: empty_run_def nodes_def new_QuadHeap_def)

text \<open>
  (C36) After any sequence of insertions and erasures on an empty heap, for a comparison that is
  a strict weak order: every call has answered whether it changed the set of linked nodes,
  the nodes that call themselves linked and the size are those of that set, and the earliest
  node is one of the set that none of the set precedes, and is missing only if the set is
  empty.
\<close>

theorem quadheap_is_priority_queue:
  assumes "strict_weak kLess"
  shows "let (rs, h) = empty_run kLess ops; (srs, S) = trace spec_heap_step ops {} in
    rs = srs \<and> (\<forall>n. InHeap n h \<longleftrightarrow> n \<in> S) \<and> heap_size h = card S \<and>
    (case earliest h of None \<Rightarrow> S = {} | Some n \<Rightarrow> n \<in> S \<and> (\<forall>m\<in>S. \<not> kLess m n))"
proof -
  obtain rs h where r: "empty_run kLess ops = (rs, h)" by fastforce
  have inv: "heap_inv kLess h" and t: "trace spec_heap_step ops {} = (rs, nodes h)"
    using empty_run_inv [OF assms, of ops] r by simp_all
  have "heap_size h = card (nodes h)"
    using inv slots_distinct [of h] by (simp add: heap_inv_def heap_size_def nodes_def distinct_card)
  then show ?thesis
    using r t earliest_least [OF inv] InHeap_nodes [OF inv] by (auto split: option.splits)
qed

lemma less_strict_weak: "strict_weak ((<) :: nat \<Rightarrow> nat \<Rightarrow> bool)"
  by (auto simp: strict_weak_def)

theorem quadheap_is_priority_queue_witness:
  "let (rs, h) = empty_run (<) [HInsert 7, HInsert 3, HInsert 7, HInsert (5 :: nat), HErase 3] in
    rs = [True, True, False, True, True] \<and> heap_size h = 2 \<and> earliest h = Some 5"
  using quadheap_is_priority_queue [OF less_strict_weak, of "[HInsert 7, HInsert 3, HInsert 7, HInsert 5, HErase 3]"]
  by (auto simp: Let_def case_prod_beta insert_Diff_if split: option.splits)

section \<open>Popping\<close>

text \<open>What one run of the loop has taken off: the least nodes, in order, as long as they are wanted.\<close>

definition popped :: "('n \<Rightarrow> 'n \<Rightarrow> bool) \<Rightarrow> ('n \<Rightarrow> bool) \<Rightarrow> 'n QuadHeap \<Rightarrow> 'n list \<Rightarrow> 'n QuadHeap \<Rightarrow> bool" where
  "popped kLess pred h r h' \<longleftrightarrow>
     heap_inv kLess h' \<and> distinct r \<and> set r \<inter> nodes h' = {} \<and> set r \<union> nodes h' = nodes h \<and>
     (\<forall>x\<in>set r. pred x) \<and> sorted_wrt (\<lambda>x y. \<not> kLess y x) r \<and>
     (\<forall>x\<in>set r. \<forall>y\<in>nodes h'. \<not> kLess y x) \<and>
     (case earliest h' of None \<Rightarrow> True | Some n \<Rightarrow> \<not> pred n)"

lemma popped_stop:
  assumes "heap_inv kLess h" "case earliest h of None \<Rightarrow> True | Some n \<Rightarrow> \<not> pred n"
  shows "popped kLess pred h [] h"
  using assms by (simp add: popped_def)

lemma popped_Cons:
  assumes inv: "heap_inv kLess h" and e: "earliest h = Some n" and "pred n"
    and p: "popped kLess pred (snd (Erase kLess n h)) r h'"
  shows "popped kLess pred h (n # r) h'"
proof -
  have n: "n \<in> nodes h" "\<forall>m\<in>nodes h. \<not> kLess m n" using earliest_least(2) [OF inv e] by auto
  have "nodes (snd (Erase kLess n h)) = nodes h - {n}"
    using Erase_correct(3) [OF inv, of n] InHeap_nodes [OF inv, of n] n by (simp add: nodes_def)
  then show ?thesis using n p assms(3) unfolding popped_def by auto
qed

lemma Erase_earliest:
  assumes "heap_inv kLess h" "earliest h = Some n"
  shows "heap_inv kLess (snd (Erase kLess n h))" "card (nodes (snd (Erase kLess n h))) < card (nodes h)"
proof -
  have n: "n \<in> nodes h" using earliest_least(2) [OF assms] by blast
  then have l: "InHeap n h" using InHeap_nodes [OF assms(1)] by blast
  then show "heap_inv kLess (snd (Erase kLess n h))" using Erase_correct(2) [OF assms(1)] by blast
  have "nodes (snd (Erase kLess n h)) = nodes h - {n}" using Erase_correct(3) [OF assms(1) l] by (simp add: nodes_def)
  then show "card (nodes (snd (Erase kLess n h))) < card (nodes h)"
    using n card_Diff1_less [of "nodes h" n] by (simp only: nodes_def List.finite_set)
qed

lemma PopWhile_loop_correct:
  "heap_inv kLess h \<Longrightarrow>
   \<exists>r h'. PopWhile_loop kLess pred acc h = Some (acc @ r, h') \<and> popped kLess pred h r h'"
proof (induction "card (nodes h)" arbitrary: acc h rule: less_induct)
  case less
  show ?case
  proof (cases "\<exists>n. earliest h = Some n \<and> pred n")
    case False
    then have "case earliest h of None \<Rightarrow> True | Some n \<Rightarrow> \<not> pred n" by (auto split: option.splits)
    then show ?thesis
      using False popped_stop [OF less(2)] by (subst PopWhile_loop.simps) (auto split: option.splits)
  next
    case True
    then obtain n where n: "earliest h = Some n" "pred n" by blast
    let ?h = "snd (Erase kLess n h)"
    obtain r h' where r: "PopWhile_loop kLess pred (acc @ [n]) ?h = Some ((acc @ [n]) @ r, h')" "popped kLess pred ?h r h'"
      using less(1) [OF Erase_earliest(2,1) [OF less(2) n(1)]] by blast
    have "PopWhile_loop kLess pred acc h = Some (acc @ n # r, h')"
      using n r(1) by (subst PopWhile_loop.simps) simp
    then show ?thesis using popped_Cons [OF less(2) n r(2)] by blast
  qed
qed

text \<open>The form with a callback that leaves the heap alone pops the same nodes.\<close>

lemma PopWhile_each_same:
  assumes cb: "\<And>n h s. on_pop n (h, s) = (h, f n s)"
  shows "heap_inv kLess h \<Longrightarrow>
    \<exists>r h'. PopWhile_loop kLess pred acc h = Some (acc @ r, h') \<and>
      PopWhile_each kLess pred on_pop k (h, s) = Some (k + length r, h', fold f r s)"
proof (induction "card (nodes h)" arbitrary: acc h k s rule: less_induct)
  case less
  show ?case
  proof (cases "\<exists>n. earliest h = Some n \<and> pred n")
    case False
    then show ?thesis
      by (subst PopWhile_loop.simps, subst PopWhile_each.simps) (auto split: option.splits)
  next
    case True
    then obtain n where n: "earliest h = Some n" "pred n" by blast
    let ?h = "snd (Erase kLess n h)"
    obtain r h' where r: "PopWhile_loop kLess pred (acc @ [n]) ?h = Some ((acc @ [n]) @ r, h')"
        "PopWhile_each kLess pred on_pop (k + 1) (?h, f n s) = Some (k + 1 + length r, h', fold f r (f n s))"
      using less(1) [OF Erase_earliest(2,1) [OF less(2) n(1)]] by blast
    have "PopWhile_loop kLess pred acc h = Some (acc @ n # r, h')"
      using n r(1) by (subst PopWhile_loop.simps) simp
    moreover have "PopWhile_each kLess pred on_pop k (h, s) = Some (k + length (n # r), h', fold f (n # r) s)"
      using n r(2) cb by (subst PopWhile_each.simps) simp
    ultimately show ?thesis by blast
  qed
qed

text \<open>
  (C35) Popping while a node is due, on a heap built by insertions and erasures, ends.  When a
  node that is not after a due node is due as well, it gives exactly the due nodes of the
  heap, each once and none before one that precedes it, and leaves the others; no
  node popped calls itself linked.  The form with a callback calls it on the same nodes in
  the same order and returns their number.
\<close>

theorem PopWhile_pops_due:
  assumes sw: "strict_weak kLess" and due: "\<And>x y. pred y \<Longrightarrow> \<not> kLess y x \<Longrightarrow> pred x"
  shows "let h = snd (empty_run kLess ops); S = snd (trace spec_heap_step ops {}) in
    \<exists>r h'. PopWhile kLess pred h = Some (r, h') \<and> set r = {n \<in> S. pred n} \<and> distinct r \<and>
    sorted_wrt (\<lambda>x y. \<not> kLess y x) r \<and> (\<forall>n. InHeap n h' \<longleftrightarrow> n \<in> S \<and> \<not> pred n) \<and>
    PopWhile_each kLess pred (\<lambda>n (h, log). (h, log @ [n])) 0 (h, []) = Some (length r, h', r)"
proof -
  define h S where "h = snd (empty_run kLess ops)" and "S = snd (trace spec_heap_step ops {})"
  note h_def = this(1) and S_def = this(2)
  have inv: "heap_inv kLess h" and S: "nodes h = S"
    using empty_run_inv [OF sw, of ops] by (auto simp: h_def S_def dest: arg_cong [where f = snd])
  obtain r h' where r: "PopWhile_loop kLess pred [] h = Some (r, h')" "popped kLess pred h r h'"
    using PopWhile_loop_correct [OF inv, of pred "[]"] by auto
  have inv': "heap_inv kLess h'" using r(2) by (simp add: popped_def)
  have rest: "\<not> pred n" if n: "n \<in> nodes h'" for n
  proof -
    obtain m where m: "earliest h' = Some m" using n earliest_least(1) [OF inv'] by (cases "earliest h'") auto
    then have "\<not> pred m" "\<not> kLess n m" using r(2) earliest_least(2) [OF inv' m] n by (auto simp: popped_def)
    then show ?thesis using due by blast
  qed
  then have "set r = {n \<in> S. pred n}" "nodes h' = {n \<in> S. \<not> pred n}" using r(2) S by (auto simp: popped_def)
  moreover have "fold (\<lambda>n log. log @ [n]) xs acc = acc @ xs" for xs acc :: "'a list" by (induction xs arbitrary: acc) simp_all
  then have "PopWhile_each kLess pred (\<lambda>n (h, log). (h, log @ [n])) 0 (h, []) = Some (length r, h', r)"
    using PopWhile_each_same [OF _ inv, of "\<lambda>n (h, log). (h, log @ [n])" "\<lambda>n log. log @ [n]" pred "[]" 0 "[]"] r(1) by auto
  ultimately show ?thesis
    unfolding Let_def h_def [symmetric] S_def [symmetric] using r InHeap_nodes [OF inv'] by (auto simp: PopWhile_def popped_def)
qed

theorem PopWhile_pops_due_witness:
  "\<exists>r h'. PopWhile (<) (\<lambda>n. n \<le> 5) (snd (empty_run (<) [HInsert 7, HInsert 5, HInsert 9, HInsert (3 :: nat)])) = Some (r, h')
     \<and> set r = {3, 5} \<and> sorted_wrt (\<lambda>x y. \<not> y < x) r"
proof -
  have S: "{n \<in> snd (trace spec_heap_step [HInsert 7, HInsert 5, HInsert 9, HInsert (3 :: nat)] {}). n \<le> 5} = {3, 5}"
    by auto
  show ?thesis
    using PopWhile_pops_due [OF less_strict_weak, of "\<lambda>n. n \<le> 5" "[HInsert 7, HInsert 5, HInsert 9, HInsert 3]"]
    unfolding Let_def S by auto
qed

end
