(* ===== verification/Buffer.thy ===== *)
theory Buffer
  imports Prelude
begin

text \<open>
  The byte buffer of \<open>buffer.h\<close>: a list of blocks with a read and a write position each.  The
  bytes of a fresh block are indeterminate, \<open>None\<close> in the model.  The block list is a list, as
  the intrusive list behaves.  An \<open>iovec\<close> names a block by its place in the list, an offset
  and a length; writing through a list of them, as \<open>readv\<close> does, is \<open>scatter\<close>.  An assertion
  that fails is \<open>None\<close>.

  Shown: the buffer is a queue of bytes.
\<close>

section \<open>Blocks\<close>

record Block =
  bdata :: "u8 option list"
  capacity :: nat
  read_pos :: nat
  write_pos :: nat
  reserved_for_write :: bool

definition NewBlock :: "nat \<Rightarrow> Block" where
  "NewBlock cap = \<lparr>bdata = replicate cap None, capacity = cap, read_pos = 0, write_pos = 0, reserved_for_write = False\<rparr>"

definition Block_ReadableBytes :: "Block \<Rightarrow> nat" where "Block_ReadableBytes k = write_pos k - read_pos k"

definition WritableBytes :: "Block \<Rightarrow> nat" where "WritableBytes k = capacity k - write_pos k"

definition ReadData :: "Block \<Rightarrow> u8 option list" where
  "ReadData k = take (Block_ReadableBytes k) (drop (read_pos k) (bdata k))"

text \<open>Bytes copied to an offset of a block.\<close>

definition poke :: "nat \<Rightarrow> u8 list \<Rightarrow> Block \<Rightarrow> Block" where
  "poke off bytes k = k\<lparr>bdata := take off (bdata k) @ map Some bytes @ drop (off + length bytes) (bdata k)\<rparr>"

section \<open>The buffer\<close>

record Buffer =
  blocks :: "Block list"
  readable_bytes :: nat
  block_size :: nat
  write_reserved :: bool
  reserved_bytes :: nat
  reserved_block_count :: nat

record iovec =
  iov_block :: nat
  iov_off :: nat
  iov_len :: nat

definition kDefaultBlockSize :: nat where "kDefaultBlockSize = 16 * 1024"

definition new_Buffer :: "nat \<Rightarrow> Buffer" where
  "new_Buffer n =
     \<lparr>blocks = [], readable_bytes = 0, block_size = max n 1, write_reserved = False,
      reserved_bytes = 0, reserved_block_count = 0\<rparr>"

definition Buffer_Empty :: "Buffer \<Rightarrow> bool" where "Buffer_Empty b \<longleftrightarrow> readable_bytes b = 0"

definition FirstReadableBlock :: "Buffer \<Rightarrow> Block option" where
  "FirstReadableBlock b = find (\<lambda>k. Block_ReadableBytes k > 0) (blocks b)"

definition ContiguousView :: "Buffer \<Rightarrow> u8 option list" where
  "ContiguousView b = (case FirstReadableBlock b of None \<Rightarrow> [] | Some k \<Rightarrow> ReadData k)"

fun iov_loop :: "nat \<Rightarrow> nat \<Rightarrow> Block list \<Rightarrow> iovec list \<Rightarrow> iovec list" where
  "iov_loop max_iov i [] out = out"
| "iov_loop max_iov i (k # ks) out =
     (if length out \<ge> max_iov then out
      else if Block_ReadableBytes k = 0 then iov_loop max_iov (i + 1) ks out
      else iov_loop max_iov (i + 1) ks
             (out @ [\<lparr>iov_block = i, iov_off = read_pos k, iov_len = Block_ReadableBytes k\<rparr>]))"

definition ReadableIov :: "nat \<Rightarrow> Buffer \<Rightarrow> iovec list" where
  "ReadableIov max_iov b = iov_loop max_iov 0 (blocks b) []"

definition EnsureOneTailBlock :: "nat \<Rightarrow> Buffer \<Rightarrow> Buffer" where
  "EnsureOneTailBlock hint b =
     (if blocks b \<noteq> [] \<and> WritableBytes (last (blocks b)) > 0 then b
      else b\<lparr>blocks := blocks b @ [NewBlock (max (block_size b) hint)]\<rparr>)"

function ensure_loop :: "nat \<Rightarrow> nat \<Rightarrow> nat \<Rightarrow> nat \<Rightarrow> Buffer \<Rightarrow> Buffer" where
  "ensure_loop hint max_iov writable reserved b =
     (if writable < hint \<and> reserved < max_iov then
        let k = (NewBlock (max (block_size b) (hint - writable)))\<lparr>reserved_for_write := True\<rparr> in
        ensure_loop hint max_iov (writable + WritableBytes k) (reserved + 1) (b\<lparr>blocks := blocks b @ [k]\<rparr>)
      else b)"
  by pat_completeness auto
termination
  by (relation "measure (\<lambda>(hint, max_iov, writable, reserved, b). max_iov - reserved)") auto

declare ensure_loop.simps [simp del]

definition EnsureTailWritable :: "nat \<Rightarrow> nat \<Rightarrow> Buffer \<Rightarrow> Buffer" where
  "EnsureTailWritable hint max_iov b =
     (if blocks b \<noteq> [] \<and> WritableBytes (last (blocks b)) > 0 then
        ensure_loop hint max_iov (WritableBytes (last (blocks b))) 1
          (b\<lparr>blocks := butlast (blocks b) @ [(last (blocks b))\<lparr>reserved_for_write := True\<rparr>]\<rparr>)
      else ensure_loop hint max_iov 0 0 b)"

fun prepare_loop :: "nat \<Rightarrow> nat \<Rightarrow> Block list \<Rightarrow> iovec list \<Rightarrow> nat \<Rightarrow> nat \<Rightarrow> iovec list \<times> nat \<times> nat" where
  "prepare_loop max_iov i [] out bytes count = (out, bytes, count)"
| "prepare_loop max_iov i (k # ks) out bytes count =
     (if \<not> reserved_for_write k then prepare_loop max_iov (i + 1) ks out bytes count
      else if length out \<ge> max_iov then (out, bytes, count)
      else let n = WritableBytes k in
        if n = 0 then prepare_loop max_iov (i + 1) ks out bytes count
        else prepare_loop max_iov (i + 1) ks
               (out @ [\<lparr>iov_block = i, iov_off = write_pos k, iov_len = n\<rparr>]) (bytes + n) (count + 1))"

definition PrepareWrite :: "nat \<Rightarrow> nat \<Rightarrow> Buffer \<Rightarrow> (iovec list \<times> Buffer) option" where
  "PrepareWrite hint max_iov b =
     (if write_reserved b then None
      else if max_iov = 0 then Some ([], b)
      else let b1 = EnsureTailWritable (if hint = 0 then block_size b else hint) max_iov b;
               (out, bytes, count) = prepare_loop max_iov 0 (blocks b1) [] 0 0
           in Some (out, b1\<lparr>write_reserved := True, reserved_bytes := bytes, reserved_block_count := count\<rparr>))"

definition ClearWriteReservation :: "Buffer \<Rightarrow> Buffer" where
  "ClearWriteReservation b =
     (if \<not> write_reserved b then b
      else b\<lparr>blocks := map (\<lambda>k. k\<lparr>reserved_for_write := False\<rparr>) (blocks b),
             write_reserved := False, reserved_bytes := 0, reserved_block_count := 0\<rparr>)"

text \<open>The blocks after the loop, the bytes added to \<open>readable_bytes_\<close> and what remains.\<close>

fun commit_loop :: "nat \<Rightarrow> Block list \<Rightarrow> Block list \<times> nat \<times> nat" where
  "commit_loop remaining [] = ([], 0, remaining)"
| "commit_loop remaining (k # ks) =
     (if \<not> reserved_for_write k then
        let (ks', added, rest) = commit_loop remaining ks in (k # ks', added, rest)
      else if remaining = 0 then (k # ks, 0, 0)
      else let m = min remaining (WritableBytes k);
               (ks', added, rest) = commit_loop (remaining - m) ks
           in (k\<lparr>write_pos := write_pos k + m\<rparr> # ks', m + added, rest))"

definition CommitWrite :: "nat \<Rightarrow> Buffer \<Rightarrow> Buffer option" where
  "CommitWrite n b =
     (if \<not> write_reserved b \<or> reserved_bytes b < n then None
      else let (ks, added, remaining) = commit_loop n (blocks b) in
        if remaining \<noteq> 0 then None
        else Some (ClearWriteReservation (b\<lparr>blocks := ks, readable_bytes := readable_bytes b + added\<rparr>)))"

definition AbortWrite :: "Buffer \<Rightarrow> Buffer" where "AbortWrite b = ClearWriteReservation b"

function append_loop :: "u8 list \<Rightarrow> Buffer \<Rightarrow> Buffer" where
  "append_loop bytes b =
     (if bytes = [] then b
      else let b1 = EnsureOneTailBlock (length bytes) b;
               tail = last (blocks b1);
               n = min (length bytes) (WritableBytes tail);
               tail' = poke (write_pos tail) (take n bytes) tail
           in append_loop (drop n bytes)
                (b1\<lparr>blocks := butlast (blocks b1) @ [tail'\<lparr>write_pos := write_pos tail' + n\<rparr>],
                    readable_bytes := readable_bytes b1 + n\<rparr>))"
  by pat_completeness auto

lemma EnsureOneTailBlock_writable:
  "0 < hint \<Longrightarrow> blocks (EnsureOneTailBlock hint b) \<noteq> [] \<and> 0 < WritableBytes (last (blocks (EnsureOneTailBlock hint b)))"
  by (auto simp: EnsureOneTailBlock_def NewBlock_def WritableBytes_def)

termination append_loop
proof (relation "measure (\<lambda>(bytes, b). length bytes)")
  fix bytes b b1 tail n tail'
  assume a: "bytes \<noteq> []" "b1 = EnsureOneTailBlock (length bytes) b" "tail = last (blocks b1)"
    "n = min (length bytes) (WritableBytes tail)"
  then have "0 < n" using EnsureOneTailBlock_writable [of "length bytes" b] by simp
  then show "((drop n bytes, b1\<lparr>blocks := butlast (blocks b1) @ [tail'\<lparr>write_pos := write_pos tail' + n\<rparr>],
      readable_bytes := readable_bytes b1 + n\<rparr>), bytes, b) \<in> measure (\<lambda>(bytes, b). length bytes)"
    using a(1) by simp
qed simp

declare append_loop.simps [simp del]

definition Append :: "u8 list \<Rightarrow> Buffer \<Rightarrow> Buffer option" where
  "Append bytes b = (if write_reserved b then None else Some (append_loop bytes b))"

text \<open>The blocks left and the bytes taken off.\<close>

fun drain_loop :: "nat \<Rightarrow> Block list \<Rightarrow> Block list \<times> nat" where
  "drain_loop n [] = ([], 0)"
| "drain_loop n (k # ks) =
     (if n = 0 then (k # ks, 0)
      else let m = min n (Block_ReadableBytes k);
               k' = k\<lparr>read_pos := read_pos k + m\<rparr>
           in if Block_ReadableBytes k' = 0 then
                (let (ks', taken) = drain_loop (n - m) ks in (ks', m + taken))
              else (k' # ks, m))"

definition DrainCommitted :: "nat \<Rightarrow> Buffer \<Rightarrow> Buffer" where
  "DrainCommitted n b =
     (let (ks, taken) = drain_loop n (blocks b) in b\<lparr>blocks := ks, readable_bytes := readable_bytes b - taken\<rparr>)"

definition Drain :: "nat \<Rightarrow> Buffer \<Rightarrow> Buffer option" where
  "Drain n b = (if write_reserved b then None else Some (DrainCommitted (min n (readable_bytes b)) b))"

definition Buffer_Clear :: "Buffer \<Rightarrow> Buffer" where
  "Buffer_Clear b = (ClearWriteReservation b)\<lparr>blocks := [], readable_bytes := 0\<rparr>"

definition DrainAll :: "Buffer \<Rightarrow> Buffer option" where
  "DrainAll b = (if write_reserved b then None else Some (Buffer_Clear b))"

text \<open>This buffer and the moved-from one.\<close>

definition MoveFromObject :: "Buffer \<Rightarrow> Buffer \<Rightarrow> (Buffer \<times> Buffer) option" where
  "MoveFromObject this other =
     (if write_reserved other then None
      else Some
        (\<lparr>blocks = blocks this @ blocks other, readable_bytes = readable_bytes other,
          block_size = block_size other, write_reserved = False, reserved_bytes = 0, reserved_block_count = 0\<rparr>,
         other\<lparr>blocks := [], readable_bytes := 0, write_reserved := False, reserved_bytes := 0,
               reserved_block_count := 0\<rparr>))"

definition move_construct :: "Buffer \<Rightarrow> (Buffer \<times> Buffer) option" where
  "move_construct other = MoveFromObject (new_Buffer kDefaultBlockSize) other"

definition move_assign :: "Buffer \<Rightarrow> Buffer \<Rightarrow> (Buffer \<times> Buffer) option" where
  "move_assign this other = (if write_reserved this then None else MoveFromObject (Buffer_Clear this) other)"

text \<open>What the kernel does with the list of areas: fill them in order.\<close>

fun scatter :: "iovec list \<Rightarrow> u8 list \<Rightarrow> Buffer \<Rightarrow> Buffer" where
  "scatter [] bytes b = b"
| "scatter (v # vs) bytes b =
     scatter vs (drop (iov_len v) bytes)
       (b\<lparr>blocks := (blocks b)[iov_block v := poke (iov_off v) (take (iov_len v) bytes) (blocks b ! iov_block v)]\<rparr>)"

section \<open>A queue of bytes\<close>

definition block_ok :: "Block \<Rightarrow> bool" where
  "block_ok k \<longleftrightarrow> length (bdata k) = capacity k \<and> read_pos k \<le> write_pos k \<and> write_pos k \<le> capacity k"

definition contents :: "Block list \<Rightarrow> u8 option list" where "contents ks = concat (map ReadData ks)"

lemma contents_simps [simp]:
  "contents [] = []" "contents (k # ks) = ReadData k @ contents ks" "contents (ks @ ls) = contents ks @ contents ls"
  by (simp_all add: contents_def)

definition represents :: "Buffer \<Rightarrow> u8 list \<Rightarrow> bool" where
  "represents b q \<longleftrightarrow>
     (\<forall>k\<in>set (blocks b). block_ok k \<and> \<not> reserved_for_write k) \<and> \<not> write_reserved b \<and> 1 \<le> block_size b \<and>
     contents (blocks b) = map Some q \<and> readable_bytes b = length q"

lemma length_ReadData: "block_ok k \<Longrightarrow> length (ReadData k) = Block_ReadableBytes k"
  by (auto simp: ReadData_def block_ok_def Block_ReadableBytes_def)

lemma block_ok_NewBlock [simp]:
  "block_ok (NewBlock n)" "ReadData (NewBlock n) = []" "WritableBytes (NewBlock n) = n"
  "reserved_for_write (NewBlock n) = False"
  by (simp_all add: block_ok_def NewBlock_def ReadData_def Block_ReadableBytes_def WritableBytes_def)

lemma reserve_simps [simp]:
  "block_ok (k\<lparr>reserved_for_write := r\<rparr>) = block_ok k" "ReadData (k\<lparr>reserved_for_write := r\<rparr>) = ReadData k"
  "WritableBytes (k\<lparr>reserved_for_write := r\<rparr>) = WritableBytes k"
  by (simp_all add: block_ok_def ReadData_def Block_ReadableBytes_def WritableBytes_def)

text \<open>Bytes written behind the write position of a block, and the position moved over them.\<close>

lemma block_write:
  assumes ok: "block_ok k" and room: "length bytes \<le> WritableBytes k"
  shows "block_ok ((poke (write_pos k) bytes k)\<lparr>write_pos := write_pos k + length bytes\<rparr>)"
    and "ReadData ((poke (write_pos k) bytes k)\<lparr>write_pos := write_pos k + length bytes\<rparr>) = ReadData k @ map Some bytes"
proof -
  have le: "read_pos k \<le> write_pos k" "write_pos k + length bytes \<le> length (bdata k)" "length (bdata k) = capacity k"
    using assms by (auto simp: block_ok_def WritableBytes_def)
  then show "block_ok ((poke (write_pos k) bytes k)\<lparr>write_pos := write_pos k + length bytes\<rparr>)"
    by (simp add: block_ok_def poke_def)
  show "ReadData ((poke (write_pos k) bytes k)\<lparr>write_pos := write_pos k + length bytes\<rparr>) = ReadData k @ map Some bytes"
    using le by (simp add: ReadData_def Block_ReadableBytes_def poke_def drop_take)
qed

lemma poke_fields [simp]:
  "write_pos (poke off bytes k) = write_pos k" "reserved_for_write (poke off bytes k) = reserved_for_write k"
  "capacity (poke off bytes k) = capacity k" "WritableBytes (poke off bytes k) = WritableBytes k"
  by (simp_all add: poke_def WritableBytes_def)

lemma EnsureOneTailBlock_represents: "represents b q \<Longrightarrow> represents (EnsureOneTailBlock hint b) q"
  by (auto simp: EnsureOneTailBlock_def represents_def)

lemma append_represents: "represents b q \<Longrightarrow> represents (append_loop bytes b) (q @ bytes)"
proof (induction bytes b arbitrary: q rule: append_loop.induct)
  case (1 bytes b)
  show ?case
  proof (cases "bytes = []")
    case False
    define b1 where "b1 = EnsureOneTailBlock (length bytes) b"
    define tail where "tail = last (blocks b1)"
    define n where "n = min (length bytes) (WritableBytes tail)"
    let ?tail = "(poke (write_pos tail) (take n bytes) tail)\<lparr>write_pos := write_pos tail + n\<rparr>"
    let ?b2 = "b1\<lparr>blocks := butlast (blocks b1) @ [?tail], readable_bytes := readable_bytes b1 + n\<rparr>"
    have rep: "represents b1 q" using EnsureOneTailBlock_represents [OF 1(2)] by (simp add: b1_def)
    have split: "blocks b1 = butlast (blocks b1) @ [tail]"
      using EnsureOneTailBlock_writable [of "length bytes" b] False by (simp add: b1_def tail_def)
    then have tail: "tail \<in> set (blocks b1)" by (metis in_set_conv_decomp)
    then have ok: "block_ok tail" "\<not> reserved_for_write tail" using rep by (auto simp: represents_def)
    have n: "length (take n bytes) = n" "n \<le> WritableBytes tail" by (simp_all add: n_def)
    have w: "block_ok ?tail" "ReadData ?tail = ReadData tail @ map Some (take n bytes)"
      using block_write [OF ok(1), of "take n bytes"] n by simp_all
    have c: "contents (butlast (blocks b1)) @ ReadData tail = map Some q"
      using rep split unfolding represents_def by (metis contents_simps(1,2,3) append.right_neutral)
    have "contents (blocks ?b2) = map Some (q @ take n bytes)"
      using w(2) c by (simp flip: append_assoc)
    moreover have "readable_bytes ?b2 = length (q @ take n bytes)" using rep n(1) by (simp add: represents_def)
    moreover have "\<forall>k\<in>set (blocks ?b2). block_ok k \<and> \<not> reserved_for_write k"
      using rep w(1) ok(2) by (auto simp: represents_def dest: in_set_butlastD)
    ultimately have "represents ?b2 (q @ take n bytes)" using rep by (simp add: represents_def)
    moreover have "represents ?b2 q' \<Longrightarrow> represents (append_loop (drop n bytes) ?b2) (q' @ drop n bytes)" for q'
      using 1(1) [OF False b1_def tail_def n_def refl] by simp
    ultimately have "represents (append_loop (drop n bytes) ?b2) ((q @ take n bytes) @ drop n bytes)" by blast
    moreover have "append_loop bytes b = append_loop (drop n bytes) ?b2"
      using False unfolding append_loop.simps [of bytes b] by (simp add: Let_def b1_def tail_def n_def)
    ultimately show ?thesis by simp
  qed (use 1 in \<open>simp add: append_loop.simps\<close>)
qed

lemma drain_loop_correct:
  assumes "\<forall>k\<in>set ks. block_ok k \<and> \<not> reserved_for_write k"
  shows "(\<forall>k\<in>set (fst (drain_loop n ks)). block_ok k \<and> \<not> reserved_for_write k) \<and>
    contents (fst (drain_loop n ks)) = drop n (contents ks) \<and> snd (drain_loop n ks) = min n (length (contents ks))"
  using assms
proof (induction ks arbitrary: n)
  case (Cons k ks)
  let ?m = "min n (Block_ReadableBytes k)"
  have ok: "block_ok k" "\<not> reserved_for_write k" using Cons(2) by auto
  have len: "length (ReadData k) = Block_ReadableBytes k" using length_ReadData [OF ok(1)] .
  have k': "block_ok (k\<lparr>read_pos := read_pos k + ?m\<rparr>)" "ReadData (k\<lparr>read_pos := read_pos k + ?m\<rparr>) = drop ?m (ReadData k)"
    "Block_ReadableBytes (k\<lparr>read_pos := read_pos k + ?m\<rparr>) = Block_ReadableBytes k - ?m"
    using ok(1) by (auto simp: block_ok_def ReadData_def Block_ReadableBytes_def drop_take add.commute)
  show ?case
  proof (cases "n = 0")
    case False
    show ?thesis
    proof (cases "Block_ReadableBytes k \<le> n")
      case True
      then show ?thesis
        using Cons.IH [of "n - ?m"] Cons(2) False k' len by (auto simp: Let_def case_prod_beta min_def)
    next
      case False
      then show ?thesis using Cons(2) k' len ok \<open>n \<noteq> 0\<close> by (auto simp: Let_def min_def)
    qed
  qed (use Cons in simp)
qed simp

lemma Drain_represents:
  assumes "represents b q"
  shows "\<exists>b'. Drain n b = Some b' \<and> represents b' (drop n q)"
proof -
  let ?n = "min n (readable_bytes b)"
  have "drop ?n q = drop n q" using assms by (simp add: represents_def min_def)
  then show ?thesis
    using assms drain_loop_correct [of "blocks b" ?n]
    by (auto simp: Drain_def DrainCommitted_def represents_def Let_def case_prod_beta drop_map)
qed

subsection \<open>Reserve, fill, commit\<close>

lemma ensure_loop_once:
  "ensure_loop hint max_iov writable reserved b =
     (if writable < hint \<and> reserved < max_iov
      then b\<lparr>blocks := blocks b @ [(NewBlock (max (block_size b) (hint - writable)))\<lparr>reserved_for_write := True\<rparr>]\<rparr>
      else b)"
proof -
  have "\<not> writable + max c (hint - writable) < hint" for c by linarith
  then have "ensure_loop hint max_iov (writable + max c (hint - writable)) r b' = b'" for c r b'
    by (subst ensure_loop.simps) simp
  then show ?thesis by (subst ensure_loop.simps) (simp add: Let_def)
qed

text \<open>
  The blocks reserved are at the end of the list, no more than asked for, all of them can
  take bytes, and only the first of them may hold any.
\<close>

definition tail_reserved :: "nat \<Rightarrow> Block list \<Rightarrow> bool" where
  "tail_reserved max_iov rs \<longleftrightarrow>
     rs \<noteq> [] \<and> length rs \<le> max_iov \<and> contents (tl rs) = [] \<and>
     (\<forall>k\<in>set rs. block_ok k \<and> reserved_for_write k \<and> 0 < WritableBytes k)"

definition room :: "Block list \<Rightarrow> nat" where "room rs = sum_list (map WritableBytes rs)"

lemma EnsureTailWritable_reserves:
  assumes rep: "represents b q" and "0 < max_iov" "0 < hint"
  obtains pre rs where "EnsureTailWritable hint max_iov b = b\<lparr>blocks := pre @ rs\<rparr>" "tail_reserved max_iov rs"
    "\<forall>k\<in>set pre. block_ok k \<and> \<not> reserved_for_write k" "contents (pre @ rs) = map Some q"
    "2 \<le> max_iov \<Longrightarrow> hint \<le> room rs"
proof (cases "blocks b \<noteq> [] \<and> WritableBytes (last (blocks b)) > 0")
  case True
  let ?t = "(last (blocks b))\<lparr>reserved_for_write := True\<rparr>"
  let ?new = "if WritableBytes ?t < hint \<and> 1 < max_iov
    then [(NewBlock (max (block_size b) (hint - WritableBytes ?t)))\<lparr>reserved_for_write := True\<rparr>] else []"
  have split: "blocks b = butlast (blocks b) @ [last (blocks b)]" using True by simp
  have last: "block_ok (last (blocks b))" using rep True by (simp add: represents_def)
  show thesis
  proof (rule that [of "butlast (blocks b)" "?t # ?new"])
    show "EnsureTailWritable hint max_iov b = b\<lparr>blocks := butlast (blocks b) @ ?t # ?new\<rparr>"
      using True by (simp add: EnsureTailWritable_def ensure_loop_once)
    show "tail_reserved max_iov (?t # ?new)" using True last assms(2) rep by (auto simp: tail_reserved_def represents_def)
    show "\<forall>k\<in>set (butlast (blocks b)). block_ok k \<and> \<not> reserved_for_write k"
      using rep by (auto simp: represents_def dest: in_set_butlastD)
    have "contents (butlast (blocks b)) @ ReadData (last (blocks b)) = map Some q"
      using rep split unfolding represents_def by (metis contents_simps(1,2,3) append.right_neutral)
    then show "contents (butlast (blocks b) @ ?t # ?new) = map Some q" by simp
    show "hint \<le> room (?t # ?new)" if "2 \<le> max_iov" using that by (auto simp: room_def)
  qed
next
  case False
  let ?k = "(NewBlock (max (block_size b) hint))\<lparr>reserved_for_write := True\<rparr>"
  show thesis
  proof (rule that [of "blocks b" "[?k]"])
    show "EnsureTailWritable hint max_iov b = b\<lparr>blocks := blocks b @ [?k]\<rparr>"
      using False assms(2,3) by (auto simp: EnsureTailWritable_def ensure_loop_once)
    show "tail_reserved max_iov [?k]" using assms by (simp add: tail_reserved_def Suc_le_eq less_max_iff_disj)
  qed (use rep in \<open>auto simp: represents_def room_def\<close>)
qed

definition areas :: "nat \<Rightarrow> Block list \<Rightarrow> iovec list" where
  "areas i rs = map (\<lambda>(j, k). \<lparr>iov_block = j, iov_off = write_pos k, iov_len = WritableBytes k\<rparr>) (enumerate i rs)"

lemma areas_simps [simp]:
  "areas i [] = []"
  "areas i (k # ks) = \<lparr>iov_block = i, iov_off = write_pos k, iov_len = WritableBytes k\<rparr> # areas (Suc i) ks"
  by (simp_all add: areas_def)

lemma sum_areas: "sum_list (map iov_len (areas i rs)) = room rs"
  by (induction rs arbitrary: i) (simp_all add: room_def)

lemma prepare_loop_skip:
  "\<forall>k\<in>set pre. \<not> reserved_for_write k \<Longrightarrow>
   prepare_loop max_iov i (pre @ rs) out bytes count = prepare_loop max_iov (i + length pre) rs out bytes count"
  by (induction pre arbitrary: i) simp_all

lemma prepare_loop_areas:
  "\<lbrakk>\<forall>k\<in>set rs. reserved_for_write k \<and> 0 < WritableBytes k; length out + length rs \<le> max_iov\<rbrakk>
   \<Longrightarrow> prepare_loop max_iov i rs out bytes count = (out @ areas i rs, bytes + room rs, count + length rs)"
  by (induction rs arbitrary: i out bytes count) (simp_all add: Let_def room_def)

fun fill :: "Block list \<Rightarrow> u8 list \<Rightarrow> Block list" where
  "fill [] bytes = []"
| "fill (k # ks) bytes = poke (write_pos k) (take (WritableBytes k) bytes) k # fill ks (drop (WritableBytes k) bytes)"

lemma scatter_areas:
  "blocks b = pre @ rs \<Longrightarrow> scatter (areas (length pre) rs) bytes b = b\<lparr>blocks := pre @ fill rs bytes\<rparr>"
proof (induction rs arbitrary: pre bytes b)
  case (Cons k ks)
  let ?k = "poke (write_pos k) (take (WritableBytes k) bytes) k"
  have "(blocks b)[length pre := ?k] = (pre @ [?k]) @ ks" "blocks b ! length pre = k" using Cons(2) by simp_all
  then show ?case using Cons.IH [of "b\<lparr>blocks := (pre @ [?k]) @ ks\<rparr>" "pre @ [?k]"] by simp
qed simp

lemma poke_Nil: "block_ok k \<Longrightarrow> poke (write_pos k) [] k = k"
  by (simp add: poke_def block_ok_def)

lemma fill_Nil: "\<forall>k\<in>set rs. block_ok k \<Longrightarrow> fill rs [] = rs"
  by (induction rs) (simp_all add: poke_Nil)

lemma commit_loop_skip:
  "\<forall>k\<in>set pre. \<not> reserved_for_write k \<Longrightarrow>
   commit_loop n (pre @ rs) = (case commit_loop n rs of (ks, added, rest) \<Rightarrow> (pre @ ks, added, rest))"
  by (induction pre) (auto simp: Let_def split: prod.splits)

lemma commit_fill:
  "\<lbrakk>\<forall>k\<in>set rs. block_ok k \<and> reserved_for_write k; contents (tl rs) = []; length bytes \<le> room rs\<rbrakk>
   \<Longrightarrow> \<exists>ks. commit_loop (length bytes) (fill rs bytes) = (ks, length bytes, 0) \<and>
     contents ks = contents rs @ map Some bytes \<and> (\<forall>k\<in>set ks. block_ok k)"
proof (induction rs arbitrary: bytes)
  case (Cons k rs)
  let ?w = "WritableBytes k"
  have ok: "block_ok k" "reserved_for_write k" using Cons(2) by auto
  have tl: "contents (tl rs) = []" using Cons(3) by (cases rs) auto
  have k': "block_ok ((poke (write_pos k) (take ?w bytes) k)\<lparr>write_pos := write_pos k + min (length bytes) ?w\<rparr>)"
    "ReadData ((poke (write_pos k) (take ?w bytes) k)\<lparr>write_pos := write_pos k + min (length bytes) ?w\<rparr>)
       = ReadData k @ map Some (take ?w bytes)"
    using block_write [OF ok(1), of "take ?w bytes"] by (simp_all add: min.commute)
  have "length (drop ?w bytes) \<le> room rs" using Cons(4) by (simp add: room_def)
  then obtain ks where ks: "commit_loop (length (drop ?w bytes)) (fill rs (drop ?w bytes)) = (ks, length (drop ?w bytes), 0)"
      "contents ks = contents rs @ map Some (drop ?w bytes)" "\<forall>k\<in>set ks. block_ok k"
    using Cons.IH [OF _ tl] Cons(2) by fastforce
  show ?case
  proof (cases "bytes = []")
    case True
    then show ?thesis using Cons(2) ok by (simp add: poke_Nil fill_Nil)
  next
    case False
    have "length bytes - min (length bytes) ?w = length (drop ?w bytes)" by simp
    then show ?thesis using False ok ks k' Cons(3) by (simp add: Let_def flip: map_append)
  qed
qed (simp add: room_def)

text \<open>A reservation, the bytes the kernel delivers into it, and the commit append those bytes.\<close>

lemma write_represents:
  assumes rep: "represents b q" and pos: "0 < max_iov"
  obtains vs b1 where "PrepareWrite hint max_iov b = Some (vs, b1)" "0 < sum_list (map iov_len vs)"
    "2 \<le> max_iov \<Longrightarrow> hint \<le> sum_list (map iov_len vs)"
    "\<And>bytes. length bytes \<le> sum_list (map iov_len vs) \<Longrightarrow>
       \<exists>b2. CommitWrite (length bytes) (scatter vs bytes b1) = Some b2 \<and> represents b2 (q @ bytes)"
    "represents (AbortWrite b1) q"
proof -
  let ?hint = "if hint = 0 then block_size b else hint"
  have h: "0 < ?hint" using rep by (simp add: represents_def)
  obtain pre rs where e: "EnsureTailWritable ?hint max_iov b = b\<lparr>blocks := pre @ rs\<rparr>" "tail_reserved max_iov rs"
      "\<forall>k\<in>set pre. block_ok k \<and> \<not> reserved_for_write k" "contents (pre @ rs) = map Some q" "2 \<le> max_iov \<Longrightarrow> ?hint \<le> room rs"
    using EnsureTailWritable_reserves [OF rep pos h] by blast
  define b1 where "b1 = b\<lparr>blocks := pre @ rs, write_reserved := True, reserved_bytes := room rs, reserved_block_count := length rs\<rparr>"
  let ?vs = "areas (length pre) rs"
  have rs: "\<forall>k\<in>set rs. block_ok k \<and> reserved_for_write k" "contents (tl rs) = []" using e(2) by (auto simp: tail_reserved_def)
  have loop: "prepare_loop max_iov 0 (pre @ rs) [] 0 0 = (?vs, room rs, length rs)"
    using e(2,3) prepare_loop_skip [of pre max_iov 0 rs] prepare_loop_areas [of rs "[]" max_iov] by (simp add: tail_reserved_def)
  have fields: "\<not> write_reserved b" "1 \<le> block_size b" "readable_bytes b = length q" using rep by (simp_all add: represents_def)
  show thesis
  proof (rule that [of ?vs b1])
    show "PrepareWrite hint max_iov b = Some (?vs, b1)"
      using pos fields(1) e(1) loop by (simp add: PrepareWrite_def Let_def b1_def)
    show "0 < sum_list (map iov_len ?vs)" unfolding sum_areas
      using e(2) by (cases rs) (auto simp: tail_reserved_def room_def)
    show "hint \<le> sum_list (map iov_len ?vs)" if "2 \<le> max_iov" using e(5) [OF that] by (auto simp: sum_areas split: if_splits)
    show "represents (AbortWrite b1) q"
      using e(3,4) rs(1) fields
      by (auto simp: AbortWrite_def ClearWriteReservation_def represents_def b1_def contents_def comp_def)
    fix bytes :: "u8 list" assume le: "length bytes \<le> sum_list (map iov_len ?vs)"
    then obtain ks where ks: "commit_loop (length bytes) (fill rs bytes) = (ks, length bytes, 0)"
        "contents ks = contents rs @ map Some bytes" "\<forall>k\<in>set ks. block_ok k"
      using commit_fill [OF rs, of bytes] by (auto simp: sum_areas)
    have sc: "scatter ?vs bytes b1 = b1\<lparr>blocks := pre @ fill rs bytes\<rparr>" using scatter_areas [of b1 pre rs] by (simp add: b1_def)
    show "\<exists>b2. CommitWrite (length bytes) (scatter ?vs bytes b1) = Some b2 \<and> represents b2 (q @ bytes)"
      using le e(3,4) ks commit_loop_skip [of pre "length bytes" "fill rs bytes"] fields
      unfolding sc by (auto simp: CommitWrite_def b1_def sum_areas ClearWriteReservation_def represents_def contents_def comp_def)
  qed
qed

subsection \<open>Reading\<close>

lemma ContiguousView_front:
  assumes "represents b q"
  shows "ContiguousView b = map Some (take (length (ContiguousView b)) q)" and "q \<noteq> [] \<Longrightarrow> ContiguousView b \<noteq> []"
proof -
  have "(case find (\<lambda>k. Block_ReadableBytes k > 0) ks of None \<Rightarrow> contents ks = []
      | Some k \<Rightarrow> ReadData k \<noteq> [] \<and> (\<exists>rest. contents ks = ReadData k @ rest))" if "\<forall>k\<in>set ks. block_ok k" for ks
    using that
  proof (induction ks)
    case (Cons k ks)
    have "length (ReadData k) = Block_ReadableBytes k" using length_ReadData Cons(2) by simp
    then show ?case using Cons by (cases "Block_ReadableBytes k > 0") (auto split: option.splits)
  qed simp
  from this [of "blocks b"] have "(ContiguousView b \<noteq> [] \<or> q = []) \<and> (\<exists>rest. map Some q = ContiguousView b @ rest)"
    using assms by (auto simp: represents_def ContiguousView_def FirstReadableBlock_def split: option.splits)
  then show "ContiguousView b = map Some (take (length (ContiguousView b)) q)" and "q \<noteq> [] \<Longrightarrow> ContiguousView b \<noteq> []"
    by (auto simp: take_map dest: arg_cong [where f = "take (length (ContiguousView b))"])
qed

definition gather :: "Buffer \<Rightarrow> iovec list \<Rightarrow> u8 option list" where
  "gather b vs = concat (map (\<lambda>v. take (iov_len v) (drop (iov_off v) (bdata (blocks b ! iov_block v)))) vs)"

lemma iov_loop_gather:
  "\<lbrakk>blocks b = pre @ ks; \<forall>k\<in>set (blocks b). block_ok k; gather b out = contents pre\<rbrakk> \<Longrightarrow>
   \<exists>m. gather b (iov_loop max_iov (length pre) ks out) = contents (take m (blocks b)) \<and>
     (length out + length ks \<le> max_iov \<longrightarrow> length (blocks b) \<le> m)"
proof (induction ks arbitrary: pre out)
  case Nil
  then show ?case by (intro exI [of _ "length (blocks b)"]) simp
next
  case (Cons k ks)
  let ?v = "\<lparr>iov_block = length pre, iov_off = read_pos k, iov_len = Block_ReadableBytes k\<rparr>"
  have len: "length (ReadData k) = Block_ReadableBytes k" using length_ReadData Cons(2,3) by simp
  have b: "blocks b = (pre @ [k]) @ ks" using Cons(2) by simp
  have g: "gather b (out @ [?v]) = contents (pre @ [k])"
    using Cons(2,4) by (simp add: gather_def ReadData_def nth_append)
  consider "max_iov \<le> length out" | "length out < max_iov" "Block_ReadableBytes k = 0" | "length out < max_iov" "0 < Block_ReadableBytes k"
    by linarith
  then show ?case
  proof cases
    case 1
    then show ?thesis using Cons(2,4) by (intro exI [of _ "length pre"]) simp
  next
    case 2
    then have "gather b out = contents (pre @ [k])" using Cons(4) len by simp
    then show ?thesis using Cons.IH [OF b Cons(3)] 2 by fastforce
  next
    case 3
    then show ?thesis using Cons.IH [OF b Cons(3) g] by simp
  qed
qed

lemma ReadableIov_front:
  assumes "represents b q"
  shows "\<exists>n. gather b (ReadableIov max_iov b) = map Some (take n q) \<and> (length (blocks b) \<le> max_iov \<longrightarrow> length q \<le> n)"
proof -
  have ok: "\<forall>k\<in>set (blocks b). block_ok k" "contents (blocks b) = map Some q" using assms by (auto simp: represents_def)
  obtain m where m: "gather b (ReadableIov max_iov b) = contents (take m (blocks b))" "length (blocks b) \<le> max_iov \<longrightarrow> length (blocks b) \<le> m"
    using iov_loop_gather [of b "[]" "blocks b" "[]" max_iov] ok(1) by (auto simp: ReadableIov_def gather_def)
  let ?n = "length (contents (take m (blocks b)))"
  have "contents (take m (blocks b)) @ contents (drop m (blocks b)) = map Some q"
    using ok(2) by (simp flip: contents_simps(3))
  then have "contents (take m (blocks b)) = map Some (take ?n q)" by (metis append_eq_conv_conj take_map)
  moreover have "length q \<le> ?n" if "length (blocks b) \<le> m" using that ok(2) by simp
  ultimately show ?thesis using m by auto
qed

subsection \<open>Sequences of calls\<close>

datatype buffer_op =
  BAppend "u8 list" | BWrite nat nat "u8 list" | BAbort nat nat | BDrain nat | BDrainAll | BMove

text \<open>
  \<open>BWrite\<close> is a read from a socket: a reservation, as many of the bytes at hand as the areas
  take, and the commit; its result is their number.  \<open>BMove\<close> moves the buffer into a new one.
\<close>

fun buffer_step :: "buffer_op \<Rightarrow> Buffer \<Rightarrow> (nat \<times> Buffer) option" where
  "buffer_step (BAppend bytes) b = map_option (Pair (length bytes)) (Append bytes b)"
| "buffer_step (BWrite hint max_iov bytes) b =
     (case PrepareWrite hint max_iov b of
        None \<Rightarrow> None
      | Some (vs, b1) \<Rightarrow>
          let n = min (length bytes) (sum_list (map iov_len vs)) in
          map_option (Pair n) (CommitWrite n (scatter vs (take n bytes) b1)))"
| "buffer_step (BAbort hint max_iov) b =
     (case PrepareWrite hint max_iov b of None \<Rightarrow> None | Some (_, b1) \<Rightarrow> Some (0, AbortWrite b1))"
| "buffer_step (BDrain n) b = map_option (Pair 0) (Drain n b)"
| "buffer_step BDrainAll b = map_option (Pair 0) (DrainAll b)"
| "buffer_step BMove b = map_option (\<lambda>(this, other). (0, this)) (move_construct b)"

fun buffer_run :: "buffer_op list \<Rightarrow> Buffer \<Rightarrow> (nat list \<times> Buffer) option" where
  "buffer_run [] b = Some ([], b)"
| "buffer_run (x # xs) b =
     (case buffer_step x b of
        None \<Rightarrow> None
      | Some (r, b') \<Rightarrow> map_option (\<lambda>(rs, b''). (r # rs, b'')) (buffer_run xs b'))"

text \<open>The queue: what each call does to the bytes held, given its result.\<close>

fun queue_step :: "buffer_op \<times> nat \<Rightarrow> u8 list \<Rightarrow> u8 list" where
  "queue_step (BAppend bytes, r) q = q @ bytes"
| "queue_step (BWrite hint max_iov bytes, r) q = q @ take r bytes"
| "queue_step (BAbort hint max_iov, r) q = q"
| "queue_step (BDrain n, r) q = drop n q"
| "queue_step (BDrainAll, r) q = []"
| "queue_step (BMove, r) q = q"

fun usable :: "buffer_op \<Rightarrow> bool" where
  "usable (BWrite hint max_iov bytes) \<longleftrightarrow> 0 < max_iov"
| "usable _ \<longleftrightarrow> True"

text \<open>A write takes a byte if there is one, and as much as was announced if two areas are allowed.\<close>

fun progress :: "buffer_op \<times> nat \<Rightarrow> bool" where
  "progress (BWrite hint max_iov bytes, r) \<longleftrightarrow>
     min (length bytes) (if 2 \<le> max_iov then max 1 hint else 1) \<le> r"
| "progress _ \<longleftrightarrow> True"

lemma represents_idle: "represents b q \<Longrightarrow> \<not> write_reserved b"
  by (simp add: represents_def)

lemma Append_represents: "represents b q \<Longrightarrow> \<exists>b'. Append bytes b = Some b' \<and> represents b' (q @ bytes)"
  using append_represents [of b q bytes] represents_idle [of b q] by (simp add: Append_def)

lemma DrainAll_represents: "represents b q \<Longrightarrow> \<exists>b'. DrainAll b = Some b' \<and> represents b' []"
  by (auto simp: DrainAll_def Buffer_Clear_def ClearWriteReservation_def represents_def)

lemma move_represents:
  "represents b q \<Longrightarrow> \<exists>this other. move_construct b = Some (this, other) \<and> represents this q \<and> represents other []"
  by (auto simp: move_construct_def MoveFromObject_def new_Buffer_def represents_def)

lemma Abort_represents:
  assumes "represents b q"
  shows "\<exists>vs b1. PrepareWrite hint max_iov b = Some (vs, b1) \<and> represents (AbortWrite b1) q"
proof (cases "max_iov = 0")
  case True
  then show ?thesis using assms by (auto simp: PrepareWrite_def AbortWrite_def ClearWriteReservation_def represents_def)
next
  case False
  show ?thesis by (rule write_represents [OF assms, of max_iov hint]) (use False in \<open>simp_all\<close>)
qed

lemma Write_represents:
  assumes rep: "represents b q" and pos: "0 < max_iov"
  shows "\<exists>r b'. buffer_step (BWrite hint max_iov bytes) b = Some (r, b') \<and> represents b' (q @ take r bytes) \<and>
    progress (BWrite hint max_iov bytes, r)"
proof -
  obtain vs b1 where w: "PrepareWrite hint max_iov b = Some (vs, b1)" "0 < sum_list (map iov_len vs)"
      "2 \<le> max_iov \<Longrightarrow> hint \<le> sum_list (map iov_len vs)"
      "\<And>bytes. length bytes \<le> sum_list (map iov_len vs) \<Longrightarrow>
         \<exists>b2. CommitWrite (length bytes) (scatter vs bytes b1) = Some b2 \<and> represents b2 (q @ bytes)"
    by (rule write_represents [OF rep pos, of hint]) (rule that, assumption+)
  let ?n = "min (length bytes) (sum_list (map iov_len vs))"
  obtain b2 where "CommitWrite ?n (scatter vs (take ?n bytes) b1) = Some b2" "represents b2 (q @ take ?n bytes)"
    using w(4) [of "take ?n bytes"] by auto
  then show ?thesis using w(1-3) by (auto simp: Let_def)
qed

lemma buffer_step_represents:
  assumes "represents b q" "usable x"
  shows "\<exists>r b'. buffer_step x b = Some (r, b') \<and> represents b' (queue_step (x, r) q) \<and> progress (x, r)"
proof (cases x)
  case (BWrite hint max_iov bytes)
  then show ?thesis using Write_represents [OF assms(1), of max_iov hint bytes] assms(2) by simp
next
  case (BMove)
  then show ?thesis using move_represents [OF assms(1)] by auto
next
  case (BAppend bytes)
  then show ?thesis using Append_represents [OF assms(1), of bytes] by auto
next
  case (BAbort hint max_iov)
  then show ?thesis using Abort_represents [OF assms(1), of hint max_iov] by auto
next
  case (BDrain n)
  then show ?thesis using Drain_represents [OF assms(1), of n] by auto
next
  case BDrainAll
  then show ?thesis using DrainAll_represents [OF assms(1)] by auto
qed

lemma buffer_run_represents:
  "\<lbrakk>represents b q; list_all usable xs\<rbrakk> \<Longrightarrow>
   \<exists>rs b'. buffer_run xs b = Some (rs, b') \<and> length rs = length xs \<and> represents b' (fold queue_step (zip xs rs) q) \<and>
     list_all progress (zip xs rs)"
proof (induction xs arbitrary: b q)
  case (Cons x xs)
  obtain r b' where s: "buffer_step x b = Some (r, b')" "represents b' (queue_step (x, r) q)" "progress (x, r)"
    using buffer_step_represents [OF Cons(2), of x] Cons(3) by auto
  then obtain rs b'' where "buffer_run xs b' = Some (rs, b'')" "length rs = length xs"
      "represents b'' (fold queue_step (zip xs rs) (queue_step (x, r) q))" "list_all progress (zip xs rs)"
    using Cons.IH [OF s(2)] Cons(3) by auto
  then show ?case using s by (intro exI [of _ "r # rs"] exI [of _ b'']) simp
qed simp

text \<open>
  (C34) No sequence of usable calls on a new buffer fails an assertion, and after any such sequence
  the buffer holds the bytes that a plain queue holds: its size is theirs, the contiguous view
  is a start of them and empty only if there are none, the areas for writing out are a start of
  them and all of them when as many areas as blocks are allowed.  Bytes read into a
  reservation are never lost or reordered, and a read makes progress.
\<close>

theorem buffer_is_byte_queue:
  assumes "list_all usable xs"
  shows "\<exists>rs b. buffer_run xs (new_Buffer n) = Some (rs, b) \<and> list_all progress (zip xs rs) \<and>
    (let q = fold queue_step (zip xs rs) [] in
     readable_bytes b = length q \<and> Buffer_Empty b = (q = []) \<and>
     ContiguousView b = map Some (take (length (ContiguousView b)) q) \<and> (ContiguousView b = [] \<longrightarrow> q = []) \<and>
     (\<forall>max_iov. \<exists>m. gather b (ReadableIov max_iov b) = map Some (take m q) \<and> (length (blocks b) \<le> max_iov \<longrightarrow> length q \<le> m)))"
proof -
  have "represents (new_Buffer n) []" by (simp add: represents_def new_Buffer_def)
  then obtain rs b where r: "buffer_run xs (new_Buffer n) = Some (rs, b)" "list_all progress (zip xs rs)"
      "represents b (fold queue_step (zip xs rs) [])"
    using buffer_run_represents assms by blast
  have "readable_bytes b = length (fold queue_step (zip xs rs) [])" using r(3) by (simp add: represents_def)
  then show ?thesis
    using r(1,2) ContiguousView_front [OF r(3)] ReadableIov_front [OF r(3)] unfolding Let_def Buffer_Empty_def by auto
qed

theorem buffer_is_byte_queue_witness:
  "list_all usable [BAppend [1, 2, 3], BDrain 1, BWrite 2 4 [4, 5]] \<and>
   (\<exists>rs b. buffer_run [BAppend [1, 2, 3], BDrain 1, BWrite 2 4 [4, 5]] (new_Buffer 2) = Some (rs, b) \<and> 2 \<le> readable_bytes b)"
proof -
  have u: "list_all usable [BAppend [1, 2, 3], BDrain 1, BWrite 2 4 [4, 5]]" by simp
  obtain rs b where r: "buffer_run [BAppend [1, 2, 3], BDrain 1, BWrite 2 4 [4, 5]] (new_Buffer 2) = Some (rs, b)"
      "readable_bytes b = length (fold queue_step (zip [BAppend [1, 2, 3], BDrain 1, BWrite 2 4 [4, 5]] rs) [])"
    using buffer_is_byte_queue [OF u, of 2] unfolding Let_def by blast
  have "length rs = 3" using r(1) by (auto split: option.splits)
  then obtain x y z where "rs = [x, y, z]" by (auto simp: numeral_3_eq_3 length_Suc_conv)
  then show ?thesis using r by auto
qed

end
