(* ===== verification/ProxyRewrite.thy ===== *)
theory ProxyRewrite
  imports HttpParser Balancers
begin

text \<open>
  The text a proxied request and response consist of, from \<open>proxy_pass.cc\<close>: which client headers
  are passed on, the request written to the upstream peer, and the rewriting of a response
  head with the framing of its body.  The iteration order of the header table is the
  argument \<open>enum\<close>.

  Shown: a request the parser accepted is written so that the same parser, at the upstream,
  reads the same method, target and body and nothing else; the exception is a client that
  names \<open>content-length\<close> in its \<open>Connection\<close> header.
\<close>

section \<open>Header names\<close>

definition ascii_lower :: "char \<Rightarrow> char" where
  "ascii_lower a = (if 65 \<le> (of_char a :: nat) \<and> (of_char a :: nat) \<le> 90 then char_of (of_char a + 32 :: nat) else a)"

fun bytes_equal :: "string \<Rightarrow> string \<Rightarrow> bool" where
  "bytes_equal (a # l) (b # r) = (if ascii_lower a \<noteq> ascii_lower b then False else bytes_equal l r)"
| "bytes_equal _ _ = True"

definition AsciiCaseEqual :: "string \<Rightarrow> string \<Rightarrow> bool" where
  "AsciiCaseEqual lhs rhs = (if length lhs \<noteq> length rhs then False else bytes_equal lhs rhs)"

definition blank :: "char \<Rightarrow> bool" where "blank c \<longleftrightarrow> c = CHR '' '' \<or> c = CHR 0x09"

definition trim_blanks :: "string \<Rightarrow> string" where
  "trim_blanks s = rev (dropWhile blank (rev (dropWhile blank s)))"

function NamedByConnection :: "string \<Rightarrow> string \<Rightarrow> bool" where
  "NamedByConnection field connection =
     (if connection = [] then False
      else let comma = find_from '','' connection 0;
               token = trim_blanks (case comma of None \<Rightarrow> connection | Some c \<Rightarrow> substr connection 0 c)
           in if AsciiCaseEqual field token then True
              else case comma of None \<Rightarrow> False | Some c \<Rightarrow> NamedByConnection field (drop (c + 1) connection))"
  by pat_completeness auto
termination
  by (relation "measure (\<lambda>(field, connection). length connection)") auto

declare NamedByConnection.simps [simp del]

definition IsHopByHop :: "string \<Rightarrow> bool" where
  "IsHopByHop h \<longleftrightarrow> h \<in> set
     [''connection'', ''keep-alive'', ''proxy-connection'', ''proxy-authenticate'', ''proxy-authorization'',
      ''te'', ''trailer'', ''transfer-encoding'', ''upgrade'']"

definition AppendHeader :: "string \<Rightarrow> string \<Rightarrow> string \<Rightarrow> string" where
  "AppendHeader out name val = out @ name @ '': '' @ val @ crlf"

definition IsIdempotent :: "Method \<Rightarrow> bool" where
  "IsIdempotent m = (case m of
     Get \<Rightarrow> True | Head \<Rightarrow> True | Put \<Rightarrow> True | Delete \<Rightarrow> True | Options \<Rightarrow> True | Trace \<Rightarrow> True | _ \<Rightarrow> False)"

section \<open>The request to the upstream\<close>

record ForwardedHeaderContext =
  fwd_client_ip :: string
  fwd_scheme :: string
  fwd_gateway_name :: string
  fwd_request_id :: string

text \<open>One client header: the text so far and the three values kept for later.\<close>

fun forward_header ::
    "string \<Rightarrow> string \<times> string \<Rightarrow> string \<times> string \<times> string \<times> string \<Rightarrow> string \<times> string \<times> string \<times> string" where
  "forward_header connection (k, v) (out, previous_xff, previous_via, existing_request_id) =
     (if k = ''host'' \<or> IsHopByHop k \<or> NamedByConnection k connection
        then (out, previous_xff, previous_via, existing_request_id)
      else if k = ''x-forwarded-for'' then (out, v, previous_via, existing_request_id)
      else if k = ''via'' then (out, previous_xff, v, existing_request_id)
      else if k = ''x-request-id'' then (out, previous_xff, previous_via, v)
      else if k = ''x-real-ip'' \<or> k = ''x-forwarded-proto'' \<or> k = ''x-forwarded-host'' \<or> k = ''x-forwarded-port''
        then (out, previous_xff, previous_via, existing_request_id)
      else (AppendHeader out k v, previous_xff, previous_via, existing_request_id))"

definition BuildRequestInto ::
    "(HeaderMap \<Rightarrow> HeaderMap) \<Rightarrow> HttpRequest \<Rightarrow> UpstreamPeer \<Rightarrow> ForwardedHeaderContext \<Rightarrow> string" where
  "BuildRequestInto enum req peer forwarded =
     (let out0 = MethodToString (rq_method req) @ '' '' @
            (if rq_path req = [] then ''/'' else rq_path req) @
            (if rq_query req \<noteq> [] then ''?'' @ rq_query req else []) @ '' HTTP/1.1'' @ crlf;
          connection = rq_connection req;
          original_host = rq_host req;
          (out1, previous_xff, previous_via, existing_request_id) =
            fold (forward_header connection) (enum (rq_headers req)) (out0, [], [], []);
          ip = fwd_client_ip forwarded;
          out2 = (if previous_xff \<noteq> [] \<and> ip \<noteq> [] then out1 @ ''x-forwarded-for: '' @ previous_xff @ '', '' @ ip @ crlf
                  else if previous_xff \<noteq> [] then AppendHeader out1 ''x-forwarded-for'' previous_xff
                  else if ip \<noteq> [] then AppendHeader out1 ''x-forwarded-for'' ip
                  else out1);
          out3 = (if ip \<noteq> [] then AppendHeader out2 ''x-real-ip'' ip else out2);
          out4 = (if fwd_scheme forwarded \<noteq> [] then AppendHeader out3 ''x-forwarded-proto'' (fwd_scheme forwarded) else out3);
          out5 = (if original_host \<noteq> [] then AppendHeader out4 ''x-forwarded-host'' original_host else out4);
          gateway = fwd_gateway_name forwarded;
          out6 = (if previous_via \<noteq> [] \<and> gateway \<noteq> [] then out5 @ ''via: '' @ previous_via @ '', 1.1 '' @ gateway @ crlf
                  else if previous_via \<noteq> [] then AppendHeader out5 ''via'' previous_via
                  else if gateway \<noteq> [] then out5 @ ''via: 1.1 '' @ gateway @ crlf
                  else out5);
          out7 = (if existing_request_id \<noteq> [] then AppendHeader out6 ''x-request-id'' existing_request_id
                  else if fwd_request_id forwarded \<noteq> [] then AppendHeader out6 ''x-request-id'' (fwd_request_id forwarded)
                  else out6);
          out8 = AppendHeader out7 ''host'' (host_port peer) @ ''connection: keep-alive'' @ crlf @ crlf
      in if rq_body req \<noteq> [] then out8 @ rq_body req else out8)"

definition BuildRequest ::
    "(HeaderMap \<Rightarrow> HeaderMap) \<Rightarrow> HttpRequest \<Rightarrow> UpstreamPeer \<Rightarrow> ForwardedHeaderContext \<Rightarrow> string" where
  "BuildRequest enum req peer forwarded = BuildRequestInto enum req peer forwarded"

section \<open>The head of the response\<close>

datatype BodyFraming = kCloseDelimited | kContentLength | kChunked | kNoBody

record ResponseState =
  framing :: BodyFraming
  body_remaining :: nat
  upstream_keepalive :: bool
  status :: int

definition new_ResponseState :: ResponseState where
  "new_ResponseState = \<lparr>framing = kCloseDelimited, body_remaining = 0, upstream_keepalive = True, status = 0\<rparr>"

text \<open>\<open>std::from_chars\<close> into an \<open>int\<close>; without a number the target keeps its value.\<close>

definition from_chars_int :: "string \<Rightarrow> int \<Rightarrow> int" where
  "from_chars_int s old =
     (let (neg, ds) = (case s of c # cs \<Rightarrow> if c = CHR ''-'' then (True, cs) else (False, s) | [] \<Rightarrow> (False, [])) in
      case from_chars ds of
        None \<Rightarrow> old
      | Some (n, _) \<Rightarrow> let i = (if neg then - int n else int n) in if - (2 ^ 31) \<le> i \<and> i < 2 ^ 31 then i else old)"

definition names_chunked :: "string \<Rightarrow> bool" where
  "names_chunked val \<longleftrightarrow> list_ex (\<lambda>i. AsciiCaseEqual (substr val i 7) ''chunked'') [0..<Suc (length val) - 7]"

definition header_state :: "string \<Rightarrow> string \<Rightarrow> ResponseState \<Rightarrow> ResponseState" where
  "header_state name val st =
     (if AsciiCaseEqual name ''content-length'' then
        (case from_chars val of
           None \<Rightarrow> st
         | Some (n, _) \<Rightarrow> st\<lparr>framing := kContentLength, body_remaining := n\<rparr>)
      else if AsciiCaseEqual name ''transfer-encoding'' then
        (if names_chunked val then st\<lparr>framing := kChunked\<rparr> else st)
      else if AsciiCaseEqual name ''connection'' then
        (if AsciiCaseEqual val ''close'' then st\<lparr>upstream_keepalive := False\<rparr> else st)
      else st)"

function rewrite_loop :: "string \<Rightarrow> bool \<Rightarrow> nat \<Rightarrow> string \<Rightarrow> ResponseState \<Rightarrow> string \<times> ResponseState" where
  "rewrite_loop raw_headers no_body pos out st =
     (if pos < length raw_headers then
        case find_from [LF] raw_headers pos of
          None \<Rightarrow> (out, st)
        | Some eol \<Rightarrow>
            let line0 = substr raw_headers pos (eol - pos);
                line = (if line0 \<noteq> [] \<and> last line0 = CR then butlast line0 else line0);
                colon = find_from '':'' line 0;
                out' = (if (case colon of None \<Rightarrow> False | Some c \<Rightarrow> AsciiCaseEqual (substr line 0 c) ''server'')
                        then out @ ''Server: runtime-gateway'' @ crlf else out @ line @ crlf)
            in if line = [] then (out', st)
               else if no_body then rewrite_loop raw_headers no_body (eol + 1) out' st
               else case colon of
                 None \<Rightarrow> rewrite_loop raw_headers no_body (eol + 1) out' st
               | Some c \<Rightarrow>
                   rewrite_loop raw_headers no_body (eol + 1) out'
                     (header_state (substr line 0 c) (dropWhile blank (drop (c + 1) line)) st)
      else (out, st))"
  by pat_completeness auto
termination
  by (relation "measure (\<lambda>(raw_headers, no_body, pos, out, st). length raw_headers - pos)")
    (auto dest: find_from_bounds)

declare rewrite_loop.simps [simp del]

definition RewriteHeaders :: "string \<Rightarrow> Method \<Rightarrow> string \<times> ResponseState" where
  "RewriteHeaders raw_headers request_method =
     (let st0 = new_ResponseState;
          (pos, out, st1) =
            (case find_from [CR] raw_headers 0 of
               None \<Rightarrow> (0, [], st0)
             | Some first_cr \<Rightarrow>
                 let first_line = substr raw_headers 0 first_cr in
                 (first_cr + 2, first_line @ crlf,
                  if 12 \<le> length first_line \<and> first_line ! 8 = CHR '' ''
                  then st0\<lparr>status := from_chars_int (substr first_line 9 3) (status st0)\<rparr> else st0));
          no_body = (request_method = Head \<or> status st1 = 204 \<or> status st1 = 304 \<or>
                     100 \<le> status st1 \<and> status st1 < 200);
          st2 = (if no_body then st1\<lparr>framing := kNoBody, body_remaining := 0, upstream_keepalive := True\<rparr> else st1)
      in rewrite_loop raw_headers no_body pos out st2)"

section \<open>What the upstream reads\<close>

definition passed :: "string \<Rightarrow> string \<Rightarrow> bool" where
  "passed connection k \<longleftrightarrow> \<not> (k = ''host'' \<or> IsHopByHop k \<or> NamedByConnection k connection)"

definition gateway_names :: "string list" where
  "gateway_names = [''x-forwarded-for'', ''via'', ''x-request-id'', ''x-real-ip'', ''x-forwarded-proto'',
     ''x-forwarded-host'', ''x-forwarded-port'']"

definition kept :: "string \<Rightarrow> HeaderMap \<Rightarrow> HeaderMap" where
  "kept connection hs = filter (\<lambda>h. passed connection (fst h) \<and> fst h \<notin> set gateway_names) hs"

fun last_value :: "string \<Rightarrow> string \<Rightarrow> HeaderMap \<Rightarrow> string \<Rightarrow> string" where
  "last_value connection name [] old = old"
| "last_value connection name ((k, v) # hs) old =
     last_value connection name hs (if passed connection k \<and> k = name then v else old)"

lemma fold_forward_header:
  "fold (forward_header connection) hs (out, xff, via, rid) =
     (out @ concat (map header_line (kept connection hs)), last_value connection ''x-forwarded-for'' hs xff,
      last_value connection ''via'' hs via, last_value connection ''x-request-id'' hs rid)"
proof (induction hs arbitrary: out xff via rid)
  case (Cons h hs)
  obtain k v where "h = (k, v)" by (cases h)
  then show ?case
    using Cons [of "AppendHeader out k v" xff via rid] Cons [of out] 
    by (auto simp: kept_def passed_def gateway_names_def AppendHeader_def header_line_def)
qed (simp add: kept_def)

lemma last_value_cases: "last_value connection name hs old = old \<or> (name, last_value connection name hs old) \<in> set hs"
proof (induction hs arbitrary: old)
  case (Cons h hs)
  obtain k v where h: "h = (k, v)" by (cases h)
  show ?case using Cons [of old] Cons [of v] by (cases "passed connection k \<and> k = name") (auto simp: h)
qed simp

text \<open>The headers the gateway adds.\<close>

definition opt_header :: "string \<Rightarrow> string \<Rightarrow> HeaderMap" where
  "opt_header name v = (if v \<noteq> [] then [(name, v)] else [])"

definition chained :: "string \<Rightarrow> string \<Rightarrow> string" where
  "chained previous item = (if previous \<noteq> [] \<and> item \<noteq> [] then previous @ '', '' @ item
     else if previous \<noteq> [] then previous else item)"

definition via_item :: "string \<Rightarrow> string" where
  "via_item gateway = (if gateway \<noteq> [] then ''1.1 '' @ gateway else [])"

definition own_headers :: "string \<Rightarrow> string \<Rightarrow> string \<Rightarrow> string \<Rightarrow> UpstreamPeer \<Rightarrow> ForwardedHeaderContext \<Rightarrow> HeaderMap" where
  "own_headers xff via rid host peer f =
     opt_header ''x-forwarded-for'' (chained xff (fwd_client_ip f)) @
     opt_header ''x-real-ip'' (fwd_client_ip f) @
     opt_header ''x-forwarded-proto'' (fwd_scheme f) @
     opt_header ''x-forwarded-host'' host @
     opt_header ''via'' (chained via (via_item (fwd_gateway_name f))) @
     opt_header ''x-request-id'' (if rid \<noteq> [] then rid else fwd_request_id f) @
     [(''host'', host_port peer), (''connection'', ''keep-alive'')]"

lemma append_opt:
  "(if v \<noteq> [] then AppendHeader out name v else out) = out @ concat (map header_line (opt_header name v))"
  by (simp add: AppendHeader_def header_line_def opt_header_def)

lemma append_xff:
  "(if xff \<noteq> [] \<and> ip \<noteq> [] then out @ ''x-forwarded-for: '' @ xff @ '', '' @ ip @ crlf
    else if xff \<noteq> [] then AppendHeader out ''x-forwarded-for'' xff
    else if ip \<noteq> [] then AppendHeader out ''x-forwarded-for'' ip else out)
   = out @ concat (map header_line (opt_header ''x-forwarded-for'' (chained xff ip)))"
  by (simp add: AppendHeader_def header_line_def opt_header_def chained_def)

lemma append_via:
  "(if via \<noteq> [] \<and> gateway \<noteq> [] then out @ ''via: '' @ via @ '', 1.1 '' @ gateway @ crlf
    else if via \<noteq> [] then AppendHeader out ''via'' via
    else if gateway \<noteq> [] then out @ ''via: 1.1 '' @ gateway @ crlf else out)
   = out @ concat (map header_line (opt_header ''via'' (chained via (via_item gateway))))"
  by (simp add: AppendHeader_def header_line_def opt_header_def chained_def via_item_def)

lemma append_rid:
  "(if rid \<noteq> [] then AppendHeader out ''x-request-id'' rid
    else if new \<noteq> [] then AppendHeader out ''x-request-id'' new else out)
   = out @ concat (map header_line (opt_header ''x-request-id'' (if rid \<noteq> [] then rid else new)))"
  by (simp add: AppendHeader_def header_line_def opt_header_def)

lemma append_end:
  "AppendHeader out ''host'' hp @ ''connection: keep-alive'' @ crlf @ crlf
   = out @ concat (map header_line [(''host'', hp), (''connection'', ''keep-alive'')]) @ crlf"
  by (simp add: AppendHeader_def header_line_def)

definition forwarded_headers ::
    "(HeaderMap \<Rightarrow> HeaderMap) \<Rightarrow> HttpRequest \<Rightarrow> UpstreamPeer \<Rightarrow> ForwardedHeaderContext \<Rightarrow> HeaderMap" where
  "forwarded_headers enum r peer f =
     (let c = rq_connection r; hs = enum (rq_headers r) in
      kept c hs @ own_headers (last_value c ''x-forwarded-for'' hs []) (last_value c ''via'' hs [])
        (last_value c ''x-request-id'' hs []) (rq_host r) peer f)"

definition upstream_message ::
    "(HeaderMap \<Rightarrow> HeaderMap) \<Rightarrow> HttpRequest \<Rightarrow> UpstreamPeer \<Rightarrow> ForwardedHeaderContext \<Rightarrow> message" where
  "upstream_message enum r peer f =
     \<lparr>msg_method = rq_method r, msg_version = Http11, msg_path = (if rq_path r = [] then ''/'' else rq_path r),
      msg_query = rq_query r, msg_headers = forwarded_headers enum r peer f, msg_body = rq_body r\<rparr>"

lemma lines_header_line: "lines_text (map header_text hs) = concat (map header_line hs)"
  by (induction hs) (simp_all add: header_text_def header_line_def)

lemma append_body: "(if b \<noteq> [] then out @ b else out) = out @ b"
  by simp

lemma BuildRequest_text: "BuildRequest enum r peer f = message_text (upstream_message enum r peer f)"
proof -
  let ?hs = "forwarded_headers enum r peer f"
  let ?line = "MethodToString (rq_method r) @ '' '' @ (if rq_path r = [] then ''/'' else rq_path r) @
    (if rq_query r \<noteq> [] then ''?'' @ rq_query r else []) @ '' HTTP/1.1'' @ crlf"
  have "BuildRequest enum r peer f = ?line @ concat (map header_line ?hs) @ crlf @ rq_body r"
    unfolding BuildRequest_def BuildRequestInto_def append_xff append_via append_rid
    unfolding append_opt append_end append_body
    by (simp only: Let_def fold_forward_header case_prod_conv forwarded_headers_def own_headers_def map_append concat_append append_assoc)
  also have "?line = request_line (upstream_message enum r peer f) @ crlf"
    by (simp add: request_line_def uri_text_def version_text_def upstream_message_def)
  finally show ?thesis
    unfolding message_text_def by (simp add: upstream_message_def lines_header_line)
qed

subsection \<open>The headers are well formed\<close>

definition value_ok :: "string \<Rightarrow> bool" where "value_ok v \<longleftrightarrow> plain v \<and> Trim v = v"

lemma Trim_id_iff: "Trim v = v \<longleftrightarrow> v = [] \<or> hd v \<noteq> CHR '' '' \<and> last v \<noteq> CHR '' ''"
proof -
  let ?sp = "\<lambda>c. c = CHR '' ''"
  have d: "dropWhile ?sp w = w \<longleftrightarrow> w = [] \<or> hd w \<noteq> CHR '' ''" for w
    using length_dropWhile_le [of ?sp "tl w"] by (cases w) (auto dest: arg_cong [where f = length])
  show ?thesis
  proof
    assume t: "Trim v = v"
    then have l: "dropWhile ?sp v = v" by (rule Trim_leading)
    then have "dropWhile ?sp (rev v) = rev v" using t unfolding Trim_def by (metis rev_rev_ident)
    then show "v = [] \<or> hd v \<noteq> CHR '' '' \<and> last v \<noteq> CHR '' ''" using l d [of v] d [of "rev v"] by (auto simp: hd_rev)
  next
    assume "v = [] \<or> hd v \<noteq> CHR '' '' \<and> last v \<noteq> CHR '' ''"
    then show "Trim v = v" using d [of v] d [of "rev v"] by (auto simp: Trim_def hd_rev)
  qed
qed

lemma value_ok_chained: "value_ok a \<Longrightarrow> value_ok b \<Longrightarrow> value_ok (chained a b)"
  by (auto simp: value_ok_def chained_def Trim_id_iff plain_def CR_def LF_def)

lemma value_ok_via_item: "value_ok g \<Longrightarrow> value_ok (via_item g)"
  by (auto simp: value_ok_def via_item_def Trim_id_iff plain_def CR_def LF_def)

lemma tolower_special: "tolower c = d \<Longrightarrow> (of_char d :: nat) < 65 \<Longrightarrow> c = d"
proof (cases "65 \<le> (of_char c :: nat) \<and> (of_char c :: nat) \<le> 90")
  case True
  assume a: "tolower c = d" "(of_char d :: nat) < 65"
  have "of_char (char_of (of_char c + 32 :: nat)) = (of_char c + 32 :: nat) mod 256" by simp
  then show ?thesis using True a by (auto simp: tolower_def)
qed (simp add: tolower_def)

lemma LowerCopy_special: "(of_char d :: nat) < 65 \<Longrightarrow> d \<in> set (LowerCopy k) \<Longrightarrow> d \<in> set k"
proof -
  assume d: "(of_char d :: nat) < 65" "d \<in> set (LowerCopy k)"
  then obtain c where c: "c \<in> set k" "tolower c = d" by (auto simp: LowerCopy_def)
  then show "d \<in> set k" using tolower_special [OF c(2) d(1)] by simp
qed

lemma name_ok_lower: "name_ok k \<Longrightarrow> name_ok (LowerCopy k)"
  using LowerCopy_special [of CR k] LowerCopy_special [of LF k] LowerCopy_special [of "CHR '':''" k]
  by (auto simp: name_ok_def plain_def CR_def LF_def) (simp add: LowerCopy_def)

definition own_table :: "string \<Rightarrow> string \<Rightarrow> string \<Rightarrow> string \<Rightarrow> ForwardedHeaderContext \<Rightarrow> HeaderMap" where
  "own_table xff via rid host f =
     [(''x-forwarded-for'', chained xff (fwd_client_ip f)), (''x-real-ip'', fwd_client_ip f),
      (''x-forwarded-proto'', fwd_scheme f), (''x-forwarded-host'', host),
      (''via'', chained via (via_item (fwd_gateway_name f))),
      (''x-request-id'', if rid \<noteq> [] then rid else fwd_request_id f)]"

lemma own_headers_table:
  "own_headers xff via rid host peer f =
     filter (\<lambda>h. snd h \<noteq> []) (own_table xff via rid host f) @ [(''host'', host_port peer), (''connection'', ''keep-alive'')]"
proof -
  have "opt_header n v @ filter (\<lambda>h. snd h \<noteq> []) t = filter (\<lambda>h. snd h \<noteq> []) ((n, v) # t)" for n v t
    by (simp add: opt_header_def)
  then show ?thesis unfolding own_headers_def own_table_def by (metis (no_types, lifting) append_assoc filter.simps(1) append_Nil2)
qed

definition context_ok :: "ForwardedHeaderContext \<Rightarrow> UpstreamPeer \<Rightarrow> bool" where
  "context_ok f peer \<longleftrightarrow>
     list_all value_ok [fwd_client_ip f, fwd_scheme f, fwd_gateway_name f, fwd_request_id f, host_port peer]"

lemma own_table_ok:
  assumes "context_ok f peer" "value_ok xff" "value_ok via" "value_ok rid" "value_ok host" "h \<in> set (own_headers xff via rid host peer f)"
  shows "value_ok (snd h)" "fst h \<in> set (''host'' # ''connection'' # gateway_names)"
proof -
  have "value_ok ''keep-alive''" by code_simp
  moreover have "h \<in> set (own_table xff via rid host f @ [(''host'', host_port peer), (''connection'', ''keep-alive'')])"
    using assms(6) by (auto simp: own_headers_table)
  ultimately show "value_ok (snd h)" "fst h \<in> set (''host'' # ''connection'' # gateway_names)"
    using assms(1-5) by (auto simp: own_table_def context_ok_def gateway_names_def value_ok_chained value_ok_via_item)
qed

lemma own_names_distinct: "distinct (map fst (own_headers xff via rid host peer f))"
proof -
  have t: "distinct (map fst (own_table xff via rid host f))"
    "set (map fst (own_table xff via rid host f)) \<inter> {''host'', ''connection''} = {}"
    by (simp_all add: own_table_def)
  have "set (map fst (filter (\<lambda>h. snd h \<noteq> []) (own_table xff via rid host f))) \<subseteq> set (map fst (own_table xff via rid host f))"
    by (simp add: image_mono)
  moreover have "distinct (map fst (filter (\<lambda>h. snd h \<noteq> []) (own_table xff via rid host f)))"
    by (rule distinct_map_filter [OF t(1)])
  ultimately show ?thesis
    unfolding own_headers_table map_append distinct_append using t(2) by (simp only: list.map set_simps distinct.simps fst_conv) blast
qed

lemma own_names_lower:
  assumes "k \<in> set (''host'' # ''connection'' # gateway_names)"
  shows "name_ok k \<and> LowerCopy k = k \<and> k \<noteq> ''transfer-encoding'' \<and> k \<noteq> ''content-length''"
proof -
  have "list_all (\<lambda>k. name_ok k \<and> LowerCopy k = k \<and> k \<noteq> ''transfer-encoding'' \<and> k \<noteq> ''content-length'')
      (''host'' # ''connection'' # gateway_names)" by code_simp
  then show ?thesis using assms unfolding list_all_iff by (rule bspec)
qed

text \<open>A request as the parser hands it over, and the limits the forwarded one has to keep.\<close>

definition parsed_from :: "message \<Rightarrow> HttpRequest \<Rightarrow> bool" where
  "parsed_from m r \<longleftrightarrow>
     message_wf m \<and> request_inv r \<and> rq_method r = msg_method m \<and> rq_path r = msg_path m \<and> rq_query r = msg_query m \<and>
     rq_headers r = map (\<lambda>h. (LowerCopy (fst h), snd h)) (msg_headers m) \<and> rq_body r = msg_body m"

lemma parsed_header:
  assumes p: "parsed_from m r" and h: "(k, v) \<in> set (rq_headers r)"
  shows "value_ok v" "name_ok k" "LowerCopy k = k" "k \<noteq> ''transfer-encoding''"
    "k = ''content-length'' \<Longrightarrow> v = to_string_nat (length (msg_body m))"
proof -
  obtain k0 where k0: "(k0, v) \<in> set (msg_headers m)" "k = LowerCopy k0" using p h by (auto simp: parsed_from_def)
  then have "header_wf (msg_body m) (k0, v)" using p by (auto simp: parsed_from_def message_wf_def)
  then show "value_ok v" "name_ok k" "LowerCopy k = k" "k \<noteq> ''transfer-encoding''"
    "k = ''content-length'' \<Longrightarrow> v = to_string_nat (length (msg_body m))"
    using k0(2) name_ok_lower by (auto simp: header_wf_def value_ok_def)
qed

lemma parsed_value: "parsed_from m r \<Longrightarrow> value_ok (or_empty (hmap r k))"
  using parsed_header(1) [of m r k] map_of_SomeD [of "rq_headers r" k]
  by (auto simp: or_empty_def hmap_def value_ok_def plain_def Trim_def split: option.splits)

definition fits :: "message \<Rightarrow> bool" where
  "fits m \<longleftrightarrow> length (request_line m) \<le> kMaxRequestLine \<and> length (msg_headers m) \<le> kMaxHeaderCount \<and>
     sum_list (map (length \<circ> header_text) (msg_headers m)) \<le> kMaxHeaderBytes \<and>
     list_all (\<lambda>h. length (header_text h) \<le> kMaxHeaderLine) (msg_headers m)"

definition forwarding ::
    "(HeaderMap \<Rightarrow> HeaderMap) \<Rightarrow> message \<Rightarrow> HttpRequest \<Rightarrow> UpstreamPeer \<Rightarrow> ForwardedHeaderContext \<Rightarrow> bool" where
  "forwarding enum m r peer f \<longleftrightarrow>
     mset (enum (rq_headers r)) = mset (rq_headers r) \<and> parsed_from m r \<and> context_ok f peer"

lemma forwardingD:
  assumes "forwarding enum m r peer f"
  shows fw_enum: "mset (enum (rq_headers r)) = mset (rq_headers r)" and fw_parsed: "parsed_from m r"
    and fw_ctx: "context_ok f peer" and fw_inv: "request_inv r" and fw_wf: "message_wf m"
  using assms unfolding forwarding_def parsed_from_def by blast+

lemma forwarded_split:
  assumes "forwarding enum m r peer f"
  obtains own where "forwarded_headers enum r peer f = kept (rq_connection r) (enum (rq_headers r)) @ own"
    "\<And>h. h \<in> set own \<Longrightarrow> value_ok (snd h) \<and> fst h \<in> set (''host'' # ''connection'' # gateway_names)"
    "distinct (map fst own)" "own = filter (\<lambda>h. snd h \<noteq> []) (butlast (butlast own)) @ [(''host'', host_port peer), (''connection'', ''keep-alive'')]"
    "\<And>v. (''x-real-ip'', v) \<in> set own \<longleftrightarrow> v \<noteq> [] \<and> v = fwd_client_ip f"
proof -
  let ?c = "rq_connection r" and ?hs = "enum (rq_headers r)"
  have par: "parsed_from m r" and ctx: "context_ok f peer" and e: "set ?hs = set (rq_headers r)"
    using assms by (auto simp: forwarding_def dest: mset_eq_setD)
  have lv: "value_ok (last_value ?c n ?hs [])" for n
    using last_value_cases [of ?c n ?hs "[]"] parsed_header(1) [OF par] e by (auto simp: value_ok_def plain_def Trim_def)
  have host: "value_ok (rq_host r)" using parsed_value [OF par, of "''host''"] par by (simp add: parsed_from_def request_inv_def)
  let ?own = "own_headers (last_value ?c ''x-forwarded-for'' ?hs []) (last_value ?c ''via'' ?hs [])
    (last_value ?c ''x-request-id'' ?hs []) (rq_host r) peer f"
  show thesis
  proof (rule that [of ?own])
    show "forwarded_headers enum r peer f = kept ?c ?hs @ ?own" by (simp add: forwarded_headers_def Let_def)
    show "value_ok (snd h) \<and> fst h \<in> set (''host'' # ''connection'' # gateway_names)" if "h \<in> set ?own" for h
      using own_table_ok [OF ctx lv lv lv host that] by blast
    show "distinct (map fst ?own)" by (rule own_names_distinct)
    show "?own = filter (\<lambda>h. snd h \<noteq> []) (butlast (butlast ?own)) @ [(''host'', host_port peer), (''connection'', ''keep-alive'')]"
      by (simp add: own_headers_table butlast_append)
    show "(''x-real-ip'', v) \<in> set ?own \<longleftrightarrow> v \<noteq> [] \<and> v = fwd_client_ip f" for v
      by (auto simp: own_headers_table own_table_def)
  qed
qed

lemma kept_member:
  assumes "forwarding enum m r peer f"
  shows "h \<in> set (kept c (enum (rq_headers r))) \<longleftrightarrow> h \<in> set (rq_headers r) \<and> passed c (fst h) \<and> fst h \<notin> set gateway_names"
  using assms by (auto simp: forwarding_def kept_def dest: mset_eq_setD)

lemma forwarded_ok:
  assumes fw: "forwarding enum m r peer f" and h: "h \<in> set (forwarded_headers enum r peer f)"
  shows "value_ok (snd h)" "name_ok (fst h)" "LowerCopy (fst h) = fst h" "fst h \<noteq> ''transfer-encoding''"
    "fst h = ''content-length'' \<Longrightarrow> snd h = to_string_nat (length (msg_body m)) \<and> passed (rq_connection r) ''content-length''"
proof -
  have par: "parsed_from m r" using fw by (simp add: forwarding_def)
  obtain own where own: "forwarded_headers enum r peer f = kept (rq_connection r) (enum (rq_headers r)) @ own"
      "\<And>h. h \<in> set own \<Longrightarrow> value_ok (snd h) \<and> fst h \<in> set (''host'' # ''connection'' # gateway_names)"
    by (rule forwarded_split [OF fw]) (rule that, assumption+)
  have "value_ok (snd h) \<and> name_ok (fst h) \<and> LowerCopy (fst h) = fst h \<and> fst h \<noteq> ''transfer-encoding'' \<and>
    (fst h = ''content-length'' \<longrightarrow> snd h = to_string_nat (length (msg_body m)) \<and> passed (rq_connection r) ''content-length'')"
  proof (cases "h \<in> set own")
    case True
    then show ?thesis using own(2) [OF True] own_names_lower [of "fst h"] by blast
  next
    case False
    then have "h \<in> set (rq_headers r)" "passed (rq_connection r) (fst h)" using h own(1) kept_member [OF fw] by auto
    moreover obtain k v where "h = (k, v)" by (cases h)
    ultimately show ?thesis using parsed_header [OF par, of k v] by auto
  qed
  then show "value_ok (snd h)" "name_ok (fst h)" "LowerCopy (fst h) = fst h" "fst h \<noteq> ''transfer-encoding''"
    "fst h = ''content-length'' \<Longrightarrow> snd h = to_string_nat (length (msg_body m)) \<and> passed (rq_connection r) ''content-length''"
    by auto
qed

lemma forwarded_distinct:
  assumes fw: "forwarding enum m r peer f"
  shows "distinct (map fst (forwarded_headers enum r peer f))"
proof -
  obtain own where own: "forwarded_headers enum r peer f = kept (rq_connection r) (enum (rq_headers r)) @ own"
      "\<And>h. h \<in> set own \<Longrightarrow> value_ok (snd h) \<and> fst h \<in> set (''host'' # ''connection'' # gateway_names)" "distinct (map fst own)"
    by (rule forwarded_split [OF fw]) (rule that, assumption+)
  have "mset (map fst (enum (rq_headers r))) = mset (map fst (rq_headers r))" using fw_enum [OF fw] by (simp only: mset_map)
  moreover have "distinct (map fst (rq_headers r))" using fw_inv [OF fw] unfolding request_inv_def by (rule conjunct1)
  ultimately have "distinct (map fst (enum (rq_headers r)))" using mset_eq_imp_distinct_iff by blast
  then have "distinct (map fst (kept (rq_connection r) (enum (rq_headers r))))" unfolding kept_def by (rule distinct_map_filter)
  moreover have "fst h \<notin> set (''host'' # ''connection'' # gateway_names)" if "h \<in> set (kept (rq_connection r) (enum (rq_headers r)))" for h
    using that unfolding kept_member [OF fw] by (auto simp: passed_def IsHopByHop_def)
  then have "set (map fst (kept (rq_connection r) (enum (rq_headers r)))) \<inter> set (map fst own) = {}"
    using own(2) by (smt (verit, best) disjoint_iff imageE list.set_map)
  ultimately show ?thesis unfolding own(1) map_append distinct_append using own(3) by blast
qed

lemma upstream_wf:
  assumes fw: "forwarding enum m r peer f" and fits: "fits (upstream_message enum r peer f)"
  defines "b \<equiv> if passed (rq_connection r) ''content-length'' then msg_body m else []"
  shows "message_wf ((upstream_message enum r peer f)\<lparr>msg_body := b\<rparr>)"
proof -
  let ?u = "upstream_message enum r peer f" and ?hs = "forwarded_headers enum r peer f"
  have par: "parsed_from m r" using fw by (simp add: forwarding_def)
  then have m: "message_wf m" by (simp add: parsed_from_def)
  have uri: "uri_text (?u\<lparr>msg_body := b\<rparr>) = (if msg_path m = [] then ''/'' @ uri_text m else uri_text m)"
    using par by (simp add: uri_text_def upstream_message_def parsed_from_def)
  have ok: "header_wf b h" if "h \<in> set ?hs" for h
    using forwarded_ok [OF fw that] fits that unfolding header_wf_def b_def
    by (auto simp: value_ok_def fits_def upstream_message_def list_all_iff)
  have low: "map (LowerCopy \<circ> fst) ?hs = map fst ?hs" using forwarded_ok(3) [OF fw] by simp
  have cl: "''content-length'' \<in> set (map fst ?hs)" if "b \<noteq> []"
  proof -
    have p: "passed (rq_connection r) ''content-length''" "msg_body m \<noteq> []" using that by (auto simp: b_def split: if_splits)
    then obtain v where "(''content-length'', v) \<in> set (rq_headers r)"
      using m par by (fastforce simp: message_wf_def parsed_from_def)
    moreover have "''content-length'' \<notin> set gateway_names" by (simp add: gateway_names_def)
    ultimately have "(''content-length'', v) \<in> set (kept (rq_connection r) (enum (rq_headers r)))"
      using p(1) unfolding kept_member [OF fw] by simp
    then show ?thesis by (force simp: forwarded_headers_def Let_def)
  qed
  have ne: "?hs \<noteq> []" by (simp add: forwarded_headers_def Let_def own_headers_def)
  have par': "rq_method r = msg_method m" "rq_path r = msg_path m" using par by (simp_all add: parsed_from_def)
  have m': "msg_method m \<noteq> Invalid" "plain (uri_text m)" "CHR '' '' \<notin> set (uri_text m)" "CHR ''?'' \<notin> set (msg_path m)"
    "length (msg_body m) \<le> kMaxBodyBytes" using m unfolding message_wf_def by blast+
  have fits': "length (request_line ?u) \<le> kMaxRequestLine" "length ?hs \<le> kMaxHeaderCount"
    "sum_list (map (length \<circ> header_text) ?hs) \<le> kMaxHeaderBytes" using fits by (simp_all add: fits_def upstream_message_def)
  have "request_line (?u\<lparr>msg_body := b\<rparr>) = request_line ?u" by (simp add: request_line_def uri_text_def)
  moreover have "plain (uri_text (?u\<lparr>msg_body := b\<rparr>)) \<and> CHR '' '' \<notin> set (uri_text (?u\<lparr>msg_body := b\<rparr>))"
    using m'(2,3) unfolding uri by (auto simp: plain_def CR_def LF_def)
  moreover have "CHR ''?'' \<notin> set (msg_path (?u\<lparr>msg_body := b\<rparr>))" using m'(4) by (simp add: upstream_message_def par')
  moreover have "msg_method (?u\<lparr>msg_body := b\<rparr>) = msg_method m" "msg_version (?u\<lparr>msg_body := b\<rparr>) = Http11"
    "msg_headers (?u\<lparr>msg_body := b\<rparr>) = ?hs" "msg_body (?u\<lparr>msg_body := b\<rparr>) = b" by (simp_all add: upstream_message_def par')
  moreover have "length b \<le> kMaxBodyBytes" using m'(5) by (simp add: b_def)
  moreover have "distinct (map (LowerCopy \<circ> fst) ?hs)" unfolding low by (rule forwarded_distinct [OF fw])
  moreover have "b \<noteq> [] \<Longrightarrow> ''content-length'' \<in> set (map (LowerCopy \<circ> fst) ?hs)" unfolding low by (rule cl)
  ultimately show ?thesis
    unfolding message_wf_def using m'(1) fits' ok ne by simp
qed

subsection \<open>Client to upstream\<close>

lemma upstream_reads:
  assumes fw: "forwarding enum m r peer f" and fits: "fits (upstream_message enum r peer f)"
  defines "b \<equiv> if passed (rq_connection r) ''content-length'' then msg_body m else []"
    and "rest \<equiv> if passed (rq_connection r) ''content-length'' then [] else msg_body m"
  shows "\<exists>q. Feed (BuildRequest enum r peer f @ t) new_HttpParser = (GotAll, q) \<and> pending q = rest @ t \<and>
    rq_method (request q) = msg_method m \<and> rq_path (request q) = (if msg_path m = [] then ''/'' else msg_path m) \<and>
    rq_query (request q) = msg_query m \<and> rq_headers (request q) = forwarded_headers enum r peer f \<and> rq_body (request q) = b"
proof -
  let ?u = "upstream_message enum r peer f"
  let ?v = "?u\<lparr>msg_body := b\<rparr>"
  have par: "rq_method r = msg_method m" "rq_path r = msg_path m" "rq_query r = msg_query m" "rq_body r = msg_body m"
    using fw_parsed [OF fw] by (simp_all add: parsed_from_def)
  have "message_text ?u = message_text ?v @ rest"
    by (simp add: message_text_def request_line_def uri_text_def b_def rest_def) (simp add: upstream_message_def par)
  then have built: "BuildRequest enum r peer f @ t = message_text ?v @ rest @ t" by (simp add: BuildRequest_text)
  have wf: "message_wf ?v" unfolding b_def by (rule upstream_wf [OF fw fits])
  have "map (\<lambda>h. (LowerCopy (fst h), snd h)) (forwarded_headers enum r peer f) = forwarded_headers enum r peer f"
    using forwarded_ok(3) [OF fw] by (simp add: map_idI)
  then show ?thesis
    unfolding built using parse_print [OF wf, of "rest @ t"] by (auto simp: upstream_message_def par)
qed

lemma forwarded_lookup:
  assumes fw: "forwarding enum m r peer f"
  defines "hm \<equiv> map_of (forwarded_headers enum r peer f)"
  shows "hm ''host'' = Some (host_port peer)" "hm ''connection'' = Some ''keep-alive''"
    "IsHopByHop k \<Longrightarrow> k \<noteq> ''connection'' \<Longrightarrow> hm k = None"
    "passed (rq_connection r) k \<Longrightarrow> k \<notin> set gateway_names \<Longrightarrow> hm k = hmap r k"
    "hm ''x-real-ip'' = (if fwd_client_ip f = [] then None else Some (fwd_client_ip f))"
    "NamedByConnection k (rq_connection r) \<Longrightarrow> k \<notin> set (''host'' # ''connection'' # gateway_names) \<Longrightarrow> hm k = None"
proof -
  obtain own where own: "forwarded_headers enum r peer f = kept (rq_connection r) (enum (rq_headers r)) @ own"
      "\<And>h. h \<in> set own \<Longrightarrow> value_ok (snd h) \<and> fst h \<in> set (''host'' # ''connection'' # gateway_names)"
      "distinct (map fst own)" "own = filter (\<lambda>h. snd h \<noteq> []) (butlast (butlast own)) @ [(''host'', host_port peer), (''connection'', ''keep-alive'')]"
      "\<And>v. (''x-real-ip'', v) \<in> set own \<longleftrightarrow> v \<noteq> [] \<and> v = fwd_client_ip f"
    by (rule forwarded_split [OF fw]) (rule that, assumption+)
  have mem: "hm k = Some v \<longleftrightarrow> (k, v) \<in> set (rq_headers r) \<and> passed (rq_connection r) k \<and> k \<notin> set gateway_names \<or> (k, v) \<in> set own" for k v
  proof -
    have "hm k = Some v \<longleftrightarrow> (k, v) \<in> set (forwarded_headers enum r peer f)"
      unfolding hm_def by (rule map_of_eq_Some_iff [OF forwarded_distinct [OF fw]])
    then show ?thesis unfolding own(1) using kept_member [OF fw, of "(k, v)" "rq_connection r"] by auto
  qed
  have d: "distinct (map fst (rq_headers r))" using fw_inv [OF fw] unfolding request_inv_def by (rule conjunct1)
  have "(''host'', host_port peer) \<in> set own" "(''connection'', ''keep-alive'') \<in> set own" by (subst own(4), simp)+
  then show "hm ''host'' = Some (host_port peer)" "hm ''connection'' = Some ''keep-alive''" using mem by blast+
  have names: "k \<in> set (''host'' # ''connection'' # gateway_names)" if "(k, v) \<in> set own" for k v using own(2) [OF that] by simp
  have hop: "k \<notin> set (''host'' # ''connection'' # gateway_names)" if "IsHopByHop k" "k \<noteq> ''connection''" for k
    using that by (auto simp: IsHopByHop_def gateway_names_def)
  show "hm k = None" if "IsHopByHop k" "k \<noteq> ''connection''"
    using mem [of k] hop [OF that] names [of k] that(1) by (cases "hm k") (auto simp: passed_def simp del: set_simps)
  show "hm k = None" if "NamedByConnection k (rq_connection r)" "k \<notin> set (''host'' # ''connection'' # gateway_names)"
    using mem [of k] names [of k] that by (cases "hm k") (auto simp: passed_def simp del: set_simps)
  show "hm k = hmap r k" if "passed (rq_connection r) k" "k \<notin> set gateway_names"
  proof -
    have "(k, v) \<notin> set own" for v using names [of k v] that by (auto simp: passed_def IsHopByHop_def)
    then have "hm k = Some v \<longleftrightarrow> hmap r k = Some v" for v
      unfolding mem hmap_def map_of_eq_Some_iff [OF d] using that by blast
    then show ?thesis by (metis not_Some_eq)
  qed
  have "hm ''x-real-ip'' = Some v \<longleftrightarrow> v \<noteq> [] \<and> v = fwd_client_ip f" for v
    unfolding mem own(5) by (simp add: gateway_names_def)
  then show "hm ''x-real-ip'' = (if fwd_client_ip f = [] then None else Some (fwd_client_ip f))"
    by (metis not_Some_eq)
qed

lemma accepted_forwarding:
  assumes "message_wf m" "Feed (message_text m @ s) new_HttpParser = (GotAll, p)" "\<And>hs. mset (enum hs) = mset hs" "context_ok f peer"
  shows "forwarding enum m (request p) peer f"
  using parse_print [OF assms(1), of s] assms by (auto simp: forwarding_def parsed_from_def)

text \<open>
  (C10) What the upstream reads is what the client sent.  Let the gateway accept a well-formed
  request and forward it, the client not naming \<open>content-length\<close> in its \<open>Connection\<close> header and the
  forwarded head keeping the parser's limits.  Then the same parser, reading the forwarded
  bytes, finds one request with the client's method, target and body, and nothing of it is left
  over.  It is addressed to the peer and asks for a persistent connection.  It carries no other
  hop-by-hop header and none that the client's \<open>Connection\<close> header names, apart from the headers
  the gateway writes itself; every other header is passed on unchanged.  Its \<open>X-Real-IP\<close> is the
  address of the connection, whatever the client claimed (the client's own \<open>X-Forwarded-For\<close> is kept
  and extended).
\<close>

theorem proxied_request_roundtrip:
  assumes "message_wf m" "Feed (message_text m @ s) new_HttpParser = (GotAll, p)" "\<And>hs. mset (enum hs) = mset hs" "context_ok f peer"
    and "fits (upstream_message enum (request p) peer f)"
    and "\<not> NamedByConnection ''content-length'' (rq_connection (request p))"
  shows "\<exists>q. Feed (BuildRequest enum (request p) peer f @ t) new_HttpParser = (GotAll, q) \<and> pending q = t \<and>
    rq_method (request q) = msg_method m \<and> rq_path (request q) = (if msg_path m = [] then ''/'' else msg_path m) \<and>
    rq_query (request q) = msg_query m \<and> rq_body (request q) = msg_body m \<and>
    hmap (request q) ''host'' = Some (host_port peer) \<and> hmap (request q) ''connection'' = Some ''keep-alive'' \<and>
    (\<forall>k. IsHopByHop k \<and> k \<noteq> ''connection'' \<longrightarrow> hmap (request q) k = None) \<and>
    (\<forall>k. passed (rq_connection (request p)) k \<and> k \<notin> set gateway_names \<longrightarrow> hmap (request q) k = hmap (request p) k) \<and>
    (\<forall>k. NamedByConnection k (rq_connection (request p)) \<and> k \<notin> set (''host'' # ''connection'' # gateway_names)
      \<longrightarrow> hmap (request q) k = None) \<and>
    hmap (request q) ''x-real-ip'' = (if fwd_client_ip f = [] then None else Some (fwd_client_ip f))"
proof -
  note fw = accepted_forwarding [OF assms(1-4)]
  have "passed (rq_connection (request p)) ''content-length''" using assms(6) by (simp add: passed_def IsHopByHop_def)
  then obtain q where q: "Feed (BuildRequest enum (request p) peer f @ t) new_HttpParser = (GotAll, q)" "pending q = t"
      "rq_method (request q) = msg_method m" "rq_path (request q) = (if msg_path m = [] then ''/'' else msg_path m)"
      "rq_query (request q) = msg_query m" "rq_headers (request q) = forwarded_headers enum (request p) peer f"
      "rq_body (request q) = msg_body m"
    using upstream_reads [OF fw assms(5), of t] by auto
  then show ?thesis using forwarded_lookup [OF fw] by (intro exI [of _ q]) (auto simp: hmap_def)
qed

definition demo_proxy_message :: "string \<Rightarrow> message" where
  "demo_proxy_message connection =
     \<lparr>msg_method = Post, msg_version = Http11, msg_path = ''/a'', msg_query = [],
      msg_headers = [(''Connection'', connection), (''Content-Length'', ''4'')], msg_body = ''EVIL''\<rparr>"

definition demo_forward :: ForwardedHeaderContext where
  "demo_forward = \<lparr>fwd_client_ip = ''1.2'', fwd_scheme = ''http'', fwd_gateway_name = ''g'', fwd_request_id = ''r''\<rparr>"

definition demo_backend :: UpstreamPeer where
  "demo_backend = demo_peer\<lparr>host_port := ''127.0.0.1:9001''\<rparr>"

definition demo_accepted :: "string \<Rightarrow> HttpParser" where
  "demo_accepted connection = snd (Feed (message_text (demo_proxy_message connection)) new_HttpParser)"

lemma demo_wf:
  "plain c \<Longrightarrow> Trim c = c \<Longrightarrow> length c < 100 \<Longrightarrow> message_wf (demo_proxy_message c)"
proof -
  have "LowerCopy ''Connection'' = ''connection''" "LowerCopy ''Content-Length'' = ''content-length''" "to_string_nat (Suc (Suc (Suc (Suc 0)))) = ''4''"
    by code_simp+
  then show "plain c \<Longrightarrow> Trim c = c \<Longrightarrow> length c < 100 \<Longrightarrow> message_wf (demo_proxy_message c)"
    by (auto simp: message_wf_def demo_proxy_message_def header_wf_def uri_text_def request_line_def version_text_def header_text_def
        name_ok_def plain_def CR_def LF_def Trim_def kMaxRequestLine_def kMaxHeaderCount_def kMaxHeaderBytes_def
        kMaxHeaderLine_def kMaxBodyBytes_def)
qed

lemma demo_proxy_ok:
  "message_wf (demo_proxy_message ''close'')" "message_wf (demo_proxy_message ''Content-Length'')" "context_ok demo_forward demo_backend"
proof -
  show "message_wf (demo_proxy_message ''close'')" "message_wf (demo_proxy_message ''Content-Length'')"
    by (rule demo_wf; simp add: plain_def Trim_def CR_def LF_def)+
  show "context_ok demo_forward demo_backend"
    by (simp add: context_ok_def value_ok_def demo_forward_def demo_backend_def plain_def Trim_def CR_def LF_def)
qed

lemma demo_accepts:
  "Feed (message_text (demo_proxy_message ''close'') @ []) new_HttpParser = (GotAll, demo_accepted ''close'')"
  "Feed (message_text (demo_proxy_message ''Content-Length'') @ []) new_HttpParser = (GotAll, demo_accepted ''Content-Length'')"
  using parse_print [OF demo_proxy_ok(1), of "[]"] parse_print [OF demo_proxy_ok(2), of "[]"] by (auto simp: demo_accepted_def)

lemma demo_request:
  assumes "message_wf (demo_proxy_message c)"
  defines "r \<equiv> request (demo_accepted c)"
  shows "rq_method r = Post" "rq_path r = ''/a''" "rq_query r = []" "rq_body r = ''EVIL''" "rq_host r = []" "rq_connection r = c"
    "rq_headers r = [(''connection'', c), (''content-length'', ''4'')]"
proof -
  have l: "LowerCopy ''Connection'' = ''connection''" "LowerCopy ''Content-Length'' = ''content-length''" by code_simp+
  obtain p where p: "Feed (message_text (demo_proxy_message c) @ []) new_HttpParser = (GotAll, p)"
      "rq_method (request p) = Post" "rq_path (request p) = ''/a''" "rq_query (request p) = []" "rq_body (request p) = ''EVIL''"
      "rq_headers (request p) = [(''connection'', c), (''content-length'', ''4'')]" "request_inv (request p)"
    using parse_print [OF assms(1), of "[]"] l by (auto simp: demo_proxy_message_def)
  moreover have "r = request p" using p(1) by (simp add: r_def demo_accepted_def)
  ultimately show "rq_method r = Post" "rq_path r = ''/a''" "rq_query r = []" "rq_body r = ''EVIL''" "rq_host r = []" "rq_connection r = c"
    "rq_headers r = [(''connection'', c), (''content-length'', ''4'')]"
    by (simp_all add: request_inv_def hmap_def or_empty_def)
qed

lemma demo_named:
  "\<not> NamedByConnection ''content-length'' (rq_connection (request (demo_accepted ''close'')))"
  "NamedByConnection ''content-length'' (rq_connection (request (demo_accepted ''Content-Length'')))"
  unfolding demo_request(6) [OF demo_proxy_ok(1)] demo_request(6) [OF demo_proxy_ok(2)] by code_simp+

lemma demo_fits:
  "fits (upstream_message id (request (demo_accepted ''close'')) demo_backend demo_forward)"
  "fits (upstream_message id (request (demo_accepted ''Content-Length'')) demo_backend demo_forward)"
proof -
  have hp: "host_port demo_backend = ''127.0.0.1:9001''" by (simp add: demo_backend_def)
  have "fits (upstream_message id (request (demo_accepted c)) demo_backend demo_forward)" if "message_wf (demo_proxy_message c)" for c
    by (auto simp: fits_def upstream_message_def demo_request [OF that] forwarded_headers_def kept_def own_headers_def opt_header_def
        request_line_def uri_text_def version_text_def demo_forward_def header_text_def chained_def via_item_def passed_def
        IsHopByHop_def gateway_names_def hp kMaxRequestLine_def kMaxHeaderCount_def kMaxHeaderBytes_def kMaxHeaderLine_def Let_def)
  then show "fits (upstream_message id (request (demo_accepted ''close'')) demo_backend demo_forward)"
    "fits (upstream_message id (request (demo_accepted ''Content-Length'')) demo_backend demo_forward)"
    using demo_proxy_ok by blast+
qed

theorem proxied_request_roundtrip_witness:
  "\<exists>q. Feed (BuildRequest id (request (demo_accepted ''close'')) demo_backend demo_forward @ ''next'') new_HttpParser = (GotAll, q) \<and>
     pending q = ''next'' \<and> rq_body (request q) = ''EVIL'' \<and> hmap (request q) ''x-real-ip'' = Some ''1.2''"
  using proxied_request_roundtrip [OF demo_proxy_ok(1) demo_accepts(1) _ demo_proxy_ok(3) demo_fits(1) demo_named(1), of "''next''"]
  by (auto simp: demo_proxy_message_def demo_forward_def)

text \<open>
  (C11) A client can detach its body.  If the client names \<open>content-length\<close> in its \<open>Connection\<close>
  header, the gateway removes the \<open>Content-Length\<close> header and still sends the body, so that
  the upstream reads a request without a body and takes the client's body for the start of the
  next request on that connection.
\<close>

theorem connection_strips_framing:
  assumes "message_wf m" "Feed (message_text m @ s) new_HttpParser = (GotAll, p)" "\<And>hs. mset (enum hs) = mset hs" "context_ok f peer"
    and "fits (upstream_message enum (request p) peer f)"
    and "NamedByConnection ''content-length'' (rq_connection (request p))"
  shows "\<exists>q. Feed (BuildRequest enum (request p) peer f @ t) new_HttpParser = (GotAll, q) \<and>
    rq_method (request q) = msg_method m \<and> rq_body (request q) = [] \<and> pending q = msg_body m @ t"
proof -
  have "\<not> passed (rq_connection (request p)) ''content-length''" using assms(6) by (simp add: passed_def)
  then show ?thesis using upstream_reads [OF accepted_forwarding [OF assms(1-4)] assms(5), of t] by auto
qed

theorem connection_strips_framing_witness:
  "\<exists>q. Feed (BuildRequest id (request (demo_accepted ''Content-Length'')) demo_backend demo_forward) new_HttpParser = (GotAll, q) \<and>
     rq_body (request q) = [] \<and> pending q = ''EVIL''"
  using connection_strips_framing [OF demo_proxy_ok(2) demo_accepts(2) _ demo_proxy_ok(3) demo_fits(2) demo_named(2), of "[]"]
  by (auto simp: demo_proxy_message_def)

end
