(* ===== verification/Streams.thy ===== *)
theory Streams
  imports Buffer
begin

text \<open>
  The algorithms on byte streams of \<open>stream_algorithms.h\<close>.  A stream is what the concept
  \<open>AsyncStream\<close> asks for, driven by scripts: what each \<open>WriteSome\<close> and \<open>ReadSome\<close> does is read off a
  list, so that the lemmas hold for every behaviour of the connection.  A write takes some of
  the bytes or fails, a read delivers bytes, none at the end of the stream, or fails.
\<close>

record 'b stream =
  sent :: "'b list"
  writes :: "nat option list"
  reads :: "'b list option list"
  shut_down :: bool

definition WriteSome :: "'b list \<Rightarrow> 'b stream \<Rightarrow> nat option \<times> 'b stream" where
  "WriteSome bytes s =
     (case writes s of
        [] \<Rightarrow> (Some (length bytes), s\<lparr>sent := sent s @ bytes\<rparr>)
      | None # ws \<Rightarrow> (None, s\<lparr>writes := ws\<rparr>)
      | Some k # ws \<Rightarrow>
          let n = min k (length bytes) in (Some n, s\<lparr>writes := ws, sent := sent s @ take n bytes\<rparr>))"

definition ReadSome :: "nat \<Rightarrow> 'b stream \<Rightarrow> 'b list option \<times> 'b stream" where
  "ReadSome cap s =
     (case reads s of
        [] \<Rightarrow> (Some [], s)
      | None # rs \<Rightarrow> (None, s\<lparr>reads := rs\<rparr>)
      | Some bytes # rs \<Rightarrow>
          (Some (take cap bytes), s\<lparr>reads := (if cap < length bytes then Some (drop cap bytes) # rs else rs)\<rparr>))"

definition Shutdown :: "'b stream \<Rightarrow> 'b stream" where "Shutdown s = s\<lparr>shut_down := True\<rparr>"

text \<open>The result is whether all bytes were written.\<close>

function WriteAll :: "'b list \<Rightarrow> 'b stream \<Rightarrow> bool \<times> 'b stream" where
  "WriteAll buffer s =
     (if buffer = [] then (True, s)
      else case WriteSome buffer s of
        (None, s') \<Rightarrow> (False, s')
      | (Some result, s') \<Rightarrow> if result = 0 then (False, s') else WriteAll (drop result buffer) s')"
  by pat_completeness auto
termination
  by (relation "measure (\<lambda>(buffer, s). length buffer)") auto

declare WriteAll.simps [simp del]

definition EchoOnce :: "nat \<Rightarrow> 'b stream \<Rightarrow> bool \<times> 'b stream" where
  "EchoOnce cap s =
     (case ReadSome cap s of
        (None, s') \<Rightarrow> (False, s')
      | (Some bytes, s') \<Rightarrow> if bytes = [] then (True, s') else WriteAll bytes s')"

text \<open>Reading into a buffer: the bytes of the one area reserved, none when nothing could be reserved.\<close>

definition ReadSome_buffer :: "nat \<Rightarrow> u8 stream \<Rightarrow> Buffer \<Rightarrow> (nat option \<times> u8 stream \<times> Buffer) option" where
  "ReadSome_buffer reserve s b =
     (case PrepareWrite reserve 1 b of
        None \<Rightarrow> None
      | Some ([], b1) \<Rightarrow> Some (None, s, b1)
      | Some (v # vs, b1) \<Rightarrow>
          (case ReadSome (iov_len v) s of
             (None, s') \<Rightarrow> Some (None, s', AbortWrite b1)
           | (Some bytes, s') \<Rightarrow>
               map_option (\<lambda>b2. (Some (length bytes), s', b2)) (CommitWrite (length bytes) (scatter [v] bytes b1))))"

text \<open>Writing a buffer out: contiguous view by contiguous view.\<close>

partial_function (option) WriteAll_buffer :: "u8 stream \<Rightarrow> Buffer \<Rightarrow> (bool \<times> u8 stream \<times> Buffer) option" where
  "WriteAll_buffer s b =
     (if Buffer_Empty b then Some (True, s, b)
      else let view = ContiguousView b; (ok, s') = WriteAll (map the view) s in
        if \<not> ok then Some (False, s', b)
        else case Drain (length view) b of None \<Rightarrow> None | Some b' \<Rightarrow> WriteAll_buffer s' b')"

section \<open>Complete or a start\<close>

lemma WriteSome_sent:
  "WriteSome bytes s = (r, s') \<Longrightarrow> sent s' = sent s @ take (case r of None \<Rightarrow> 0 | Some n \<Rightarrow> n) bytes \<and> reads s' = reads s \<and>
     shut_down s' = shut_down s \<and> (\<forall>n. r = Some n \<longrightarrow> n \<le> length bytes)"
  by (auto simp: WriteSome_def Let_def split: list.splits option.splits)

lemma WriteAll_sent:
  "WriteAll bytes s = (ok, s') \<Longrightarrow> \<exists>n. sent s' = sent s @ take n bytes \<and> (ok \<longrightarrow> n = length bytes) \<and>
     (\<not> ok \<longrightarrow> n < length bytes) \<and> reads s' = reads s \<and> shut_down s' = shut_down s"
proof (induction bytes s rule: WriteAll.induct)
  case (1 bytes s)
  show ?case
  proof (cases "bytes = []")
    case True
    then show ?thesis using 1(2) by (simp add: WriteAll.simps)
  next
    case False
    obtain r s1 where w: "WriteSome bytes s = (r, s1)" by fastforce
    note ws = WriteSome_sent [OF w]
    show ?thesis
    proof (cases "r = None \<or> r = Some 0")
      case True
      then show ?thesis using 1(2) False w ws by (intro exI [of _ 0]) (auto simp: WriteAll.simps [of bytes s])
    next
      case nz: False
      then obtain k where k: "r = Some k" "k \<noteq> 0" by auto
      then have "WriteAll (drop k bytes) s1 = (ok, s')" using 1(2) False w by (simp add: WriteAll.simps [of bytes s])
      then obtain n where n: "sent s' = sent s1 @ take n (drop k bytes)" "ok \<longrightarrow> n = length (drop k bytes)"
          "\<not> ok \<longrightarrow> n < length (drop k bytes)" "reads s' = reads s1" "shut_down s' = shut_down s1"
        using 1(1) [OF False w [symmetric] k(1) k(2)] by auto
      have "sent s' = sent s @ take (k + n) bytes" using n(1) ws k by (simp add: take_add)
      then show ?thesis using n ws k by (intro exI [of _ "k + n"]) auto
    qed
  qed
qed

lemma WriteAll_willing: "writes s = [] \<Longrightarrow> WriteAll bytes s = (True, s\<lparr>sent := sent s @ bytes\<rparr>)"
  by (cases "bytes = []") (simp_all add: WriteAll.simps WriteSome_def)

text \<open>
  Writing a buffer out ends.  If it succeeds the buffer is empty and its bytes were
  sent, otherwise the bytes sent are a start of them.
\<close>

lemma WriteAll_buffer_sent:
  "represents b q \<Longrightarrow> \<exists>ok s' b'. WriteAll_buffer s b = Some (ok, s', b') \<and> (ok \<longrightarrow> Buffer_Empty b' \<and> sent s' = sent s @ q) \<and>
     (\<exists>n. sent s' = sent s @ take n q)"
proof (induction "length q" arbitrary: s b q rule: less_induct)
  case less
  have len: "readable_bytes b = length q" using less(2) by (simp add: represents_def)
  show ?case
  proof (cases "q = []")
    case True
    then show ?thesis using len by (subst WriteAll_buffer.simps) (auto simp: Buffer_Empty_def)
  next
    case False
    define n where "n = length (ContiguousView b)"
    have view: "ContiguousView b = map Some (take n q)" and pos: "0 < n"
      using ContiguousView_front [OF less(2)] False by (simp_all add: n_def)
    have bytes: "map the (ContiguousView b) = take n q" by (simp add: view comp_def)
    have nl: "n \<le> length q" using arg_cong [OF view, of length] by (simp add: n_def)
    obtain ok s1 where w: "WriteAll (take n q) s = (ok, s1)" by fastforce
    obtain k where k: "sent s1 = sent s @ take k (take n q)" "ok \<longrightarrow> k = length (take n q)"
      using WriteAll_sent [OF w] by blast
    have step: "WriteAll_buffer s b = (if \<not> ok then Some (False, s1, b)
        else case Drain n b of None \<Rightarrow> None | Some b' \<Rightarrow> WriteAll_buffer s1 b')"
      using False len by (subst WriteAll_buffer.simps) (simp add: Buffer_Empty_def Let_def bytes w n_def [symmetric])
    show ?thesis
    proof (cases ok)
      case True
      obtain b1 where b1: "Drain n b = Some b1" "represents b1 (drop n q)" using Drain_represents [OF less(2)] by blast
      have "length (drop n q) < length q" using pos False by simp
      from less(1) [OF this b1(2), of s1] obtain ok' s' b' m where r: "WriteAll_buffer s1 b1 = Some (ok', s', b')"
          "ok' \<longrightarrow> Buffer_Empty b' \<and> sent s' = sent s1 @ drop n q" "sent s' = sent s1 @ take m (drop n q)" by blast
      have s1: "sent s1 = sent s @ take n q" using k True nl by simp
      have "sent s' = sent s @ take (n + m) q" using r(3) s1 by (simp add: take_add)
      moreover have "ok' \<longrightarrow> Buffer_Empty b' \<and> sent s' = sent s @ q" using r(2) s1 by simp
      ultimately show ?thesis using step True b1(1) r(1) by auto
    next
      case False
      then show ?thesis using step k(1) by auto
    qed
  qed
qed

end
