(* ===== verification/ProxyForward.thy ===== *)
theory ProxyForward
  imports ProxyRewrite ConnPool Streams
begin

text \<open>
  Forwarding of one request, from \<open>proxy_pass.h\<close>: the choice of a peer, the connection from
  the pool or a new one, the request written to it, the response relayed to the client, and the
  retries on another peer.  A coroutine runs to its end without other calls in between; the
  streams are those of \<open>Streams\<close>.  The clocks, the random draws of the strategies and the
  outcome of \<open>Connect\<close> are functions of a counter of such readings, \<open>w_tick\<close>.  A peer is its index
  in the group, \<open>address\<close> the pointer to it by which the pool knows it.  The circuit breaker passed in is that of the group, or none.

  Shown: however the connections behave, every slot and counter taken is given back and the
  breaker hears of the request exactly once; a request that may not be repeated is written to
  one connection at most.
\<close>

section \<open>State\<close>

datatype ProxyForwardStatus = kCompleted | kNoPeer | kClientClosed | kUpstreamFailed

record ProxyForwardResult =
  pf_status :: ProxyForwardStatus
  started :: bool

record forward_env =
  now_ms :: "nat \<Rightarrow> u64"
  now_ns :: "nat \<Rightarrow> int"
  draws :: "nat \<Rightarrow> lb_env"
  connect :: "nat \<Rightarrow> string \<Rightarrow> u16 \<Rightarrow> char stream option"
  header_order :: "HeaderMap \<Rightarrow> HeaderMap"
  address :: "nat \<Rightarrow> nat"

record world =
  w_upstream :: Upstream
  w_lb :: LoadBalancer
  w_pool :: "char stream UpstreamStreamPool"
  w_client :: "char stream"
  w_tick :: nat
  w_wire :: "(nat \<times> string) list"

text \<open>The arguments of one call.\<close>

record call =
  c_request :: HttpRequest
  c_ctx :: RequestContext
  c_use_cb :: bool
  c_forwarded :: ForwardedHeaderContext

definition on_peer :: "nat \<Rightarrow> (UpstreamPeer \<Rightarrow> UpstreamPeer) \<Rightarrow> world \<Rightarrow> world" where
  "on_peer i g w = w\<lparr>w_upstream := (w_upstream w)\<lparr>peers := (peers (w_upstream w))[i := g (peers (w_upstream w) ! i)]\<rparr>\<rparr>"

definition peer_failed :: "forward_env \<Rightarrow> nat \<Rightarrow> world \<Rightarrow> world" where
  "peer_failed env i w = on_peer i (peer_OnFailure (now_ms env (w_tick w))) (w\<lparr>w_tick := w_tick w + 1\<rparr>)"

definition cb_failed :: "forward_env \<Rightarrow> bool \<Rightarrow> world \<Rightarrow> world" where
  "cb_failed env use_cb w =
     (if use_cb then
        w\<lparr>w_upstream := (w_upstream w)\<lparr>upstream_cb := map_option (OnFailure (now_ms env (w_tick w))) (upstream_cb (w_upstream w))\<rparr>,
          w_tick := w_tick w + 1\<rparr>
      else w)"

definition cb_succeeded :: "bool \<Rightarrow> world \<Rightarrow> world" where
  "cb_succeeded use_cb w =
     (if use_cb then
        w\<lparr>w_upstream := (w_upstream w)\<lparr>upstream_cb := map_option OnSuccess (upstream_cb (w_upstream w))\<rparr>\<rparr>
      else w)"

definition take_peer :: "nat \<Rightarrow> world \<Rightarrow> world" where
  "take_peer i w = on_peer i (\<lambda>p. p\<lparr>active := active p + 1, requests := requests p + 1\<rparr>) w"

definition release_peer :: "nat \<Rightarrow> world \<Rightarrow> world" where
  "release_peer i w = on_peer i (\<lambda>p. p\<lparr>active := active p - 1\<rparr>) w"

definition release_upstream :: "world \<Rightarrow> world" where
  "release_upstream w = w\<lparr>w_upstream := ReleaseRequestSlot (w_upstream w)\<rparr>"

definition write_client :: "string \<Rightarrow> world \<Rightarrow> bool \<times> world" where
  "write_client bytes w = (let (ok, c) = WriteAll bytes (w_client w) in (ok, w\<lparr>w_client := c\<rparr>))"

definition kResp :: string where
  "kResp = ''HTTP/1.1 502 Bad Gateway'' @ crlf @ ''Content-Type: text/plain'' @ crlf @ ''Content-Length: 11'' @ crlf @
     ''Connection: close'' @ crlf @ crlf @ ''Bad Gateway''"

definition Send502 :: "world \<Rightarrow> world" where
  "Send502 w = (let w1 = snd (write_client kResp w) in w1\<lparr>w_client := Shutdown (w_client w1)\<rparr>)"

section \<open>Relaying the response\<close>

text \<open>
  The loop that relays the rest of the body.  The result is whether the connection may be used
  again, \<open>None\<close> after an error.
\<close>

fun relay_body ::
    "ResponseState \<Rightarrow> string option list \<Rightarrow> world \<Rightarrow> bool option \<times> string option list \<times> world" where
  "relay_body st [] w = (Some False, [], w)"
| "relay_body st (None # rs) w = (None, rs, w)"
| "relay_body st (Some chunk # rs) w =
     (if chunk = [] then (Some False, rs, w)
      else if framing st = kContentLength then
        let n = min (length chunk) (body_remaining st);
            (ok, w1) = write_client (take n chunk) w;
            st1 = st\<lparr>body_remaining := body_remaining st - n\<rparr>
        in if \<not> ok then (None, rs, w1)
           else if body_remaining st1 = 0 then (Some (upstream_keepalive st1), rs, w1)
           else relay_body st1 rs w1
      else
        let (ok, w1) = write_client chunk w
        in if \<not> ok then (None, rs, w1) else relay_body st rs w1)"

definition report_head :: "forward_env \<Rightarrow> bool \<Rightarrow> nat \<Rightarrow> int \<Rightarrow> bool \<Rightarrow> world \<Rightarrow> bool \<times> world" where
  "report_head env use_cb i code cb_reported w =
     (if \<not> cb_reported then
        (True, if 500 \<le> code then cb_failed env use_cb w else cb_succeeded use_cb (on_peer i peer_OnSuccess w))
      else (cb_reported, w))"

text \<open>The head is complete in \<open>buffered\<close>.\<close>

definition relay_head ::
    "forward_env \<Rightarrow> bool \<Rightarrow> nat \<Rightarrow> Method \<Rightarrow> string \<Rightarrow> nat \<Rightarrow> bool \<Rightarrow> string option list \<Rightarrow> world
     \<Rightarrow> bool option \<times> bool \<times> string option list \<times> world" where
  "relay_head env use_cb i meth buffered header_end cb_reported rs w =
     (let raw_size = header_end + 4;
          body_available = length buffered - raw_size;
          (outbound0, st) = RewriteHeaders (take raw_size buffered) meth;
          (reported, w1) = report_head env use_cb i (status st) cb_reported w;
          n = (if framing st = kContentLength then min body_available (body_remaining st) else body_available);
          outbound = outbound0 @ take n (drop raw_size buffered);
          st1 = (if framing st = kContentLength then st\<lparr>body_remaining := body_remaining st - n\<rparr> else st);
          (ok, w2) = (if outbound \<noteq> [] then write_client outbound w1 else (True, w1))
      in if \<not> ok then (None, reported, rs, w2)
         else if framing st1 = kNoBody \<or> framing st1 = kContentLength \<and> body_remaining st1 = 0
         then (Some (upstream_keepalive st1), reported, rs, w2)
         else let (r, rs', w3) = relay_body st1 rs w2 in (r, reported, rs', w3))"

fun relay_loop ::
    "forward_env \<Rightarrow> bool \<Rightarrow> nat \<Rightarrow> Method \<Rightarrow> string \<Rightarrow> bool \<Rightarrow> string option list \<Rightarrow> world
     \<Rightarrow> bool option \<times> bool \<times> string option list \<times> world" where
  "relay_loop env use_cb i meth buffered cb_reported [] w =
     (case find_from (crlf @ crlf) buffered 0 of
        Some header_end \<Rightarrow> relay_head env use_cb i meth buffered header_end cb_reported [] w
      | None \<Rightarrow> (None, cb_reported, [], w))"
| "relay_loop env use_cb i meth buffered cb_reported (x # rs) w =
     (case find_from (crlf @ crlf) buffered 0 of
        Some header_end \<Rightarrow> relay_head env use_cb i meth buffered header_end cb_reported (x # rs) w
      | None \<Rightarrow>
          (case x of
             None \<Rightarrow> (None, cb_reported, rs, w)
           | Some bytes \<Rightarrow>
               if bytes = [] then (None, cb_reported, rs, w)
               else relay_loop env use_cb i meth (buffered @ bytes) cb_reported rs w))"

definition RelayResponse ::
    "forward_env \<Rightarrow> bool \<Rightarrow> nat \<Rightarrow> Method \<Rightarrow> bool \<Rightarrow> char stream \<Rightarrow> world \<Rightarrow> bool option \<times> bool \<times> char stream \<times> world" where
  "RelayResponse env use_cb i meth cb_reported s w =
     (let (r, reported, rs, w') = relay_loop env use_cb i meth [] cb_reported (reads s) w
      in (r, reported, s\<lparr>reads := rs\<rparr>, w'))"

section \<open>Forwarding\<close>

definition SelectFailoverPeer :: "u64 \<Rightarrow> UpstreamPeer list \<Rightarrow> nat \<Rightarrow> nat option" where
  "SelectFailoverPeer now ps current = find (\<lambda>j. j \<noteq> current \<and> AvailableAt now (ps ! j)) [0..<length ps]"

definition lb_select :: "forward_env \<Rightarrow> call \<Rightarrow> world \<Rightarrow> nat option \<times> world" where
  "lb_select env c w =
     (let (sel, lb) = Select (draws env (w_tick w)) (now_ms env (w_tick w)) (peers (w_upstream w)) (c_ctx c) (w_lb w)
      in (sel, w\<lparr>w_lb := lb, w_tick := w_tick w + 1\<rparr>))"

text \<open>The next peer to try in place of \<open>i\<close>, already taken in its place.\<close>

definition next_peer :: "forward_env \<Rightarrow> call \<Rightarrow> nat \<Rightarrow> world \<Rightarrow> nat option \<times> world" where
  "next_peer env c i w =
     (let (sel, w1) = lb_select env c w;
          (nxt, w2) = (if sel = None \<or> sel = Some i
                       then (SelectFailoverPeer (now_ms env (w_tick w1)) (peers (w_upstream w1)) i, w1\<lparr>w_tick := w_tick w1 + 1\<rparr>)
                       else (sel, w1))
      in case nxt of
           None \<Rightarrow> (None, w2)
         | Some j \<Rightarrow> if j \<noteq> i then (Some j, take_peer j (release_peer i w2)) else (None, w2))"

definition give_up :: "forward_env \<Rightarrow> call \<Rightarrow> nat \<Rightarrow> bool \<Rightarrow> world \<Rightarrow> ProxyForwardResult \<times> world" where
  "give_up env c i cb_reported w =
     (let w1 = (if \<not> cb_reported then cb_failed env (c_use_cb c) w else w)
      in (\<lparr>pf_status = kUpstreamFailed, started = True\<rparr>, release_upstream (release_peer i (Send502 w1))))"

text \<open>
  After a failure of peer \<open>i\<close>: another round with the number of retries left, the peer and the two
  flags, or the end.
\<close>

type_synonym round = "nat \<times> nat \<times> bool \<times> bool \<times> world"

definition fail_over ::
    "forward_env \<Rightarrow> call \<Rightarrow> bool \<Rightarrow> nat \<Rightarrow> nat \<Rightarrow> bool \<Rightarrow> bool \<Rightarrow> world \<Rightarrow> (ProxyForwardResult \<times> world) + round" where
  "fail_over env c may_retry retries_left i cb_reported on_wire w =
     (let w1 = peer_failed env i w in
      if may_retry \<and> 0 < retries_left then
        case next_peer env c i w1 of
          (Some j, w2) \<Rightarrow> Inr (retries_left - 1, j, cb_reported, on_wire, w2)
        | (None, w2) \<Rightarrow> Inl (give_up env c i cb_reported w2)
      else Inl (give_up env c i cb_reported w1))"

definition open_stream :: "forward_env \<Rightarrow> nat \<Rightarrow> world \<Rightarrow> char stream option \<times> world" where
  "open_stream env i w =
     (case pool_Acquire (address env i) (w_pool w) of
        (Some s, pool) \<Rightarrow> (Some s, w\<lparr>w_pool := pool\<rparr>)
      | (None, pool) \<Rightarrow>
          let cfg = peer_config (peers (w_upstream w) ! i);
              t = w_tick w;
              connected = connect env t (peer_host cfg) (peer_port cfg);
              ns = word_of_int (now_ns env (t + 1) - now_ns env t);
              pool1 = (if collect_stats (pool_config pool) then RecordConnect ns (connected \<noteq> None) pool else pool)
          in (connected, w\<lparr>w_pool := pool1, w_tick := t + 2\<rparr>))"

definition with_stats ::
    "(u64 \<Rightarrow> char stream UpstreamStreamPool \<Rightarrow> char stream UpstreamStreamPool) \<Rightarrow> forward_env \<Rightarrow> world \<Rightarrow> world" where
  "with_stats record_ns env w =
     (if collect_stats (pool_config (w_pool w)) then
        w\<lparr>w_pool := record_ns (word_of_int (now_ns env (w_tick w + 1) - now_ns env (w_tick w))) (w_pool w), w_tick := w_tick w + 2\<rparr>
      else w)"

definition attempt ::
    "forward_env \<Rightarrow> call \<Rightarrow> nat \<Rightarrow> nat \<Rightarrow> bool \<Rightarrow> bool \<Rightarrow> world \<Rightarrow> (ProxyForwardResult \<times> world) + round" where
  "attempt env c retries_left i cb_reported request_on_wire w =
     (let req = c_request c;
          idempotent = IsIdempotent (rq_method req);
          text_out = BuildRequestInto (header_order env) req (peers (w_upstream w) ! i) (c_forwarded c)
      in case open_stream env i w of
        (None, w1) \<Rightarrow>
          fail_over env c (\<not> request_on_wire \<or> idempotent) retries_left i cb_reported request_on_wire w1
      | (Some s, w1) \<Rightarrow>
          let (written, s1) = WriteAll text_out s;
              w2 = with_stats RecordUpstreamWrite env (w1\<lparr>w_wire := w_wire w1 @ [(i, text_out)]\<rparr>)
          in if \<not> written then fail_over env c idempotent retries_left i cb_reported True w2
             else case RelayResponse env (c_use_cb c) i (rq_method req) cb_reported s1 w2 of
               (reusable, reported, s2, w3) \<Rightarrow>
                 let w4 = with_stats RecordRelay env w3 in
                 case reusable of
                   None \<Rightarrow> fail_over env c idempotent retries_left i reported False w4
                 | Some keep \<Rightarrow>
                     let w5 = (if keep then w4\<lparr>w_pool := pool_Release (now_ns env (w_tick w4)) (address env i) (Some s2) (w_pool w4),
                                               w_tick := w_tick w4 + 1\<rparr> else w4)
                     in Inl (\<lparr>pf_status = kCompleted, started = True\<rparr>, release_upstream (release_peer i w5)))"

lemma fail_over_retries: "fail_over env c may_retry retries_left i reported on_wire w = Inr (r, x) \<Longrightarrow> r < retries_left"
  by (auto simp: fail_over_def Let_def split: if_splits prod.splits option.splits)

lemma attempt_retries: "attempt env c retries_left i reported on_wire w = Inr (r, x) \<Longrightarrow> r < retries_left"
  unfolding attempt_def Let_def
  by (auto split: prod.splits option.splits if_splits dest: fail_over_retries)

function forward_loop :: "forward_env \<Rightarrow> call \<Rightarrow> nat \<Rightarrow> nat \<Rightarrow> bool \<Rightarrow> bool \<Rightarrow> world \<Rightarrow> ProxyForwardResult \<times> world" where
  "forward_loop env c retries_left i cb_reported request_on_wire w =
     (case attempt env c retries_left i cb_reported request_on_wire w of
        Inl result \<Rightarrow> result
      | Inr (r, j, reported, on_wire, w') \<Rightarrow> forward_loop env c r j reported on_wire w')"
  by pat_completeness auto
termination
  by (relation "measure (\<lambda>(env, c, retries_left, _). retries_left)") (auto dest: attempt_retries)

declare forward_loop.simps [simp del]

definition Forward :: "forward_env \<Rightarrow> call \<Rightarrow> world \<Rightarrow> ProxyForwardResult \<times> world" where
  "Forward env c w =
     (case TryAcquireRequestSlot (w_upstream w) of
        (False, u) \<Rightarrow> (\<lparr>pf_status = kNoPeer, started = False\<rparr>, cb_failed env (c_use_cb c) (w\<lparr>w_upstream := u\<rparr>))
      | (True, u) \<Rightarrow>
          (case lb_select env c (w\<lparr>w_upstream := u\<rparr>) of
             (None, w1) \<Rightarrow>
               (\<lparr>pf_status = kNoPeer, started = False\<rparr>, cb_failed env (c_use_cb c) (release_upstream w1))
           | (Some i, w1) \<Rightarrow> forward_loop env c 2 i False False (take_peer i w1)))"

section \<open>The books\<close>

definition acts :: "world \<Rightarrow> int list" where "acts w = map active (peers (w_upstream w))"

definition slots_used :: "world \<Rightarrow> u64" where "slots_used w = active_requests (w_upstream w)"

definition breaker :: "world \<Rightarrow> CircuitBreaker option" where "breaker w = upstream_cb (w_upstream w)"

lemmas books = acts_def slots_used_def breaker_def

definition bump :: "nat \<Rightarrow> int \<Rightarrow> int list \<Rightarrow> int list" where "bump i d xs = xs[i := xs ! i + d]"

lemma bump_back [simp]: "bump i (- 1) (bump i 1 xs) = xs"
  by (cases "i < length xs") (auto simp: bump_def intro: nth_equalityI)

lemma acts_on_peer: "(\<And>p. active (g p) = active p + d) \<Longrightarrow> acts (on_peer i g w) = bump i d (acts w)"
  by (cases "i < length (peers (w_upstream w))") (simp_all add: acts_def on_peer_def bump_def map_update list_update_beyond)

lemma on_peer_books:
  "(\<And>p. active (g p) = active p) \<Longrightarrow> acts (on_peer i g w) = acts w"
  "slots_used (on_peer i g w) = slots_used w" "breaker (on_peer i g w) = breaker w" "w_wire (on_peer i g w) = w_wire w"
  using acts_on_peer [of g 0 i w] by (simp_all add: bump_def) (simp_all add: books on_peer_def)

lemma take_release_books [simp]:
  "acts (take_peer i w) = bump i 1 (acts w)" "acts (release_peer i w) = bump i (- 1) (acts w)"
  "slots_used (take_peer i w) = slots_used w" "slots_used (release_peer i w) = slots_used w"
  "breaker (take_peer i w) = breaker w" "breaker (release_peer i w) = breaker w"
  "w_wire (take_peer i w) = w_wire w" "w_wire (release_peer i w) = w_wire w"
  unfolding take_peer_def release_peer_def by (simp_all add: acts_on_peer on_peer_books)

lemma release_upstream_books [simp]:
  "acts (release_upstream w) = acts w" "slots_used (release_upstream w) = slots_used w - 1"
  "breaker (release_upstream w) = breaker w" "w_wire (release_upstream w) = w_wire w"
  by (simp_all add: books release_upstream_def ReleaseRequestSlot_def)

lemma cb_books [simp]:
  "acts (cb_failed env u w) = acts w" "slots_used (cb_failed env u w) = slots_used w" "w_wire (cb_failed env u w) = w_wire w"
  "acts (cb_succeeded u w) = acts w" "slots_used (cb_succeeded u w) = slots_used w" "w_wire (cb_succeeded u w) = w_wire w"
  by (simp_all add: books cb_failed_def cb_succeeded_def)

lemma peer_report_books [simp]:
  "acts (peer_failed env i w) = acts w" "slots_used (peer_failed env i w) = slots_used w"
  "breaker (peer_failed env i w) = breaker w" "w_wire (peer_failed env i w) = w_wire w"
  "acts (on_peer i peer_OnSuccess w) = acts w" "slots_used (on_peer i peer_OnSuccess w) = slots_used w"
  "breaker (on_peer i peer_OnSuccess w) = breaker w" "w_wire (on_peer i peer_OnSuccess w) = w_wire w"
  by (simp_all add: peer_failed_def on_peer_books peer_OnFailure_def peer_OnSuccess_def) (simp_all add: books)

lemma field_books [simp]:
  "acts (w\<lparr>w_client := c\<rparr>) = acts w" "slots_used (w\<lparr>w_client := c\<rparr>) = slots_used w" "breaker (w\<lparr>w_client := c\<rparr>) = breaker w"
  "acts (w\<lparr>w_pool := q\<rparr>) = acts w" "slots_used (w\<lparr>w_pool := q\<rparr>) = slots_used w" "breaker (w\<lparr>w_pool := q\<rparr>) = breaker w"
  "acts (w\<lparr>w_tick := t\<rparr>) = acts w" "slots_used (w\<lparr>w_tick := t\<rparr>) = slots_used w" "breaker (w\<lparr>w_tick := t\<rparr>) = breaker w"
  "acts (w\<lparr>w_lb := l\<rparr>) = acts w" "slots_used (w\<lparr>w_lb := l\<rparr>) = slots_used w" "breaker (w\<lparr>w_lb := l\<rparr>) = breaker w"
  "acts (w\<lparr>w_wire := x\<rparr>) = acts w" "slots_used (w\<lparr>w_wire := x\<rparr>) = slots_used w" "breaker (w\<lparr>w_wire := x\<rparr>) = breaker w"
  by (simp_all add: books)

text \<open>Steps that leave the books alone.\<close>

definition same_books :: "world \<Rightarrow> world \<Rightarrow> bool" where
  "same_books w w' \<longleftrightarrow> acts w' = acts w \<and> slots_used w' = slots_used w \<and> breaker w' = breaker w \<and> w_wire w' = w_wire w"

lemma write_client_world: "\<exists>c. snd (write_client bytes w) = w\<lparr>w_client := c\<rparr>"
  by (auto simp: write_client_def Let_def split: prod.splits)

lemma write_client_pair: "write_client bytes w = (ok, w') \<Longrightarrow> \<exists>c. w' = w\<lparr>w_client := c\<rparr>"
  using write_client_world [of bytes w] by auto

lemma Send502_books: "same_books w (Send502 w)"
  using write_client_world [of kResp w] by (auto simp: Send502_def Let_def same_books_def)

lemma with_stats_books: "same_books w (with_stats f env w)"
  by (simp add: with_stats_def same_books_def)

lemma open_stream_books: "open_stream env i w = (s, w') \<Longrightarrow> same_books w w'"
  by (auto simp: open_stream_def same_books_def Let_def split: prod.splits option.splits)

lemma lb_select_books: "lb_select env c w = (s, w') \<Longrightarrow> same_books w w'"
  by (auto simp: lb_select_def same_books_def Let_def split: prod.splits)

lemma relay_body_world: "relay_body st rs w = (r, rs', w') \<Longrightarrow> \<exists>c. w' = w\<lparr>w_client := c\<rparr>"
proof (induction st rs w arbitrary: r rs' w' rule: relay_body.induct)
  case (1 st w)
  then show ?case by (auto intro: exI [of _ "w_client w"])
next
  case (2 st rs w)
  then show ?case by (auto intro: exI [of _ "w_client w"])
next
  case (3 st chunk rs w)
  show ?case
  proof (cases "chunk = []")
    case True
    then show ?thesis using 3(3) by (auto intro: exI [of _ "w_client w"])
  next
    case False
    let ?out = "if framing st = kContentLength then take (min (length chunk) (body_remaining st)) chunk else chunk"
    obtain ok w1 where w1: "write_client ?out w = (ok, w1)" by fastforce
    obtain c where "w1 = w\<lparr>w_client := c\<rparr>" using write_client_pair [OF w1] by blast
    then show ?thesis
      using 3(3) False w1 3(1) [OF False _ refl, of "(ok, w1)" ok w1] 3(2) [OF False _ , of "(ok, w1)" ok w1]
      by (fastforce simp: Let_def split: if_splits)
  qed
qed

lemma relay_head_world:
  assumes "relay_head env u i meth buf e rep rs w = (r, rep', rs', w')"
  shows "\<exists>code c. rep' = fst (report_head env u i code rep w) \<and> w' = (snd (report_head env u i code rep w))\<lparr>w_client := c\<rparr>"
proof -
  obtain out st where st: "RewriteHeaders (take (e + 4) buf) meth = (out, st)" by fastforce
  obtain rep1 w1 where w1: "report_head env u i (status st) rep w = (rep1, w1)" by fastforce
  let ?n = "if framing st = kContentLength then min (length buf - (e + 4)) (body_remaining st) else length buf - (e + 4)"
  let ?out = "out @ take ?n (drop (e + 4) buf)"
  obtain ok w2 where w2: "(if ?out \<noteq> [] then write_client ?out w1 else (True, w1)) = (ok, w2)" by fastforce
  have "\<exists>c. w2 = w1\<lparr>w_client := c\<rparr>"
  proof (cases "?out = []")
    case True
    then have "w2 = w1\<lparr>w_client := w_client w1\<rparr>" using w2 by simp
    then show ?thesis by blast
  qed (use w2 write_client_pair in \<open>simp; blast\<close>)
  then obtain c where c: "w2 = w1\<lparr>w_client := c\<rparr>" by blast
  have "rep' = rep1 \<and> (\<exists>c. w' = w1\<lparr>w_client := c\<rparr>)"
    using assms st w1 w2 c unfolding relay_head_def Let_def
    by (auto split: if_splits prod.splits dest!: relay_body_world)
  then show ?thesis using w1 by (metis fst_conv snd_conv)
qed

lemma relay_loop_world:
  "relay_loop env u i meth buf rep rs w = (r, rep', rs', w') \<Longrightarrow>
   (rep' = rep \<and> w' = w) \<or>
   (\<exists>code c. rep' = fst (report_head env u i code rep w) \<and> w' = (snd (report_head env u i code rep w))\<lparr>w_client := c\<rparr>)"
proof (induction env u i meth buf rep rs w rule: relay_loop.induct)
  case (1 env u i meth buf rep w)
  then show ?case by (auto split: option.splits dest: relay_head_world)
next
  case (2 env u i meth buf rep x rs w)
  show ?case
  proof (cases "find_from (crlf @ crlf) buf 0")
    case None
    then show ?thesis using 2(2) 2(1) [OF None] by (auto split: option.splits if_splits)
  next
    case (Some e)
    then show ?thesis using 2(2) relay_head_world by auto
  qed
qed

lemma report_head_reports: "fst (report_head env u i code rep w)"
  by (simp add: report_head_def)

lemma relay_head_reports: "relay_head env u i meth buf e rep rs w = (r, rep', rs', w') \<Longrightarrow> rep'"
  using relay_head_world [of env u i meth buf e rep rs w r rep' rs' w'] report_head_reports by auto

lemma relay_loop_reports: "relay_loop env u i meth buf rep rs w = (Some keep, rep', rs', w') \<Longrightarrow> rep'"
proof (induction env u i meth buf rep rs w rule: relay_loop.induct)
  case (1 env u i meth buf rep w)
  then show ?case by (auto split: option.splits dest: relay_head_reports)
next
  case (2 env u i meth buf rep x rs w)
  show ?case
  proof (cases "find_from (crlf @ crlf) buf 0")
    case None
    then show ?thesis using 2(2) 2(1) [OF None] by (auto split: option.splits if_splits)
  next
    case (Some e)
    then show ?thesis using 2(2) by (auto dest: relay_head_reports)
  qed
qed

text \<open>What the breaker has heard of a request: nothing yet, or one report.\<close>

definition told :: "CircuitBreaker option \<Rightarrow> bool \<Rightarrow> bool \<Rightarrow> CircuitBreaker option \<Rightarrow> bool" where
  "told b use_cb reported b' \<longleftrightarrow>
     (if reported \<and> use_cb then b' = map_option OnSuccess b \<or> (\<exists>t. b' = map_option (OnFailure t) b) else b' = b)"

lemma told_cb:
  "told b u False (breaker w) \<Longrightarrow> told b u True (breaker (cb_failed env u w))"
  "told b u False (breaker w) \<Longrightarrow> told b u True (breaker (cb_succeeded u w))"
  by (auto simp: told_def cb_failed_def cb_succeeded_def breaker_def)

lemma report_head_books:
  "acts (snd (report_head env u i code rep w)) = acts w" "slots_used (snd (report_head env u i code rep w)) = slots_used w"
  "w_wire (snd (report_head env u i code rep w)) = w_wire w"
  "told b u rep (breaker w) \<Longrightarrow>
     told b u (fst (report_head env u i code rep w)) (breaker (snd (report_head env u i code rep w)))"
  using told_cb(1) [of b u w env] told_cb(2) [of b u "on_peer i peer_OnSuccess w"] by (auto simp: report_head_def)

lemma RelayResponse_books:
  assumes "RelayResponse env u i meth rep s w = (r, rep', s', w')"
  shows "acts w' = acts w" "slots_used w' = slots_used w" "w_wire w' = w_wire w"
    "told b u rep (breaker w) \<Longrightarrow> told b u rep' (breaker w')"
proof -
  obtain rs' where "relay_loop env u i meth [] rep (reads s) w = (r, rep', rs', w')"
    using assms by (auto simp: RelayResponse_def Let_def split: prod.splits)
  from relay_loop_world [OF this]
  have "acts w' = acts w \<and> slots_used w' = slots_used w \<and> w_wire w' = w_wire w \<and> (told b u rep (breaker w) \<longrightarrow> told b u rep' (breaker w'))"
  proof
    assume "\<exists>code c. rep' = fst (report_head env u i code rep w) \<and> w' = (snd (report_head env u i code rep w))\<lparr>w_client := c\<rparr>"
    then obtain code c where "rep' = fst (report_head env u i code rep w)"
        "w' = (snd (report_head env u i code rep w))\<lparr>w_client := c\<rparr>" by blast
    then show ?thesis using report_head_books(4) [of b u rep w env i code] by (simp add: report_head_books(1-3))
  qed simp
  then show "acts w' = acts w" "slots_used w' = slots_used w" "w_wire w' = w_wire w"
    "told b u rep (breaker w) \<Longrightarrow> told b u rep' (breaker w')" by blast+
qed

text \<open>
  The state of the books during a round on peer \<open>i\<close>, relative to those at the start of the call,
  and at the end.
\<close>

definition during :: "int list \<Rightarrow> u64 \<Rightarrow> CircuitBreaker option \<Rightarrow> bool \<Rightarrow> nat \<Rightarrow> bool \<Rightarrow> world \<Rightarrow> bool" where
  "during A n b u i rep w \<longleftrightarrow> acts w = bump i 1 A \<and> slots_used w = n + 1 \<and> told b u rep (breaker w)"

definition settled :: "int list \<Rightarrow> u64 \<Rightarrow> CircuitBreaker option \<Rightarrow> bool \<Rightarrow> world \<Rightarrow> bool" where
  "settled A n b u w \<longleftrightarrow> acts w = A \<and> slots_used w = n \<and> told b u True (breaker w)"

lemma during_same: "during A n b u i rep w \<Longrightarrow> same_books w w' \<Longrightarrow> during A n b u i rep w'"
  by (simp add: during_def same_books_def)

lemma give_up_settles:
  assumes "during A n b (c_use_cb c) i rep w"
  shows "settled A n b (c_use_cb c) (snd (give_up env c i rep w)) \<and> w_wire (snd (give_up env c i rep w)) = w_wire w"
proof -
  let ?w = "if \<not> rep then cb_failed env (c_use_cb c) w else w"
  have "told b (c_use_cb c) True (breaker ?w)" using assms told_cb(1) by (cases rep) (auto simp: during_def)
  then show ?thesis
    using assms Send502_books [of ?w] by (auto simp: give_up_def Let_def settled_def during_def same_books_def)
qed

lemma next_peer_during:
  assumes "next_peer env c i w = (x, w')" "during A n b u i rep w"
  shows "case x of None \<Rightarrow> during A n b u i rep w' | Some j \<Rightarrow> during A n b u j rep w'" "w_wire w' = w_wire w"
proof -
  obtain sel w1 where s: "lb_select env c w = (sel, w1)" by fastforce
  have "during A n b u i rep w1" "w_wire w1 = w_wire w"
    using during_same [OF assms(2) lb_select_books [OF s]] lb_select_books [OF s] by (simp_all add: same_books_def)
  then show "case x of None \<Rightarrow> during A n b u i rep w' | Some j \<Rightarrow> during A n b u j rep w'" "w_wire w' = w_wire w"
    using assms(1) s unfolding next_peer_def Let_def
    by (auto simp: during_def split: if_splits option.splits)
qed

lemma fail_over_books:
  assumes "during A n b (c_use_cb c) i rep w"
  shows "case fail_over env c may r i rep on_wire w of
      Inl (res, w') \<Rightarrow> settled A n b (c_use_cb c) w' \<and> w_wire w' = w_wire w
    | Inr (r', j, rep', on_wire', w') \<Rightarrow> during A n b (c_use_cb c) j rep' w' \<and> w_wire w' = w_wire w \<and> may \<and> on_wire' = on_wire"
proof -
  let ?w = "peer_failed env i w"
  have d: "during A n b (c_use_cb c) i rep ?w" using assms by (simp add: during_def)
  obtain x w2 where x: "next_peer env c i ?w = (x, w2)" by fastforce
  note np = next_peer_during [OF x d]
  show ?thesis
    using np give_up_settles [OF d, of env] give_up_settles [of A n b c i rep w2 env] x
    by (auto simp: fail_over_def Let_def split: prod.splits option.splits)
qed

text \<open>One round: the books, and how often the request was written to a connection.\<close>

definition round_ok ::
    "int list \<Rightarrow> u64 \<Rightarrow> CircuitBreaker option \<Rightarrow> call \<Rightarrow> nat \<Rightarrow> (ProxyForwardResult \<times> world) + round \<Rightarrow> bool" where
  "round_ok A n b c sends x \<longleftrightarrow>
     (case x of
        Inl (res, w') \<Rightarrow> settled A n b (c_use_cb c) w' \<and> length (w_wire w') \<le> sends + 1
      | Inr (r', j, rep', on_wire', w') \<Rightarrow> during A n b (c_use_cb c) j rep' w' \<and>
          length (w_wire w') \<le> (if IsIdempotent (rq_method (c_request c)) then sends + 1 else sends))"

lemma fail_over_round:
  assumes "during A n b (c_use_cb c) i rep w" "length (w_wire w) \<le> sends + 1"
    and "may \<Longrightarrow> \<not> IsIdempotent (rq_method (c_request c)) \<Longrightarrow> length (w_wire w) \<le> sends"
  shows "round_ok A n b c sends (fail_over env c may r i rep on_wire w)"
  using fail_over_books [OF assms(1), where env = env and may = may and r = r and on_wire = on_wire] assms(2,3) by (auto simp: round_ok_def split: sum.splits prod.splits)

lemma attempt_round:
  assumes d: "during A n b (c_use_cb c) i rep w"
  shows "round_ok A n b c (length (w_wire w)) (attempt env c r i rep on_wire w)"
proof -
  let ?idem = "IsIdempotent (rq_method (c_request c))"
  let ?req = "BuildRequestInto (header_order env) (c_request c) (peers (w_upstream w) ! i) (c_forwarded c)"
  obtain so w1 where o: "open_stream env i w = (so, w1)" by fastforce
  have b1: "same_books w w1" by (rule open_stream_books [OF o])
  have d1: "during A n b (c_use_cb c) i rep w1" by (rule during_same [OF d b1])
  show ?thesis
  proof (cases so)
    case None
    have "round_ok A n b c (length (w_wire w)) (fail_over env c (\<not> on_wire \<or> ?idem) r i rep on_wire w1)"
      by (rule fail_over_round [OF d1]) (use b1 in \<open>simp_all add: same_books_def\<close>)
    then show ?thesis using o None by (simp add: attempt_def Let_def)
  next
    case (Some s)
    obtain ok s1 where wr: "WriteAll ?req s = (ok, s1)" by fastforce
    define w2 where "w2 = with_stats RecordUpstreamWrite env (w1\<lparr>w_wire := w_wire w1 @ [(i, ?req)]\<rparr>)"
    have b2: "acts w2 = acts w1" "slots_used w2 = slots_used w1" "breaker w2 = breaker w1" "length (w_wire w2) = length (w_wire w) + 1"
      using with_stats_books [of "w1\<lparr>w_wire := w_wire w1 @ [(i, ?req)]\<rparr>" RecordUpstreamWrite env] b1
      by (simp_all add: w2_def same_books_def)
    have d2: "during A n b (c_use_cb c) i rep w2" using d1 b2 by (simp add: during_def)
    obtain re rep3 s2 w3 where rl: "RelayResponse env (c_use_cb c) i (rq_method (c_request c)) rep s1 w2 = (re, rep3, s2, w3)"
      by (metis prod_cases4)
    define w4 where "w4 = with_stats RecordRelay env w3"
    have d4: "during A n b (c_use_cb c) i rep3 w4" and l4: "length (w_wire w4) = length (w_wire w) + 1"
      using RelayResponse_books(1-3) [OF rl] RelayResponse_books(4) [OF rl, of b] d2 b2(4) with_stats_books [of w3 RecordRelay env]
      by (simp_all add: during_def w4_def same_books_def)
    consider "\<not> ok" | "ok" "re = None" | keep where "ok" "re = Some keep" by (cases re) auto
    then show ?thesis
    proof cases
      case 1
      then have "attempt env c r i rep on_wire w = fail_over env c ?idem r i rep True w2"
        using o Some wr by (simp add: attempt_def Let_def w2_def)
      moreover have "round_ok A n b c (length (w_wire w)) (fail_over env c ?idem r i rep True w2)"
        by (rule fail_over_round [OF d2]) (use b2(4) in simp_all)
      ultimately show ?thesis by simp
    next
      case 2
      then have "attempt env c r i rep on_wire w = fail_over env c ?idem r i rep3 False w4"
        using o Some wr rl by (simp add: attempt_def Let_def w2_def w4_def)
      moreover have "round_ok A n b c (length (w_wire w)) (fail_over env c ?idem r i rep3 False w4)"
        by (rule fail_over_round [OF d4]) (use l4 in simp_all)
      ultimately show ?thesis by simp
    next
      case 3
      define w5 where "w5 = (if keep then w4\<lparr>w_pool := pool_Release (now_ns env (w_tick w4)) (address env i) (Some s2) (w_pool w4),
        w_tick := w_tick w4 + 1\<rparr> else w4)"
      have rep3: rep3 using rl 3 relay_loop_reports by (auto simp: RelayResponse_def Let_def split: prod.splits)
      have "attempt env c r i rep on_wire w = Inl (\<lparr>pf_status = kCompleted, started = True\<rparr>, release_upstream (release_peer i w5))"
        using o Some wr rl 3 by (simp add: attempt_def Let_def w2_def w4_def w5_def)
      moreover have "acts w5 = acts w4" "slots_used w5 = slots_used w4" "breaker w5 = breaker w4" "w_wire w5 = w_wire w4"
        by (simp_all add: w5_def)
      ultimately show ?thesis using d4 l4 rep3 by (simp add: round_ok_def settled_def during_def)
    qed
  qed
qed

lemma forward_loop_books:
  "during A n b (c_use_cb c) i rep w \<Longrightarrow>
   settled A n b (c_use_cb c) (snd (forward_loop env c r i rep on_wire w)) \<and>
   length (w_wire (snd (forward_loop env c r i rep on_wire w)))
     \<le> length (w_wire w) + (if IsIdempotent (rq_method (c_request c)) then r + 1 else 1)"
proof (induction env c r i rep on_wire w rule: forward_loop.induct)
  case (1 env c r i rep on_wire w)
  note rd = attempt_round [OF 1(2), where env = env and r = r and on_wire = on_wire]
  show ?case
  proof (cases "attempt env c r i rep on_wire w")
    case (Inl x)
    then show ?thesis using rd by (cases x) (auto simp: forward_loop.simps [of env c r i rep on_wire w] round_ok_def)
  next
    case (Inr x)
    obtain r' j rep' ow w' where x: "x = (r', j, rep', ow, w')" by (metis prod_cases5)
    have l: "r' < r" using attempt_retries Inr x by blast
    have d: "during A n b (c_use_cb c) j rep' w'"
        "length (w_wire w') \<le> (if IsIdempotent (rq_method (c_request c)) then length (w_wire w) + 1 else length (w_wire w))"
      using rd Inr x by (simp_all add: round_ok_def)
    have "forward_loop env c r i rep on_wire w = forward_loop env c r' j rep' ow w'"
      using Inr x by (simp add: forward_loop.simps [of env c r i rep on_wire w])
    then show ?thesis using 1(1) [OF Inr x [symmetric] refl refl refl d(1)] d(2) l by (auto split: if_splits)
  qed
qed

lemma Forward_books:
  "settled (acts w) (slots_used w) (breaker w) (c_use_cb c) (snd (Forward env c w)) \<and>
   length (w_wire (snd (Forward env c w))) \<le> length (w_wire w) + (if IsIdempotent (rq_method (c_request c)) then 3 else 1)"
proof -
  obtain got u where u: "TryAcquireRequestSlot (w_upstream w) = (got, u)" by fastforce
  let ?w = "w\<lparr>w_upstream := u\<rparr>"
  have bu: "acts ?w = acts w" "breaker ?w = breaker w" "w_wire ?w = w_wire w"
    and sl: "slots_used ?w = (if got then slots_used w + 1 else slots_used w)"
    using u by (auto simp: books TryAcquireRequestSlot_def Let_def split: if_splits)
  have told0: "told (breaker w) (c_use_cb c) False (breaker w)" by (simp add: told_def)
  show ?thesis
  proof (cases got)
    case False
    then have "snd (Forward env c w) = cb_failed env (c_use_cb c) ?w" using u by (simp add: Forward_def)
    then show ?thesis using bu sl False told_cb(1) [of "breaker w" "c_use_cb c" ?w env] told0 by (simp add: settled_def)
  next
    case True
    obtain sel w1 where s: "lb_select env c ?w = (sel, w1)" by fastforce
    have b1: "acts w1 = acts w" "breaker w1 = breaker w" "w_wire w1 = w_wire w" "slots_used w1 = slots_used w + 1"
      using lb_select_books [OF s] bu sl True by (simp_all add: same_books_def)
    show ?thesis
    proof (cases sel)
      case None
      then have "snd (Forward env c w) = cb_failed env (c_use_cb c) (release_upstream w1)" using u s True by (simp add: Forward_def)
      then show ?thesis using b1 told_cb(1) [of "breaker w" "c_use_cb c" "release_upstream w1" env] told0 by (simp add: settled_def)
    next
      case (Some i)
      have "during (acts w) (slots_used w) (breaker w) (c_use_cb c) i False (take_peer i w1)"
        using b1 told0 by (simp add: during_def)
      from forward_loop_books [OF this, of env 2 False] show ?thesis
        using u s True Some b1 by (simp add: Forward_def split: if_splits)
    qed
  qed
qed

text \<open>
  (C8) However the pool, the connections, the peers and the client behave, after a request has been
  forwarded the number of active requests of every peer and the number of slots in use
  of the group are those before it, and the circuit breaker, if the route has one, has
  been told of the request exactly once, as a success or as a failure.
\<close>

theorem forward_balanced:
  "let w' = snd (Forward env c w); u = w_upstream w; u' = w_upstream w' in
   map active (peers u') = map active (peers u) \<and> active_requests u' = active_requests u \<and>
   (if c_use_cb c
    then upstream_cb u' = map_option OnSuccess (upstream_cb u) \<or> (\<exists>t. upstream_cb u' = map_option (OnFailure t) (upstream_cb u))
    else upstream_cb u' = upstream_cb u)"
  using Forward_books [of w c env] by (simp add: Let_def settled_def books told_def)

text \<open>
  (C9) The request is written to a limited number of connections: to at most three, and, when its
  method is not idempotent, to at most one, so that an upstream never acts twice on it.
\<close>

theorem forward_at_most_once:
  "length (w_wire (snd (Forward env c w))) \<le> length (w_wire w) + (if IsIdempotent (rq_method (c_request c)) then 3 else 1)"
  using Forward_books [of w c env] by blast

end
