(* ===== verification/ProxyRelay.thy ===== *)
theory ProxyRelay
  imports ProxyForward
begin

text \<open>
  What the client receives: the rewriting of a response head line by line, and the relaying of a
  response of known length, cut into reads in any way.
\<close>

section \<open>The head, line by line\<close>

definition rewrite_line :: "string \<Rightarrow> string" where
  "rewrite_line l =
     (if (case find_from '':'' l 0 of None \<Rightarrow> False | Some c \<Rightarrow> AsciiCaseEqual (substr l 0 c) ''server'')
      then ''Server: runtime-gateway'' else l)"

definition line_state :: "string \<Rightarrow> ResponseState \<Rightarrow> ResponseState" where
  "line_state l st = (case find_from '':'' l 0 of None \<Rightarrow> st
     | Some c \<Rightarrow> header_state (substr l 0 c) (dropWhile blank (drop (c + 1) l)) st)"

lemma rewrite_line_step:
  assumes "plain l" and raw: "raw = pre @ l @ crlf @ rest"
  shows "rewrite_loop raw no_body (length pre) out st =
    (if l = [] then (out @ crlf, st)
     else rewrite_loop raw no_body (length pre + length l + 2) (out @ rewrite_line l @ crlf) (if no_body then st else line_state l st))"
proof -
  have lf: "LF \<notin> set (l @ [CR])" using assms(1) by (simp add: plain_def)
  have raw': "raw = pre @ (l @ [CR]) @ [LF] @ rest" using raw by (simp add: crlf_def)
  have eol: "find_from [LF] raw (length pre) = Some (length pre + length l + 1)"
    unfolding raw' using find_from_at [of "[LF]" "l @ [CR]" pre rest] lf by simp
  have line0: "substr raw (length pre) (length pre + length l + 1 - length pre) = l @ [CR]"
    unfolding raw' using substr_append [of pre "l @ [CR]" "[LF] @ rest"] by simp
  have pos: "length pre < length raw" by (simp add: raw)
  show ?thesis
    by (subst rewrite_loop.simps)
      (use pos eol line0 in \<open>auto simp: Let_def rewrite_line_def line_state_def find_from_def split: option.splits\<close>)
qed

lemma rewrite_lines:
  assumes "\<forall>l \<in> set ls. l \<noteq> [] \<and> plain l" and "raw = pre @ lines_text ls @ crlf"
  shows "rewrite_loop raw no_body (length pre) out st =
    (out @ lines_text (map rewrite_line ls) @ crlf, if no_body then st else fold line_state ls st)"
  using assms
proof (induction ls arbitrary: pre out st)
  case Nil
  then show ?case using rewrite_line_step [of "[]" raw pre "[]" no_body out st] by (simp add: plain_def)
next
  case (Cons l ls)
  have "rewrite_loop raw no_body (length pre) out st =
      rewrite_loop raw no_body (length (pre @ l @ crlf)) (out @ rewrite_line l @ crlf) (if no_body then st else line_state l st)"
    using rewrite_line_step [of l raw pre "lines_text ls @ crlf" no_body out st] Cons(2,3) by (simp add: crlf_def)
  then show ?case using Cons.IH [of "pre @ l @ crlf"] Cons(2,3) by simp
qed

definition status_of :: "string \<Rightarrow> int" where
  "status_of sl = (if 12 \<le> length sl \<and> sl ! 8 = CHR '' '' then from_chars_int (substr sl 9 3) 0 else 0)"

definition response_state :: "Method \<Rightarrow> string \<Rightarrow> string list \<Rightarrow> ResponseState" where
  "response_state meth sl ls =
     (let code = status_of sl; st = new_ResponseState\<lparr>status := code\<rparr> in
      if meth = Head \<or> code = 204 \<or> code = 304 \<or> 100 \<le> code \<and> code < 200
      then st\<lparr>framing := kNoBody, body_remaining := 0, upstream_keepalive := True\<rparr>
      else fold line_state ls st)"

definition head_text :: "string \<Rightarrow> string list \<Rightarrow> string" where
  "head_text sl ls = lines_text (sl # ls) @ crlf"

lemma RewriteHeaders_head:
  assumes "plain sl" "\<forall>l \<in> set ls. l \<noteq> [] \<and> plain l"
  shows "RewriteHeaders (head_text sl ls) meth = (head_text sl (map rewrite_line ls), response_state meth sl ls)"
proof -
  have raw: "head_text sl ls = (sl @ crlf) @ lines_text ls @ crlf" by (simp add: head_text_def)
  have "CR \<notin> set sl" using assms(1) by (simp add: plain_def)
  then have cr: "find_from [CR] (head_text sl ls) 0 = Some (length sl)"
    using find_from_at [of "[CR]" sl "[]" "LF # lines_text ls @ crlf"] by (simp add: raw)
  have first: "substr (head_text sl ls) 0 (length sl) = sl" by (simp add: raw substr_def)
  have pos: "length sl + 2 = length (sl @ crlf)" by simp
  have st0: "(if b then new_ResponseState\<lparr>status := x\<rparr> else new_ResponseState) = new_ResponseState\<lparr>status := (if b then x else 0)\<rparr>" for b x
    by (simp add: new_ResponseState_def)
  have s0: "status new_ResponseState = 0" by (simp add: new_ResponseState_def)
  show ?thesis
    unfolding RewriteHeaders_def cr option.case first Let_def case_prod_conv st0 pos s0 status_of_def [symmetric]
      rewrite_lines [OF assms(2) raw]
    by (simp add: response_state_def Let_def head_text_def)
qed

lemma find_head_end:
  assumes "plain sl" "sl \<noteq> []" "\<forall>l \<in> set ls. l \<noteq> [] \<and> plain l"
  shows "find_from (crlf @ crlf) (head_text sl ls @ t) 0 = Some (length (head_text sl ls) - 4)" "4 \<le> length (head_text sl ls)"
proof -
  have "find_in (crlf @ crlf) (lines_text (sl # ls) @ crlf @ t) = Some (length (lines_text (sl # ls)) - 2)"
    by (rule find_blank_line) (use assms in auto)
  then show "find_from (crlf @ crlf) (head_text sl ls @ t) 0 = Some (length (head_text sl ls) - 4)" "4 \<le> length (head_text sl ls)"
    by (simp_all add: find_from_def head_text_def)
qed

section \<open>The body\<close>

definition deliver :: "string \<Rightarrow> world \<Rightarrow> world" where
  "deliver bytes w = w\<lparr>w_client := (w_client w)\<lparr>sent := sent (w_client w) @ bytes\<rparr>\<rparr>"

definition willing :: "world \<Rightarrow> bool" where "willing w \<longleftrightarrow> writes (w_client w) = []"

lemma write_client_willing: "willing w \<Longrightarrow> write_client bytes w = (True, deliver bytes w)"
  by (simp add: write_client_def WriteAll_willing deliver_def willing_def)

lemma deliver_simps [simp]:
  "willing (deliver b w) = willing w" "deliver b' (deliver b w) = deliver (b @ b') w" "deliver [] w = w"
  by (simp_all add: deliver_def willing_def)

lemma report_head_client [simp]: "w_client (snd (report_head env u i code rep w)) = w_client w"
  by (simp add: report_head_def cb_failed_def cb_succeeded_def on_peer_def)

text \<open>The reads of a body of known length, up to its end or as far as they go.\<close>

lemma relay_body_run:
  assumes "framing st = kContentLength" "0 < body_remaining st" "willing w" "[] \<notin> set cs"
  shows "if body_remaining st \<le> length (concat cs)
    then \<exists>rs'. relay_body st (map Some cs @ later) w =
      (Some (upstream_keepalive st), rs', deliver (take (body_remaining st) (concat cs)) w)
    else relay_body st (map Some cs @ later) w =
      relay_body (st\<lparr>body_remaining := body_remaining st - length (concat cs)\<rparr>) later (deliver (concat cs) w)"
  using assms
proof (induction cs arbitrary: st w)
  case Nil
  then show ?case by simp
next
  case (Cons c cs)
  have c: "c \<noteq> []" using Cons(5) by auto
  show ?case
  proof (cases "body_remaining st \<le> length c")
    case True
    then show ?thesis using Cons(2-4) c by (simp add: Let_def write_client_willing)
  next
    case False
    let ?st = "st\<lparr>body_remaining := body_remaining st - length c\<rparr>"
    have step: "relay_body st (map Some (c # cs) @ later) w = relay_body ?st (map Some cs @ later) (deliver c w)"
      using False Cons(2-4) c by (simp add: Let_def write_client_willing)
    have "if body_remaining ?st \<le> length (concat cs)
      then \<exists>rs'. relay_body ?st (map Some cs @ later) (deliver c w) =
        (Some (upstream_keepalive ?st), rs', deliver (take (body_remaining ?st) (concat cs)) (deliver c w))
      else relay_body ?st (map Some cs @ later) (deliver c w) =
        relay_body (?st\<lparr>body_remaining := body_remaining ?st - length (concat cs)\<rparr>) later (deliver (concat cs) (deliver c w))"
      by (rule Cons.IH) (use Cons(2-5) False in auto)
    then show ?thesis unfolding step using False by (auto split: if_splits)
  qed
qed

section \<open>The whole response\<close>

lemma append_longer:
  assumes "xs @ ys = us @ vs" "length us \<le> length xs"
  shows "\<exists>zs. xs = us @ zs \<and> vs = zs @ ys"
proof -
  have "take (length us) xs = us" using arg_cong [OF assms(1), of "take (length us)"] assms(2) by simp
  moreover have "drop (length us) xs @ ys = vs" using arg_cong [OF assms(1), of "drop (length us)"] assms(2) by simp
  ultimately show ?thesis by (metis append_take_drop_id)
qed

text \<open>However the head is cut into reads, it is taken up once it is complete.\<close>

lemma relay_loop_reaches:
  assumes h: "plain sl" "sl \<noteq> []" "\<forall>l \<in> set ls. l \<noteq> [] \<and> plain l"
  shows "buf @ concat cs = head_text sl ls @ t \<Longrightarrow> [] \<notin> set cs \<Longrightarrow>
    \<exists>part cs'. t = part @ concat cs' \<and> [] \<notin> set cs' \<and>
      relay_loop env u i meth buf rep (map Some cs @ later) w =
      relay_head env u i meth (head_text sl ls @ part) (length (head_text sl ls) - 4) rep (map Some cs' @ later) w"
proof (induction cs arbitrary: buf)
  case Nil
  then have "buf = head_text sl ls @ t" by simp
  then show ?case using find_head_end(1) [OF h, of t]
    by (intro exI [of _ t] exI [of _ "[]"]) (cases later; simp)
next
  case (Cons c cs)
  show ?case
  proof (cases "find_from (crlf @ crlf) buf 0")
    case None
    have "relay_loop env u i meth buf rep (map Some (c # cs) @ later) w = relay_loop env u i meth (buf @ c) rep (map Some cs @ later) w"
      using None Cons(3) by auto
    then show ?thesis using Cons.IH [of "buf @ c"] Cons(2,3) by simp
  next
    case (Some e)
    have "find_from (crlf @ crlf) (buf @ concat (c # cs)) 0 = Some e" by (rule find_from_append [OF Some])
    then have e: "e = length (head_text sl ls) - 4" unfolding Cons(2) using find_head_end(1) [OF h, of t] by simp
    have "e + 4 \<le> length buf" using find_from_bounds [OF Some] by (simp add: crlf_def)
    then have "length (head_text sl ls) \<le> length buf" using e find_head_end(2) [OF h] by simp
    then obtain part where part: "buf = head_text sl ls @ part" "t = part @ concat (c # cs)"
      using append_longer [OF Cons(2)] by blast
    show ?thesis
      by (rule exI [of _ part], rule exI [of _ "c # cs"]) (use Some e part Cons(3) in simp)
  qed
qed

lemma relay_head_run:
  assumes h: "plain sl" "sl \<noteq> []" "\<forall>l \<in> set ls. l \<noteq> [] \<and> plain l"
    and st: "response_state meth sl ls = st" "framing st = kContentLength" and w: "willing w" and cs: "[] \<notin> set cs"
    and t: "t = part @ concat cs" and rp: "report_head env u i (status st) rep w = (rep1, w1)"
  shows "if body_remaining st \<le> length t
    then \<exists>rs'. relay_head env u i meth (head_text sl ls @ part) (length (head_text sl ls) - 4) rep (map Some cs @ later) w =
      (Some (upstream_keepalive st), rep1, rs', deliver (head_text sl (map rewrite_line ls) @ take (body_remaining st) t) w1)
    else relay_head env u i meth (head_text sl ls @ part) (length (head_text sl ls) - 4) rep (map Some cs @ None # rest) w =
      (None, rep1, rest, deliver (head_text sl (map rewrite_line ls) @ t) w1)"
proof -
  let ?head = "head_text sl ls" let ?new = "head_text sl (map rewrite_line ls)"
  let ?n = "min (length part) (body_remaining st)"
  let ?st = "st\<lparr>body_remaining := body_remaining st - ?n\<rparr>"
  have raw: "length ?head - 4 + 4 = length ?head" using find_head_end(2) [OF h] by simp
  have ne: "?new \<noteq> []" by (simp add: head_text_def)
  have w1: "willing w1" using w report_head_client [of env u i "status st" rep w] rp by (simp add: willing_def)
  have eq: "relay_head env u i meth (?head @ part) (length ?head - 4) rep rs w =
      (if body_remaining ?st = 0 then (Some (upstream_keepalive st), rep1, rs, deliver (?new @ take ?n part) w1)
       else let (r, rs', w3) = relay_body ?st rs (deliver (?new @ take ?n part) w1) in (r, rep1, rs', w3))" for rs
    unfolding relay_head_def raw
    by (simp add: Let_def RewriteHeaders_head [OF h(1,3)] st rp write_client_willing [OF w1] ne del: deliver_simps)
  show ?thesis
  proof (cases "body_remaining st \<le> length part")
    case True
    then show ?thesis by (auto simp: eq t)
  next
    case False
    let ?st' = "st\<lparr>body_remaining := body_remaining st - length part\<rparr>"
    have eq': "relay_head env u i meth (?head @ part) (length ?head - 4) rep rs w =
        (let (r, rs', w3) = relay_body ?st' rs (deliver (?new @ part) w1) in (r, rep1, rs', w3))" for rs
      using False eq by (simp add: min_def del: deliver_simps)
    have pre: "framing ?st' = kContentLength" "0 < body_remaining ?st'" "willing (deliver (?new @ part) w1)"
      using st(2) w1 False by simp_all
    note body = relay_body_run [OF pre cs]
    have le: "body_remaining ?st' \<le> length (concat cs) \<longleftrightarrow> body_remaining st \<le> length t" using False by (auto simp: t)
    show ?thesis
    proof (cases "body_remaining st \<le> length t")
      case True
      then have "\<exists>rs'. relay_body ?st' (map Some cs @ later) (deliver (?new @ part) w1) =
          (Some (upstream_keepalive st), rs', deliver (take (body_remaining ?st') (concat cs)) (deliver (?new @ part) w1))"
        using body [of later] unfolding le by simp
      moreover have "take (body_remaining st) t = part @ take (body_remaining ?st') (concat cs)" using False by (simp add: t)
      ultimately show ?thesis using True by (auto simp: eq')
    next
      case short: False
      then have "relay_body ?st' (map Some cs @ None # rest) (deliver (?new @ part) w1) =
          relay_body (?st'\<lparr>body_remaining := body_remaining ?st' - length (concat cs)\<rparr>) (None # rest)
            (deliver (concat cs) (deliver (?new @ part) w1))"
        using body [of "None # rest"] unfolding le by simp
      then show ?thesis using short by (simp add: eq' t)
    qed
  qed
qed

lemma RelayResponse_run:
  assumes h: "plain sl" "sl \<noteq> []" "\<forall>l \<in> set ls. l \<noteq> [] \<and> plain l"
    and st: "RewriteHeaders (head_text sl ls) meth = (out, st)" "framing st = kContentLength"
    and w: "willing w" and cs: "[] \<notin> set cs" "concat cs = head_text sl ls @ t"
    and rp: "report_head env u i (status st) rep w = (rep1, w1)"
  shows "body_remaining st \<le> length t \<Longrightarrow> reads s = map Some cs @ later \<Longrightarrow>
      \<exists>s'. RelayResponse env u i meth rep s w = (Some (upstream_keepalive st), rep1, s', deliver (out @ take (body_remaining st) t) w1)"
    and "length t < body_remaining st \<Longrightarrow> reads s = map Some cs @ None # rest \<Longrightarrow>
      RelayResponse env u i meth rep s w = (None, rep1, s\<lparr>reads := rest\<rparr>, deliver (out @ t) w1)"
proof -
  have rs: "response_state meth sl ls = st" "out = head_text sl (map rewrite_line ls)"
    using st(1) RewriteHeaders_head [OF h(1,3)] by simp_all
  have buf: "[] @ concat cs = head_text sl ls @ t" using cs(2) by simp
  note reach = relay_loop_reaches [OF h buf cs(1), of env u i meth rep _ w]
  note run = relay_head_run [OF h rs(1) st(2) w _ _ rp]
  show "\<exists>s'. RelayResponse env u i meth rep s w = (Some (upstream_keepalive st), rep1, s', deliver (out @ take (body_remaining st) t) w1)"
    if le: "body_remaining st \<le> length t" and reads: "reads s = map Some cs @ later"
  proof -
    obtain part cs' where p: "t = part @ concat cs'" "[] \<notin> set cs'"
        "relay_loop env u i meth [] rep (map Some cs @ later) w =
         relay_head env u i meth (head_text sl ls @ part) (length (head_text sl ls) - 4) rep (map Some cs' @ later) w"
      using reach [of later] by blast
    show ?thesis using run [OF p(2,1), of later] le reads p(3) by (auto simp: RelayResponse_def rs(2))
  qed
  show "RelayResponse env u i meth rep s w = (None, rep1, s\<lparr>reads := rest\<rparr>, deliver (out @ t) w1)"
    if lt: "length t < body_remaining st" and reads: "reads s = map Some cs @ None # rest"
  proof -
    obtain part cs' where p: "t = part @ concat cs'" "[] \<notin> set cs'"
        "relay_loop env u i meth [] rep (map Some cs @ None # rest) w =
         relay_head env u i meth (head_text sl ls @ part) (length (head_text sl ls) - 4) rep (map Some cs' @ None # rest) w"
      using reach [of "None # rest"] by blast
    show ?thesis using run [OF p(2,1), of later rest] lt reads p(3) by (simp add: RelayResponse_def rs(2))
  qed
qed

section \<open>A head with a length\<close>

definition names_header :: "string \<Rightarrow> string \<Rightarrow> bool" where
  "names_header k l = (case find_from '':'' l 0 of None \<Rightarrow> False | Some c \<Rightarrow> AsciiCaseEqual (substr l 0 c) k)"

definition header_value :: "string \<Rightarrow> string" where
  "header_value l = (case find_from '':'' l 0 of None \<Rightarrow> [] | Some c \<Rightarrow> dropWhile blank (drop (c + 1) l))"

definition frames :: "string \<Rightarrow> bool" where
  "frames l \<longleftrightarrow> names_header ''content-length'' l \<or> names_header ''transfer-encoding'' l"

definition asks_close :: "string \<Rightarrow> bool" where
  "asks_close l \<longleftrightarrow> names_header ''connection'' l \<and> AsciiCaseEqual (header_value l) ''close''"

definition length_line :: "nat \<Rightarrow> string" where "length_line n = ''Content-Length: '' @ to_string_nat n"

lemma line_state_other: "\<not> frames l \<Longrightarrow> line_state l st = st\<lparr>upstream_keepalive := upstream_keepalive st \<and> \<not> asks_close l\<rparr>"
  by (auto simp: frames_def asks_close_def names_header_def header_value_def line_state_def header_state_def split: option.splits)

lemma line_states_other:
  "list_all (\<lambda>l. \<not> frames l) ls \<Longrightarrow>
   fold line_state ls st = st\<lparr>upstream_keepalive := upstream_keepalive st \<and> \<not> list_ex asks_close ls\<rparr>"
  by (induction ls arbitrary: st) (auto simp: line_state_other)

lemma colon_of_length_line: "find_from '':'' (length_line n) 0 = Some 14"
  by (simp add: find_from_def find_in_char length_line_def)

lemma length_line_state:
  assumes "n < 2 ^ 64"
  shows "line_state (length_line n) st = st\<lparr>framing := kContentLength, body_remaining := n\<rparr>" "\<not> asks_close (length_line n)"
    "rewrite_line (length_line n) = length_line n"
proof -
  have name: "substr (length_line n) 0 14 = ''Content-Length''" by (simp add: length_line_def substr_def)
  have "\<not> blank (hd (to_string_nat n))"
    using to_string_nat_digits [of "hd (to_string_nat n)" n] by (auto simp: blank_def is_digit_def)
  then have val: "dropWhile blank (drop 15 (length_line n)) = to_string_nat n"
    by (cases "to_string_nat n") (simp_all add: length_line_def blank_def)
  have eqs: "AsciiCaseEqual ''Content-Length'' ''content-length''" "\<not> AsciiCaseEqual ''Content-Length'' ''connection''"
      "\<not> AsciiCaseEqual ''Content-Length'' ''server''" by code_simp+
  show "line_state (length_line n) st = st\<lparr>framing := kContentLength, body_remaining := n\<rparr>" "\<not> asks_close (length_line n)"
    "rewrite_line (length_line n) = length_line n"
    using name val eqs from_chars_to_string [OF assms]
    by (simp_all add: line_state_def asks_close_def rewrite_line_def names_header_def colon_of_length_line header_state_def)
qed

definition has_body :: "Method \<Rightarrow> string \<Rightarrow> bool" where
  "has_body meth sl \<longleftrightarrow> \<not> (meth = Head \<or> status_of sl = 204 \<or> status_of sl = 304 \<or> 100 \<le> status_of sl \<and> status_of sl < 200)"

lemma response_state_length:
  assumes "has_body meth sl" "n < 2 ^ 64" "list_all (\<lambda>l. \<not> frames l) (xs @ ys)"
  shows "response_state meth sl (xs @ length_line n # ys) =
    \<lparr>framing = kContentLength, body_remaining = n, upstream_keepalive = \<not> list_ex asks_close (xs @ ys), status = status_of sl\<rparr>"
  using assms
  by (simp add: response_state_def has_body_def Let_def line_states_other length_line_state new_ResponseState_def)

lemma length_line_plain: "plain (length_line n)" "length_line n \<noteq> []"
  using to_string_nat_digits [of CR n] to_string_nat_digits [of LF n]
  by (auto simp: plain_def length_line_def is_digit_def CR_def LF_def)

section \<open>What the client receives\<close>

text \<open>
  The head of a response: a status line and headers, one of them the length of the body, none
  else about its framing.
\<close>

definition sized_head :: "Method \<Rightarrow> string \<Rightarrow> string list \<Rightarrow> nat \<Rightarrow> string list \<Rightarrow> bool" where
  "sized_head meth sl xs n ys \<longleftrightarrow>
     sl \<noteq> [] \<and> plain sl \<and> list_all (\<lambda>l. l \<noteq> [] \<and> plain l \<and> \<not> frames l) (xs @ ys) \<and> n < 2 ^ 64 \<and> has_body meth sl"

abbreviation sized_lines :: "string list \<Rightarrow> nat \<Rightarrow> string list \<Rightarrow> string list" where
  "sized_lines xs n ys \<equiv> xs @ length_line n # ys"

lemma sized_head_parts:
  assumes "sized_head meth sl xs n ys"
  shows "plain sl" "sl \<noteq> []" "\<forall>l \<in> set (sized_lines xs n ys). l \<noteq> [] \<and> plain l"
    "RewriteHeaders (head_text sl (sized_lines xs n ys)) meth =
      (head_text sl (sized_lines (map rewrite_line xs) n (map rewrite_line ys)),
       \<lparr>framing = kContentLength, body_remaining = n, upstream_keepalive = \<not> list_ex asks_close (xs @ ys), status = status_of sl\<rparr>)"
proof -
  show p: "plain sl" "sl \<noteq> []" "\<forall>l \<in> set (sized_lines xs n ys). l \<noteq> [] \<and> plain l"
    using assms by (auto simp: sized_head_def list_all_iff length_line_plain)
  have f: "has_body meth sl" "n < 2 ^ 64" "list_all (\<lambda>l. \<not> frames l) (xs @ ys)"
    using assms by (auto simp: sized_head_def list_all_iff)
  show "RewriteHeaders (head_text sl (sized_lines xs n ys)) meth =
      (head_text sl (sized_lines (map rewrite_line xs) n (map rewrite_line ys)),
       \<lparr>framing = kContentLength, body_remaining = n, upstream_keepalive = \<not> list_ex asks_close (xs @ ys), status = status_of sl\<rparr>)"
    using RewriteHeaders_head [OF p(1,3), of meth] response_state_length [OF f] length_line_state(3) [OF f(2)] by simp
qed

text \<open>
  (C6) A response with a Content-Length is relayed faithfully, in whatever pieces it arrives: the
  client receives the status line, the headers with only \<open>Server\<close> replaced, and exactly the
  body; bytes after it are not passed on.  The upstream connection may be used again just
  when no header asks to close it.
\<close>

theorem relay_faithful:
  assumes head: "sized_head meth sl xs (length body) ys"
    and client: "writes (w_client w) = []"
    and arrives: "reads s = map Some cs @ later" "[] \<notin> set cs"
      "concat cs = head_text sl (sized_lines xs (length body) ys) @ body @ extra"
  shows "let (result, _, _, w') = RelayResponse env use_cb i meth reported s w in
    result = Some (\<not> list_ex asks_close (xs @ ys)) \<and>
    sent (w_client w') = sent (w_client w) @ head_text sl (sized_lines (map rewrite_line xs) (length body) (map rewrite_line ys)) @ body"
proof -
  obtain rep1 w1 where rp: "report_head env use_cb i (status_of sl) reported w = (rep1, w1)" by fastforce
  then have "w_client w1 = w_client w" using report_head_client [of env use_cb i "status_of sl" reported w] by simp
  then show ?thesis
    using RelayResponse_run(1) [OF sized_head_parts [OF head] _ _ arrives(2,3) _ _ arrives(1), where env = env and u = use_cb and i = i and rep = reported and w = w, unfolded ResponseState.simps, OF refl _ rp] client
    by (auto simp: willing_def deliver_def)
qed

lemma client_kept [simp]:
  "w_client (on_peer i g w) = w_client w" "w_client (take_peer i w) = w_client w" "w_client (release_peer i w) = w_client w"
  "w_client (release_upstream w) = w_client w" "w_client (cb_failed env u w) = w_client w"
  "w_client (peer_failed env i w) = w_client w" "w_client (with_stats f env w) = w_client w"
  by (simp_all add: on_peer_def take_peer_def release_peer_def release_upstream_def cb_failed_def peer_failed_def with_stats_def)

lemma lb_select_client: "lb_select env c w = (sel, w') \<Longrightarrow> w_client w' = w_client w"
  by (auto simp: lb_select_def Let_def split: prod.splits)

lemma open_stream_client: "open_stream env i w = (so, w') \<Longrightarrow> w_client w' = w_client w"
  by (auto simp: open_stream_def Let_def split: prod.splits option.splits)

lemma give_up_client:
  assumes "writes (w_client w) = []"
  shows "pf_status (fst (give_up env c i rep w)) = kUpstreamFailed"
    "sent (w_client (snd (give_up env c i rep w))) = sent (w_client w) @ kResp"
proof -
  let ?w = "if \<not> rep then cb_failed env (c_use_cb c) w else w"
  have "willing ?w" "w_client ?w = w_client w" using assms by (auto simp: willing_def)
  then show "pf_status (fst (give_up env c i rep w)) = kUpstreamFailed"
    "sent (w_client (snd (give_up env c i rep w))) = sent (w_client w) @ kResp"
    unfolding give_up_def Let_def Send502_def write_client_willing [OF \<open>willing ?w\<close>]
    by (simp_all add: deliver_def Shutdown_def)
qed

text \<open>
  (C7) Let the request be one that may not be repeated, let the first peer be chosen and reached, take the
  request, and send the head of a response with a \<open>Content-Length\<close> and a part of its body, and
  let the next read then fail with an error.  The client, if it accepts what is
  written to it, has already got the head and that part of the body, and is now sent a complete \<open>502\<close>
  response on the same connection: it reads the start of that response as the rest of the body.
\<close>

theorem aborted_response_gets_502:
  assumes once: "\<not> IsIdempotent (rq_method (c_request c))"
    and chosen: "TryAcquireRequestSlot (w_upstream w) = (True, u)" "lb_select env c (w\<lparr>w_upstream := u\<rparr>) = (Some i, w1)"
    and opened: "open_stream env i (take_peer i w1) = (Some s, w2)" "writes s = []"
    and client: "writes (w_client w) = []"
    and head: "sized_head (rq_method (c_request c)) sl xs n ys"
    and breaks: "reads s = map Some cs @ None # rest" "[] \<notin> set cs"
      "concat cs = head_text sl (sized_lines xs n ys) @ part" "length part < n"
  shows "let (result, w') = Forward env c w in
    pf_status result = kUpstreamFailed \<and>
    sent (w_client w') = sent (w_client w) @ head_text sl (sized_lines (map rewrite_line xs) n (map rewrite_line ys)) @ part @ kResp"
proof -
  define out where "out = BuildRequestInto (header_order env) (c_request c) (peers (w_upstream (take_peer i w1)) ! i) (c_forwarded c)"
  define w3 where "w3 = with_stats RecordUpstreamWrite env (w2\<lparr>w_wire := w_wire w2 @ [(i, out)]\<rparr>)"
  define s1 where "s1 = s\<lparr>sent := sent s @ out\<rparr>"
  have c3: "w_client w3 = w_client w" using lb_select_client [OF chosen(2)] open_stream_client [OF opened(1)] by (simp add: w3_def)
  obtain rep4 w4 where rp: "report_head env (c_use_cb c) i (status_of sl) False w3 = (rep4, w4)" by fastforce
  have c4: "w_client w4 = w_client w" using rp c3 report_head_client [of env "c_use_cb c" i "status_of sl" False w3] by simp
  let ?seen = "head_text sl (sized_lines (map rewrite_line xs) n (map rewrite_line ys)) @ part"
  have relay: "RelayResponse env (c_use_cb c) i (rq_method (c_request c)) False s1 w3 = (None, rep4, s1\<lparr>reads := rest\<rparr>, deliver ?seen w4)"
    using RelayResponse_run(2) [OF sized_head_parts [OF head] _ _ breaks(2,3), where env = env and u = "c_use_cb c" and i = i and rep = False
        and w = w3 and s = s1, unfolded ResponseState.simps, OF refl _ rp] c3 client breaks(1,4) by (simp add: willing_def s1_def)
  let ?w5 = "peer_failed env i (with_stats RecordRelay env (deliver ?seen w4))"
  have c5: "w_client ?w5 = (w_client w)\<lparr>sent := sent (w_client w) @ ?seen\<rparr>" using c4 by (simp add: deliver_def)
  have "attempt env c 2 i False False (take_peer i w1) = Inl (give_up env c i rep4 ?w5)"
    using opened once relay WriteAll_willing [OF opened(2), of out]
    by (simp add: attempt_def Let_def out_def [symmetric] w3_def [symmetric] s1_def [symmetric] fail_over_def)
  then have "Forward env c w = give_up env c i rep4 ?w5"
    using chosen by (simp add: Forward_def forward_loop.simps)
  then show ?thesis using give_up_client [of ?w5 env c i rep4] c5 client by (simp add: case_prod_beta)
qed

section \<open>An exchange\<close>

definition demo_forward_env :: forward_env where
  "demo_forward_env = \<lparr>now_ms = (\<lambda>_. 5), now_ns = (\<lambda>_. 7), draws = (\<lambda>_. demo_env), connect = (\<lambda>_ _ _. None), header_order = id, address = id\<rparr>"

definition demo_stream :: "char stream" where
  "demo_stream = \<lparr>sent = [], writes = [], reads = [], shut_down = False\<rparr>"

definition demo_group :: Upstream where
  "demo_group = AddPeer demo_peer (new_Upstream \<lparr>upstream_name = ''api'', circuit_breaker_cfg = demo_cfg, circuit_breaker_enabled = False,
     max_concurrent_requests = 10, request_timeout = 1000\<rparr>)"

definition demo_world :: world where
  "demo_world = \<lparr>w_upstream = demo_group, w_lb = RoundRobinLB 0, w_pool = new_UpstreamStreamPool
       \<lparr>max_idle_per_peer = 2, max_idle_total = 4, keepalive_timeout_sec = 60, collect_stats = False\<rparr>,
     w_client = demo_stream, w_tick = 0, w_wire = []\<rparr>"

definition demo_call :: call where
  "demo_call = \<lparr>c_request = new_HttpRequest\<lparr>rq_method := Post\<rparr>,
     c_ctx = \<lparr>client_ip = ''1.2'', ctx_uri = ''/'', user_id = [], session_id = []\<rparr>, c_use_cb = False, c_forwarded = demo_forward\<rparr>"

definition demo_head :: string where
  "demo_head = head_text ''HTTP/1.1 200 OK'' (sized_lines [''Server: nginx''] 5 [''Connection: close''])"

lemma demo_sized: "sized_head m ''HTTP/1.1 200 OK'' [''Server: nginx''] 5 [''Connection: close'']" if "m \<noteq> Head"
proof -
  have "\<not> frames ''Server: nginx''" "\<not> frames ''Connection: close''" by code_simp+
  moreover have "status_of ''HTTP/1.1 200 OK'' = 200"
    by (simp add: status_of_def substr_def from_chars_int_def from_chars_def is_digit_def dec_value_def digit_val_def)
  ultimately show ?thesis using that by (simp add: sized_head_def plain_def CR_def LF_def has_body_def)
qed

lemma demo_rewritten: "rewrite_line ''Server: nginx'' = ''Server: runtime-gateway''" "rewrite_line ''Connection: close'' = ''Connection: close''"
  "list_ex asks_close ([''Server: nginx''] @ [''Connection: close''])"
  by code_simp+

lemma demo_head_cut: "[] \<notin> set [take 20 demo_head, drop 20 demo_head @ x]" if "x \<noteq> []"
  using that by (simp add: demo_head_def head_text_def)

theorem relay_faithful_witness:
  "let (result, _, _, w') = RelayResponse demo_forward_env False 0 Get False
       (demo_stream\<lparr>reads := map Some [take 20 demo_head, drop 20 demo_head @ ''helloX''] @ []\<rparr>) demo_world in
   result = Some False \<and>
   sent (w_client w') =
     head_text ''HTTP/1.1 200 OK'' [''Server: runtime-gateway'', ''Content-Length: 5'', ''Connection: close''] @ ''hello''"
proof -
  have five: "length_line 5 = ''Content-Length: 5''" "length ''hello'' = 5" by (code_simp, simp)
  have "sized_head Get ''HTTP/1.1 200 OK'' [''Server: nginx''] (length ''hello'') [''Connection: close'']"
    unfolding five by (rule demo_sized) simp
  moreover have "writes (w_client demo_world) = []" by (simp add: demo_world_def demo_stream_def)
  moreover have "reads (demo_stream\<lparr>reads := map Some [take 20 demo_head, drop 20 demo_head @ ''helloX''] @ []\<rparr>) =
      map Some [take 20 demo_head, drop 20 demo_head @ ''helloX''] @ []" by simp
  moreover have "[] \<notin> set [take 20 demo_head, drop 20 demo_head @ ''helloX'']" by (rule demo_head_cut) simp
  moreover have "concat [take 20 demo_head, drop 20 demo_head @ ''helloX''] =
      head_text ''HTTP/1.1 200 OK'' (sized_lines [''Server: nginx''] (length ''hello'') [''Connection: close'']) @ ''hello'' @ ''X''"
    unfolding five demo_head_def by simp
  ultimately have "let (result, _, _, w') = RelayResponse demo_forward_env False 0 Get False
       (demo_stream\<lparr>reads := map Some [take 20 demo_head, drop 20 demo_head @ ''helloX''] @ []\<rparr>) demo_world in
    result = Some (\<not> list_ex asks_close ([''Server: nginx''] @ [''Connection: close''])) \<and>
    sent (w_client w') = sent (w_client demo_world) @ head_text ''HTTP/1.1 200 OK''
      (sized_lines (map rewrite_line [''Server: nginx'']) (length ''hello'') (map rewrite_line [''Connection: close''])) @ ''hello''"
    by (rule relay_faithful)
  moreover have "sent (w_client demo_world) = []" by (simp add: demo_world_def demo_stream_def)
  ultimately show ?thesis using demo_rewritten unfolding five by (simp add: five case_prod_beta)
qed

theorem aborted_response_gets_502_witness:
  "let s = demo_stream\<lparr>reads := map Some [take 20 demo_head, drop 20 demo_head @ ''he''] @ None # []\<rparr>;
       (result, w') = Forward (demo_forward_env\<lparr>connect := \<lambda>_ _ _. Some s\<rparr>) demo_call demo_world in
   pf_status result = kUpstreamFailed \<and>
   sent (w_client w') =
     head_text ''HTTP/1.1 200 OK'' [''Server: runtime-gateway'', ''Content-Length: 5'', ''Connection: close''] @ ''he'' @ kResp"
proof -
  let ?s = "demo_stream\<lparr>reads := map Some [take 20 demo_head, drop 20 demo_head @ ''he''] @ None # []\<rparr>"
  let ?env = "demo_forward_env\<lparr>connect := \<lambda>_ _ _. Some ?s\<rparr>"
  obtain u where u: "TryAcquireRequestSlot (w_upstream demo_world) = (True, u)" "peers u = [demo_peer]"
    by (simp add: TryAcquireRequestSlot_def demo_world_def demo_group_def AddPeer_def new_Upstream_def)
  have av: "count_avail 5 [demo_peer] = 1" "pick_nth 5 (enumerate 0 [demo_peer]) 0 = Some 0"
    by (simp_all add: count_avail_def demo_peer_def new_UpstreamPeer_def AvailableAt_def IsUp_def int_of_u64_def)
  obtain w1 where w1: "lb_select ?env demo_call (demo_world\<lparr>w_upstream := u\<rparr>) = (Some 0, w1)" "w_pool w1 = w_pool demo_world"
    using u(2) av by (auto simp: lb_select_def demo_world_def RoundRobin_Select_def Let_def demo_forward_env_def)
  have "w_pool (take_peer 0 w1) = w_pool demo_world" using w1(2) by (simp add: take_peer_def on_peer_def)
  then obtain pool where acq: "pool_Acquire (address ?env 0) (w_pool (take_peer 0 w1)) = (None, pool)"
    by (simp add: demo_world_def pool_Acquire_def new_UpstreamStreamPool_def Let_def count_stat_def FindPeer_def)
  obtain w2 where w2: "open_stream ?env 0 (take_peer 0 w1) = (Some ?s, w2)"
    using acq by (auto simp: open_stream_def Let_def)
  have five: "length_line 5 = ''Content-Length: 5''" by code_simp
  have m: "rq_method (c_request demo_call) = Post" by (simp add: demo_call_def)
  have post: "\<not> IsIdempotent (rq_method (c_request demo_call))" by (simp add: m IsIdempotent_def)
  have idle: "writes ?s = []" "writes (w_client demo_world) = []" "sent (w_client demo_world) = []"
    by (simp_all add: demo_world_def demo_stream_def)
  have "sized_head (rq_method (c_request demo_call)) ''HTTP/1.1 200 OK'' [''Server: nginx''] 5 [''Connection: close'']"
    by (rule demo_sized) (simp add: m)
  moreover have "reads ?s = map Some [take 20 demo_head, drop 20 demo_head @ ''he''] @ None # []" by simp
  moreover have "[] \<notin> set [take 20 demo_head, drop 20 demo_head @ ''he'']" by (rule demo_head_cut) simp
  moreover have "concat [take 20 demo_head, drop 20 demo_head @ ''he''] =
      head_text ''HTTP/1.1 200 OK'' (sized_lines [''Server: nginx''] 5 [''Connection: close'']) @ ''he''"
    unfolding demo_head_def by simp
  moreover have "length ''he'' < 5" by simp
  ultimately have "let (result, w') = Forward ?env demo_call demo_world in
    pf_status result = kUpstreamFailed \<and>
    sent (w_client w') = sent (w_client demo_world) @ head_text ''HTTP/1.1 200 OK''
      (sized_lines (map rewrite_line [''Server: nginx'']) 5 (map rewrite_line [''Connection: close''])) @ ''he'' @ kResp"
    by (rule aborted_response_gets_502 [OF post u(1) w1(1) w2 idle(1,2)])
  then show ?thesis using demo_rewritten unfolding Let_def by (simp add: five case_prod_beta idle)
qed

end
