(* ===== verification/GatewayCore.thy ===== *)
theory GatewayCore
  imports ProxyRelay RateLimiter
begin

text \<open>
  The decisions of the gateway, from \<open>gateway_core.h\<close>, \<open>gateway_core.cc\<close> and \<open>fallback_config.h\<close>: the
  table of routes, the rate limits, and what is done with a request.  A handler is a function from
  the request and the fresh response to the response, or to the text of the exception it throws.  A
  pointer to a route is its index, a pointer to an upstream its name.  The readings of the clock of one
  call are those at \<open>t\<close>, \<open>t + 1\<close>, and so on.

  Shown: how a path selects a route; a limit on all requests bounds what gets past the limiter
  over any run; the identifiers the gateway generates for proxied requests are never repeated.
  The counter behind the identifiers is a static variable of the process in the sources and a field of
  the core here: one core is modelled.  The fields of a route that no decision reads (its
  method and whether it takes all methods) are left out.
\<close>

section \<open>State\<close>

record gateway_env =
  ge_forward :: forward_env
  ge_date :: "nat \<Rightarrow> string"
  ge_order :: "HeaderMap \<Rightarrow> HeaderMap"
  ge_address :: "string \<Rightarrow> nat \<Rightarrow> nat"

record FallbackConfig =
  fb_enabled :: bool
  fb_status_code :: StatusCode
  fb_content_type :: string
  fb_body :: string
  pre_rendered :: string

definition default_FallbackConfig :: FallbackConfig where
  "default_FallbackConfig = \<lparr>fb_enabled = False, fb_status_code = ServiceUnavailable,
     fb_content_type = ''application/json; charset=utf-8'',
     fb_body = ''{\"error\":\"service temporarily unavailable\"}'', pre_rendered = []\<rparr>"

definition FallbackConfig_Init :: "gateway_env \<Rightarrow> nat \<Rightarrow> FallbackConfig \<Rightarrow> FallbackConfig" where
  "FallbackConfig_Init env t fb =
     (if \<not> fb_enabled fb then fb
      else fb\<lparr>pre_rendered := ToString (ge_date env t) (ge_order env)
        (set_body (fb_body fb) (set_content_type (fb_content_type fb) (set_status_code (fb_status_code fb) (new_HttpResponse True))))\<rparr>)"

datatype GatewayActionKind = Send | Proxy

datatype RouteType = Direct | ProxyRoute

datatype MatchType = Exact | Prefix

type_synonym Handler = "HttpRequest \<Rightarrow> HttpResponse \<Rightarrow> string + HttpResponse"

record Route =
  r_type :: RouteType
  r_match_type :: MatchType
  r_path :: string
  r_handler :: Handler
  r_upstream_name :: string
  r_lb :: "LoadBalancer option"
  r_fallback :: FallbackConfig
  r_circuit_breaker_enabled :: bool

record ProxyTarget =
  pt_route :: nat
  pt_upstream :: string
  pt_request_ctx :: RequestContext
  pt_circuit_breaker :: bool
  pt_client_ip :: string
  pt_request_id :: string

record Action =
  act_kind :: GatewayActionKind
  act_response :: string
  close_after_send :: bool
  act_proxy :: "ProxyTarget option"

record GatewayCore =
  core_name :: string
  registry :: UpstreamRegistry
  routes :: "Route list"
  rate_limiter :: "RateLimiter option"
  rate_limit_response_429 :: string
  rate_limiter_cfg :: RateLimiterConfig
  request_seq :: u64

section \<open>Responses\<close>

definition SendResponse :: "string \<Rightarrow> bool \<Rightarrow> Action" where
  "SendResponse resp close = \<lparr>act_kind = Send, act_response = resp, close_after_send = close, act_proxy = None\<rparr>"

definition MakeError :: "StatusCode \<Rightarrow> string \<Rightarrow> HttpResponse" where
  "MakeError code msg =
     set_body (''{\"error\":\"'' @ msg @ ''\"}'')
       (set_content_type ''application/json; charset=utf-8'' (set_status_code code (new_HttpResponse True)))"

definition RenderFallback :: "gateway_env \<Rightarrow> nat \<Rightarrow> Route \<Rightarrow> string \<Rightarrow> string" where
  "RenderFallback env t route reason =
     (if fb_enabled (r_fallback route) then pre_rendered (r_fallback route)
      else ToString (ge_date env t) (ge_order env) (MakeError ServiceUnavailable reason))"

definition ProxyUnavailable :: "gateway_env \<Rightarrow> nat \<Rightarrow> Route \<Rightarrow> string \<Rightarrow> Action" where
  "ProxyUnavailable env t route reason = SendResponse (RenderFallback env t route reason) False"

definition HandleParseError :: "gateway_env \<Rightarrow> nat \<Rightarrow> ParseStatus \<Rightarrow> Action" where
  "HandleParseError env t st =
     (let code = ParseStatusToStatusCode st
      in SendResponse (ToString (ge_date env t) (ge_order env) (MakeError code (StatusMessage code))) True)"

section \<open>Set-up\<close>

definition default_RateLimiterConfig :: RateLimiterConfig where
  "default_RateLimiterConfig = \<lparr>global_enabled = False, global_rate = 1000, global_burst = 2000,
     per_ip_enabled = False, per_ip_rate = 10, per_ip_burst = 20, per_ip_max_buckets = 65536\<rparr>"

definition new_GatewayCore :: "gateway_env \<Rightarrow> nat \<Rightarrow> string \<Rightarrow> UpstreamRegistry \<Rightarrow> GatewayCore" where
  "new_GatewayCore env t name reg =
     \<lparr>core_name = name, registry = reg, routes = [], rate_limiter = None,
      rate_limit_response_429 = ToString (ge_date env t) (ge_order env)
        (set_body ''{\"error\":\"rate limit exceeded\"}'' (set_content_type ''application/json; charset=utf-8''
          (set_status_code TooManyRequests (new_HttpResponse True)))),
      rate_limiter_cfg = default_RateLimiterConfig, request_seq = 0\<rparr>"

definition new_Route :: Route where
  "new_Route = \<lparr>r_type = Direct, r_match_type = Exact, r_path = [], r_handler = (\<lambda>_ resp. Inr resp), r_upstream_name = [],
     r_lb = None, r_fallback = default_FallbackConfig, r_circuit_breaker_enabled = False\<rparr>"

definition core_Get :: "string \<Rightarrow> Handler \<Rightarrow> GatewayCore \<Rightarrow> GatewayCore" where
  "core_Get path handler core = core\<lparr>routes := routes core @ [new_Route\<lparr>r_path := path, r_handler := handler\<rparr>]\<rparr>"

definition core_Post :: "string \<Rightarrow> Handler \<Rightarrow> GatewayCore \<Rightarrow> GatewayCore" where
  "core_Post path handler core = core\<lparr>routes := routes core @ [new_Route\<lparr>r_path := path, r_handler := handler\<rparr>]\<rparr>"

definition AddProxyRoute :: "string \<Rightarrow> string \<Rightarrow> string \<Rightarrow> GatewayCore \<Rightarrow> GatewayCore" where
  "AddProxyRoute path upstream algo core =
     core\<lparr>routes := routes core @ [new_Route\<lparr>r_type := ProxyRoute, r_match_type := Prefix, r_path := path,
       r_upstream_name := upstream, r_lb := CreateLoadBalancer algo\<rparr>]\<rparr>"

definition update_upstream :: "string \<Rightarrow> (Upstream \<Rightarrow> Upstream) \<Rightarrow> UpstreamRegistry \<Rightarrow> UpstreamRegistry" where
  "update_upstream n f reg = map (\<lambda>(k, u). if k = n then (k, f u) else (k, u)) reg"

definition AddProxyRoute_fallback ::
    "gateway_env \<Rightarrow> nat \<Rightarrow> string \<Rightarrow> string \<Rightarrow> FallbackConfig \<Rightarrow> bool \<Rightarrow> string \<Rightarrow> GatewayCore \<Rightarrow> GatewayCore" where
  "AddProxyRoute_fallback env t path upstream fallback cb_enabled algo core =
     (let fb = FallbackConfig_Init env t fallback;
          needs_cb = (cb_enabled \<and> (case registry_Find upstream (registry core) of
            None \<Rightarrow> False
          | Some u \<Rightarrow> circuit_breaker_enabled (upstream_config u) \<and> upstream_cb u = None));
          reg = (if needs_cb
                 then update_upstream upstream
                   (\<lambda>u. set_circuit_breaker (Some (new_CircuitBreaker (circuit_breaker_cfg (upstream_config u)))) u) (registry core)
                 else registry core)
      in core\<lparr>registry := reg,
              routes := routes core @ [new_Route\<lparr>r_type := ProxyRoute, r_match_type := Prefix, r_path := path,
                r_upstream_name := upstream, r_lb := CreateLoadBalancer algo, r_fallback := fb,
                r_circuit_breaker_enabled := cb_enabled\<rparr>]\<rparr>)"

definition EnableRateLimit :: "u64 \<Rightarrow> RateLimiterConfig \<Rightarrow> GatewayCore \<Rightarrow> GatewayCore" where
  "EnableRateLimit now cfg core =
     core\<lparr>rate_limiter_cfg := cfg,
          rate_limiter := (if global_enabled cfg \<or> per_ip_enabled cfg then Some (new_RateLimiter now cfg) else None)\<rparr>"

definition EnableGlobalRateLimit :: "u64 \<Rightarrow> double \<Rightarrow> double \<Rightarrow> GatewayCore \<Rightarrow> GatewayCore" where
  "EnableGlobalRateLimit now rate burst core =
     (let cfg = (rate_limiter_cfg core)\<lparr>global_enabled := True, global_rate := rate, global_burst := burst\<rparr>
      in core\<lparr>rate_limiter_cfg := cfg, rate_limiter := Some (new_RateLimiter now cfg)\<rparr>)"

definition EnablePerIPRateLimit :: "u64 \<Rightarrow> double \<Rightarrow> double \<Rightarrow> GatewayCore \<Rightarrow> GatewayCore" where
  "EnablePerIPRateLimit now rate burst core =
     (let cfg = (rate_limiter_cfg core)\<lparr>per_ip_enabled := True, per_ip_rate := rate, per_ip_burst := burst\<rparr>
      in core\<lparr>rate_limiter_cfg := cfg, rate_limiter := Some (new_RateLimiter now cfg)\<rparr>)"

section \<open>Requests\<close>

definition prefix_matches :: "string \<Rightarrow> Route \<Rightarrow> bool" where
  "prefix_matches path route \<longleftrightarrow>
     r_match_type route = Prefix \<and> prefix (r_path route) path \<and>
     (length path = length (r_path route) \<or> r_path route = [] \<or> last (r_path route) = CHR ''/'' \<or>
      path ! length (r_path route) = CHR ''/'')"

fun find_index :: "('a \<Rightarrow> bool) \<Rightarrow> 'a list \<Rightarrow> nat option" where
  "find_index P [] = None"
| "find_index P (x # xs) = (if P x then Some 0 else map_option Suc (find_index P xs))"

definition MatchRoute :: "string \<Rightarrow> Route list \<Rightarrow> nat option" where
  "MatchRoute path rs =
     (case find_index (\<lambda>r. r_match_type r = Exact \<and> r_path r = path) rs of
        Some i \<Rightarrow> Some i
      | None \<Rightarrow> find_index (prefix_matches path) rs)"

definition hex_digit :: "nat \<Rightarrow> char" where "hex_digit d = ''0123456789abcdef'' ! d"

definition hex16 :: "u64 \<Rightarrow> string" where
  "hex16 w = map (\<lambda>i. hex_digit (unat w div 16 ^ i mod 16)) (rev [0..<16])"

definition GenRequestId :: "int \<Rightarrow> u64 \<Rightarrow> string" where
  "GenRequestId ts n = hex16 (word_of_int ts) @ ''-'' @ hex16 n"

text \<open>The limiter, asked for all requests and then for the address: whether the request may pass.\<close>

definition limit_request :: "gateway_env \<Rightarrow> nat \<Rightarrow> string \<Rightarrow> GatewayCore \<Rightarrow> bool \<times> GatewayCore" where
  "limit_request env t ip core =
     (case rate_limiter core of
        None \<Rightarrow> (True, core)
      | Some rl \<Rightarrow>
          let now = now_ms (ge_forward env);
              (global_ok, rl1) = AllowGlobal (now t) rl;
              (per_ip_ok, rl2) = (if global_ok then AllowPerIP (now (t + 1)) (now (t + 2)) (now (t + 3)) ip rl1 else (False, rl1))
          in (global_ok \<and> per_ip_ok, core\<lparr>rate_limiter := Some rl2\<rparr>))"

definition HandleProxyRoute ::
    "gateway_env \<Rightarrow> nat \<Rightarrow> HttpRequest \<Rightarrow> string \<Rightarrow> nat \<Rightarrow> GatewayCore \<Rightarrow> Action \<times> GatewayCore" where
  "HandleProxyRoute env t req ip i core =
     (let route = routes core ! i; name = r_upstream_name route in
      case registry_Find name (registry core) of
        None \<Rightarrow> (SendResponse (RenderFallback env (t + 6) route (''upstream not found: '' @ name)) False, core)
      | Some u \<Rightarrow>
          let cb = (if r_circuit_breaker_enabled route then upstream_cb u else None);
              now = now_ms (ge_forward env);
              (allowed, core1) =
                (case cb of
                   None \<Rightarrow> (True, core)
                 | Some b \<Rightarrow> let (ok, b') = AllowRequest (now (t + 4)) (now (t + 5)) b
                     in (ok, core\<lparr>registry := update_upstream name (set_circuit_breaker (Some b')) (registry core)\<rparr>))
          in if \<not> allowed then (SendResponse (RenderFallback env (t + 6) route ''circuit open'') False, core1)
             else
               (\<lparr>act_kind = Proxy, act_response = [], close_after_send = False,
                 act_proxy = Some \<lparr>pt_route = i, pt_upstream = name,
                   pt_request_ctx = \<lparr>client_ip = ip, ctx_uri = rq_path req, user_id = [], session_id = []\<rparr>,
                   pt_circuit_breaker = (cb \<noteq> None), pt_client_ip = ip,
                   pt_request_id = GenRequestId (now_ns (ge_forward env) (t + 7)) (request_seq core1)\<rparr>\<rparr>,
                core1\<lparr>request_seq := request_seq core1 + 1\<rparr>))"

definition HandleDirectRoute :: "gateway_env \<Rightarrow> nat \<Rightarrow> HttpRequest \<Rightarrow> Route \<Rightarrow> Action" where
  "HandleDirectRoute env t req route =
     (let resp = (case r_handler route req (new_HttpResponse (\<not> keep_alive req)) of
            Inr resp \<Rightarrow> resp
          | Inl what \<Rightarrow> set_close_connection True (MakeError InternalServerError what))
      in SendResponse (ToString (ge_date env (t + 6)) (ge_order env) resp) (rs_close_connection resp))"

definition HandleRequest ::
    "gateway_env \<Rightarrow> nat \<Rightarrow> HttpRequest \<Rightarrow> string \<Rightarrow> GatewayCore \<Rightarrow> Action \<times> GatewayCore" where
  "HandleRequest env t req ip core =
     (let (passed, core1) = limit_request env t ip core in
      if \<not> passed then (SendResponse (rate_limit_response_429 core1) False, core1)
      else case MatchRoute (rq_path req) (routes core1) of
        None \<Rightarrow> (SendResponse (ToString (ge_date env (t + 6)) (ge_order env) (MakeError NotFound ''not found'')) False, core1)
      | Some i \<Rightarrow>
          if r_type (routes core1 ! i) = ProxyRoute then HandleProxyRoute env t req ip i core1
          else (HandleDirectRoute env t req (routes core1 ! i), core1))"

definition MakeForwardedContext :: "ProxyTarget \<Rightarrow> GatewayCore \<Rightarrow> ForwardedHeaderContext" where
  "MakeForwardedContext pt core = \<lparr>fwd_client_ip = pt_client_ip pt, fwd_scheme = ''http'', fwd_gateway_name = core_name core,
     fwd_request_id = pt_request_id pt\<rparr>"

section \<open>Which route\<close>

lemma find_index_Some:
  "find_index P xs = Some i \<longleftrightarrow> i < length xs \<and> P (xs ! i) \<and> (\<forall>j < i. \<not> P (xs ! j))"
proof (induction xs arbitrary: i)
  case (Cons x xs)
  show ?case by (cases i) (auto simp: Cons.IH less_Suc_eq_0_disj)
qed simp

lemma find_index_None: "find_index P xs = None \<longleftrightarrow> (\<forall>x \<in> set xs. \<not> P x)"
  by (induction xs) auto

text \<open>A prefix route covers its own path and what lies below it.\<close>

lemma prefix_matches_below:
  "prefix_matches path r \<longleftrightarrow> r_match_type r = Prefix \<and>
     (path = r_path r \<or> (\<exists>rest. path = r_path r @ CHR ''/'' # rest) \<or>
      (r_path r = [] \<or> last (r_path r) = CHR ''/'') \<and> prefix (r_path r) path)"
proof -
  have at: "prefix_matches (r_path r @ rest) r \<longleftrightarrow> r_match_type r = Prefix \<and>
      (rest = [] \<or> (\<exists>u. rest = CHR ''/'' # u) \<or> r_path r = [] \<or> last (r_path r) = CHR ''/'')" for rest
    by (cases rest) (simp_all add: prefix_matches_def, blast)
  show ?thesis
  proof (cases "prefix (r_path r) path")
    case True
    then obtain rest where path: "path = r_path r @ rest" by (auto simp: prefix_def)
    show ?thesis using True unfolding path at by simp
  next
    case False
    then have "path \<noteq> r_path r" "path \<noteq> r_path r @ rest" for rest by auto
    then show ?thesis using False by (simp add: prefix_matches_def)
  qed
qed

text \<open>
  Routing: a route for exactly the path wins, the first registered of them; otherwise the
  first registered prefix route that covers the path wins, where a route covers its own
  path and the paths below it, but not a longer name that merely starts like it.
\<close>

lemma route_choice:
  "case MatchRoute path rs of
     None \<Rightarrow> \<forall>r \<in> set rs. \<not> (r_match_type r = Exact \<and> r_path r = path) \<and> \<not> prefix_matches path r
   | Some i \<Rightarrow> i < length rs \<and>
       (if \<exists>r \<in> set rs. r_match_type r = Exact \<and> r_path r = path
        then r_match_type (rs ! i) = Exact \<and> r_path (rs ! i) = path \<and>
          (\<forall>j < i. \<not> (r_match_type (rs ! j) = Exact \<and> r_path (rs ! j) = path))
        else r_match_type (rs ! i) = Prefix \<and>
          (path = r_path (rs ! i) \<or> (\<exists>rest. path = r_path (rs ! i) @ CHR ''/'' # rest) \<or>
           (r_path (rs ! i) = [] \<or> last (r_path (rs ! i)) = CHR ''/'') \<and> prefix (r_path (rs ! i)) path) \<and>
          (\<forall>j < i. \<not> prefix_matches path (rs ! j)))"
proof (cases "find_index (\<lambda>r. r_match_type r = Exact \<and> r_path r = path) rs")
  case None
  then show ?thesis
    using find_index_None [of "\<lambda>r. r_match_type r = Exact \<and> r_path r = path" rs]
    by (auto simp: MatchRoute_def find_index_None find_index_Some prefix_matches_below [of path "rs ! _"] split: option.split)
next
  case (Some i)
  then show ?thesis
    using find_index_Some [of "\<lambda>r. r_match_type r = Exact \<and> r_path r = path" rs i]
    by (auto simp: MatchRoute_def intro: nth_mem)
qed

section \<open>The limit on all requests\<close>

type_synonym request_call = "nat \<times> HttpRequest \<times> string"

fun handle_all :: "gateway_env \<Rightarrow> request_call list \<Rightarrow> GatewayCore \<Rightarrow> Action list \<times> GatewayCore" where
  "handle_all env [] core = ([], core)"
| "handle_all env ((t, req, ip) # cs) core =
     (let (a, core1) = HandleRequest env t req ip core; (rest, core2) = handle_all env cs core1 in (a # rest, core2))"

definition refused :: "GatewayCore \<Rightarrow> Action \<Rightarrow> bool" where
  "refused core a \<longleftrightarrow> a = SendResponse (rate_limit_response_429 core) False"

lemma HandleProxyRoute_core:
  "HandleProxyRoute env t req ip i core = (a, core') \<Longrightarrow>
   rate_limiter core' = rate_limiter core \<and> rate_limit_response_429 core' = rate_limit_response_429 core \<and> routes core' = routes core \<and>
   core_name core' = core_name core"
  by (auto simp: HandleProxyRoute_def Let_def split: option.splits prod.splits if_splits)

lemma HandleRequest_core:
  assumes "HandleRequest env t req ip core = (a, core')"
  shows "rate_limiter core' = rate_limiter (snd (limit_request env t ip core))"
    "rate_limit_response_429 core' = rate_limit_response_429 core"
    "\<not> fst (limit_request env t ip core) \<Longrightarrow> refused core a"
proof -
  obtain ok core1 where l: "limit_request env t ip core = (ok, core1)" by fastforce
  have r: "rate_limit_response_429 core1 = rate_limit_response_429 core"
    using l by (auto simp: limit_request_def Let_def split: option.splits prod.splits)
  show "rate_limiter core' = rate_limiter (snd (limit_request env t ip core))"
    "rate_limit_response_429 core' = rate_limit_response_429 core"
    using assms l r HandleProxyRoute_core
    by (auto simp: HandleRequest_def split: if_splits option.splits)
  show "refused core a" if "\<not> fst (limit_request env t ip core)"
    using assms l r that by (auto simp: HandleRequest_def refused_def)
qed

lemma AllowPerIP_global: "AllowPerIP a b c ip rl = (ok, rl') \<Longrightarrow> global_bucket rl' = global_bucket rl \<and> rl_config rl' = rl_config rl"
  by (auto simp: AllowPerIP_def EvictFullBucketsLocked_def Let_def split: option.splits prod.splits if_splits)

lemma limit_request_global:
  assumes "rate_limiter core = Some rl" "global_enabled (rl_config rl)"
  shows "\<exists>rl'. rate_limiter (snd (limit_request env t ip core)) = Some rl' \<and> rl_config rl' = rl_config rl \<and>
      global_bucket rl' = snd (TryConsume (now_ms (ge_forward env) t) (global_bucket rl))"
    and "fst (limit_request env t ip core) \<Longrightarrow> fst (TryConsume (now_ms (ge_forward env) t) (global_bucket rl))"
  using assms
  by (auto simp: limit_request_def AllowGlobal_def Let_def split: prod.splits if_splits dest!: AllowPerIP_global)

lemma handle_all_admits:
  assumes "rate_limiter core = Some rl" "global_enabled (rl_config rl)"
  shows "length (filter (\<lambda>a. \<not> refused core a) (fst (handle_all env cs core)))
    \<le> fst (consume_all (global_bucket rl) (map (now_ms (ge_forward env) \<circ> fst) cs))"
  using assms
proof (induction cs arbitrary: core rl)
  case (Cons c cs)
  obtain t req ip where c: "c = (t, req, ip)" by (metis prod_cases3)
  obtain a core1 where h: "HandleRequest env t req ip core = (a, core1)" by fastforce
  obtain rl1 where rl1: "rate_limiter core1 = Some rl1" "rl_config rl1 = rl_config rl"
      "global_bucket rl1 = snd (TryConsume (now_ms (ge_forward env) t) (global_bucket rl))"
    using limit_request_global(1) [OF Cons.prems] HandleRequest_core(1) [OF h] by metis
  have "refused core1 = refused core" using HandleRequest_core(2) [OF h] by (simp add: refused_def fun_eq_iff)
  moreover have "length (filter (\<lambda>a. \<not> refused core1 a) (fst (handle_all env cs core1)))
      \<le> fst (consume_all (global_bucket rl1) (map (now_ms (ge_forward env) \<circ> fst) cs))"
    by (rule Cons.IH) (use rl1 Cons.prems in simp_all)
  moreover have "\<not> refused core a \<Longrightarrow> fst (TryConsume (now_ms (ge_forward env) t) (global_bucket rl))"
    using HandleRequest_core(3) [OF h] limit_request_global(2) [OF Cons.prems] by blast
  ultimately show ?case using h c rl1(3) by (auto simp: fst_consume_all case_prod_beta comp_def)
qed simp

text \<open>
  (C4) With a limit on all requests, however routes, handlers, breakers and per-address limits
  behave, the requests of any run that are not answered with \<open>429\<close> number at most the burst plus the rate
  times the time passed, up to the rounding of the bucket's arithmetic.
\<close>

theorem gateway_rate_bound:
  assumes "0 \<le> rate" "0 \<le> burst" "steady_from now (map (now_ms (ge_forward env) \<circ> fst) cs)"
  shows "let core = EnableGlobalRateLimit now rate burst core0;
      admitted = filter (\<lambda>a. a \<noteq> SendResponse (rate_limit_response_429 core) False) (fst (handle_all env cs core));
      elapsed = of_nat (unat (last (now # map (now_ms (ge_forward env) \<circ> fst) cs)) - unat now) in
    of_nat (length admitted) \<le> burst * eps + rate * (elapsed / 1000) * eps ^ 4"
proof -
  define core where "core = EnableGlobalRateLimit now rate burst core0"
  define b where "b = new_TokenBucket now rate burst"
  obtain rl where rl: "rate_limiter core = Some rl" "global_enabled (rl_config rl)" "global_bucket rl = b"
    by (simp add: core_def EnableGlobalRateLimit_def Let_def new_RateLimiter_def b_def)
  have new: "tb_rate b = rate" "tb_burst b = burst" "scaled_tokens b = burst_scaled burst" "last_refill_ms b = now"
    by (simp_all add: b_def new_TokenBucket_def)
  let ?ts = "map (now_ms (ge_forward env) \<circ> fst) cs"
  have "of_nat (length (filter (\<lambda>a. \<not> refused core a) (fst (handle_all env cs core)))) \<le> (of_nat (fst (consume_all b ?ts)) :: rat)"
    using handle_all_admits [OF rl(1,2), of env cs] by (simp add: rl(3))
  also have "\<dots> \<le> burst * eps + rate * (of_nat (unat (last (now # ?ts)) - unat now) / 1000) * eps ^ 4"
    using admitted_bound [of b ?ts] assms by (simp add: new)
  finally show ?thesis by (simp add: Let_def core_def [symmetric] refused_def)
qed

definition demo_gateway_env :: gateway_env where
  "demo_gateway_env = \<lparr>ge_forward = \<lparr>now_ms = of_nat, now_ns = int, draws = (\<lambda>_. demo_env), connect = (\<lambda>_ _ _. None), header_order = id, address = id\<rparr>,
     ge_date = (\<lambda>_. ''today''), ge_order = id, ge_address = (\<lambda>_. id)\<rparr>"

theorem gateway_rate_bound_witness:
  "let core = EnableGlobalRateLimit 0 10 2 (new_GatewayCore demo_gateway_env 0 ''g'' []);
       calls = [(0, new_HttpRequest, ''a''), (10, new_HttpRequest, ''b''), (100, new_HttpRequest, ''a'')];
       admitted = filter (\<lambda>a. a \<noteq> SendResponse (rate_limit_response_429 core) False) (fst (handle_all demo_gateway_env calls core)) in
   of_nat (length admitted) \<le> 2 * eps + 10 * (100 / 1000) * eps ^ 4"
proof -
  let ?cs = "[(0, new_HttpRequest, ''a''), (10, new_HttpRequest, ''b''), (100, new_HttpRequest, ''a'')] :: request_call list"
  have "steady_from 0 (map (now_ms (ge_forward demo_gateway_env) \<circ> fst) ?cs)"
    by (simp add: demo_gateway_env_def word_le_nat_alt word_less_nat_alt)
  from gateway_rate_bound [OF _ _ this, of 10 2 "new_GatewayCore demo_gateway_env 0 ''g'' []"] show ?thesis
    by (simp add: demo_gateway_env_def Let_def)
qed

section \<open>Request identifiers\<close>

lemma digits_determine:
  "(\<forall>i < k. (a :: nat) div 16 ^ i mod 16 = b div 16 ^ i mod 16) \<Longrightarrow> a mod 16 ^ k = b mod 16 ^ k"
proof (induction k)
  case (Suc k)
  have "x mod 16 ^ Suc k = 16 ^ k * (x div 16 ^ k mod 16) + x mod 16 ^ k" for x :: nat
    using mod_mult2_eq [of x "16 ^ k" 16] by (simp add: mult.commute)
  then show ?case using Suc by simp
qed simp

lemma hex_digit_inject: "m < 16 \<Longrightarrow> n < 16 \<Longrightarrow> hex_digit m = hex_digit n \<longleftrightarrow> m = n"
proof -
  have "distinct ''0123456789abcdef''" by code_simp
  then show "m < 16 \<Longrightarrow> n < 16 \<Longrightarrow> ?thesis"
    unfolding hex_digit_def by (subst nth_eq_iff_index_eq) simp_all
qed

lemma length_hex16 [simp]: "length (hex16 w) = 16"
  by (simp add: hex16_def)

lemma hex16_inject: "hex16 v = hex16 w \<longleftrightarrow> v = w"
proof
  assume "hex16 v = hex16 w"
  then have "\<forall>i < 16. unat v div 16 ^ i mod 16 = unat w div 16 ^ i mod 16"
    by (auto simp: hex16_def map_eq_conv hex_digit_inject)
  then have "unat v mod 16 ^ 16 = unat w mod 16 ^ 16" by (rule digits_determine)
  moreover have "unat v < 16 ^ 16" "unat w < 16 ^ 16" using unsigned_less [of v] unsigned_less [of w] by simp_all
  ultimately have "unat v = unat w" by simp
  then show "v = w" by (simp add: word_unat_eq_iff)
qed simp

lemma GenRequestId_inject: "GenRequestId ts m = GenRequestId us n \<Longrightarrow> m = n"
  by (simp add: GenRequestId_def hex16_inject)

definition action_id :: "Action \<Rightarrow> string option" where
  "action_id a = map_option pt_request_id (act_proxy a)"

lemma HandleRequest_id:
  assumes "HandleRequest env t req ip core = (a, core')"
  shows "(action_id a = None \<and> request_seq core' = request_seq core) \<or>
    (\<exists>ts. action_id a = Some (GenRequestId ts (request_seq core)) \<and> request_seq core' = request_seq core + 1)"
proof -
  obtain ok core1 where l: "limit_request env t ip core = (ok, core1)" by fastforce
  have "request_seq core1 = request_seq core"
    using l by (auto simp: limit_request_def Let_def split: option.splits prod.splits)
  then show ?thesis
    using assms l
    by (auto simp: HandleRequest_def HandleProxyRoute_def HandleDirectRoute_def SendResponse_def action_id_def Let_def
        split: if_splits option.splits prod.splits)
qed

lemma handle_all_ids:
  "length cs < 2 ^ 64 \<Longrightarrow>
   \<exists>ids. map action_id (filter (\<lambda>a. action_id a \<noteq> None) (fst (handle_all env cs core))) =
       map (\<lambda>(ts, k). Some (GenRequestId ts (request_seq core + of_nat k))) ids \<and>
     distinct (map snd ids) \<and> (\<forall>x \<in> set ids. snd x < length cs)"
proof (induction cs arbitrary: core)
  case (Cons c cs)
  obtain t req ip where c: "c = (t, req, ip)" by (metis prod_cases3)
  obtain a core1 where h: "HandleRequest env t req ip core = (a, core1)" by fastforce
  obtain ids where ids: "map action_id (filter (\<lambda>a. action_id a \<noteq> None) (fst (handle_all env cs core1))) =
       map (\<lambda>(ts, k). Some (GenRequestId ts (request_seq core1 + of_nat k))) ids"
     "distinct (map snd ids)" "\<forall>x \<in> set ids. snd x < length cs"
    using Cons.IH [of core1] Cons.prems by auto
  from HandleRequest_id [OF h] show ?case
  proof
    assume "action_id a = None \<and> request_seq core1 = request_seq core"
    then show ?thesis using ids c h by (intro exI [of _ ids]) (auto simp: case_prod_beta)
  next
    assume "\<exists>ts. action_id a = Some (GenRequestId ts (request_seq core)) \<and> request_seq core1 = request_seq core + 1"
    then obtain ts where ts: "action_id a = Some (GenRequestId ts (request_seq core))" "request_seq core1 = request_seq core + 1" by blast
    show ?thesis
      by (rule exI [of _ "(ts, 0) # map (\<lambda>(ts, k). (ts, Suc k)) ids"])
        (use ids ts c h in \<open>auto simp: case_prod_beta comp_def distinct_map inj_on_def add.assoc\<close>)
  qed
qed simp

text \<open>
  (C5) The identifiers the gateway generates for the requests it hands to an upstream are all
  different, in any run shorter than the range of the counter and whatever the clock reads.  (A request
  that brings its own \<open>X-Request-ID\<close> is forwarded under that one.)
\<close>

theorem request_ids_unique:
  assumes "length cs < 2 ^ 64"
  shows "distinct (map (pt_request_id \<circ> the \<circ> act_proxy) (filter (\<lambda>a. act_proxy a \<noteq> None) (fst (handle_all env cs core))))"
proof -
  obtain ids where ids: "map action_id (filter (\<lambda>a. action_id a \<noteq> None) (fst (handle_all env cs core))) =
       map (\<lambda>(ts, k). Some (GenRequestId ts (request_seq core + of_nat k))) ids"
     "distinct (map snd ids)" "\<forall>x \<in> set ids. snd x < length cs"
    using handle_all_ids [OF assms] by blast
  have "unat (of_nat i :: u64) = i" if "i < 2 ^ 64" for i :: nat
    using that by (simp add: unsigned_of_nat take_bit_nat_eq_self)
  then have inj: "i = j" if "i < 2 ^ 64" "j < 2 ^ 64" "(of_nat i :: u64) = of_nat j" for i j :: nat
    using that by metis
  have "inj_on (\<lambda>(ts, k). Some (GenRequestId ts (request_seq core + of_nat k))) (set ids)"
  proof (rule inj_onI)
    fix x y assume xy: "x \<in> set ids" "y \<in> set ids"
      "(\<lambda>(ts, k). Some (GenRequestId ts (request_seq core + of_nat k))) x = (\<lambda>(ts, k). Some (GenRequestId ts (request_seq core + of_nat k))) y"
    then have "(of_nat (snd x) :: u64) = of_nat (snd y)" by (auto simp: case_prod_beta dest: GenRequestId_inject)
    moreover have "snd x < 2 ^ 64" "snd y < 2 ^ 64" using ids(3) xy(1,2) assms by fastforce+
    ultimately have "snd x = snd y" using inj by blast
    then show "x = y" using ids(2) xy(1,2) by (simp add: distinct_map inj_on_def)
  qed
  then have "distinct (map action_id (filter (\<lambda>a. action_id a \<noteq> None) (fst (handle_all env cs core))))"
    unfolding ids(1) using ids(2) by (simp add: distinct_map)
  moreover have "map action_id (filter (\<lambda>a. action_id a \<noteq> None) as) =
      map Some (map (pt_request_id \<circ> the \<circ> act_proxy) (filter (\<lambda>a. act_proxy a \<noteq> None) as))" for as
    by (induction as) (auto simp: action_id_def)
  ultimately have "distinct (map Some (map (pt_request_id \<circ> the \<circ> act_proxy)
      (filter (\<lambda>a. act_proxy a \<noteq> None) (fst (handle_all env cs core)))))" by simp
  then show ?thesis unfolding distinct_map [of Some] by blast
qed

theorem request_ids_unique_witness:
  "let core = AddProxyRoute ''/'' ''api'' ''p2c'' (new_GatewayCore demo_gateway_env 0 ''g'' [(''api'', demo_group)]);
       calls = [(0, new_HttpRequest\<lparr>rq_path := ''/a''\<rparr>, ''a''), (0, new_HttpRequest\<lparr>rq_path := ''/b''\<rparr>, ''b'')];
       proxied = filter (\<lambda>a. act_proxy a \<noteq> None) (fst (handle_all demo_gateway_env calls core)) in
   length proxied = 2 \<and> distinct (map (pt_request_id \<circ> the \<circ> act_proxy) proxied)"
proof -
  let ?core = "AddProxyRoute ''/'' ''api'' ''p2c'' (new_GatewayCore demo_gateway_env 0 ''g'' [(''api'', demo_group)])"
  let ?calls = "[(0, new_HttpRequest\<lparr>rq_path := ''/a''\<rparr>, ''a''), (0, new_HttpRequest\<lparr>rq_path := ''/b''\<rparr>, ''b'')] :: request_call list"
  have "length (filter (\<lambda>a. act_proxy a \<noteq> None) (fst (handle_all demo_gateway_env ?calls ?core))) = 2"
    by (simp add: AddProxyRoute_def new_GatewayCore_def HandleRequest_def limit_request_def MatchRoute_def new_Route_def
        prefix_matches_def HandleProxyRoute_def registry_Find_def Let_def)
  moreover have "distinct (map (pt_request_id \<circ> the \<circ> act_proxy)
      (filter (\<lambda>a. act_proxy a \<noteq> None) (fst (handle_all demo_gateway_env ?calls ?core))))"
    by (rule request_ids_unique) simp
  ultimately show ?thesis by (simp add: Let_def)
qed

end
