(* ===== verification/Session.thy ===== *)
theory Session
  imports GatewayCore
begin

text \<open>
  The service of one client connection, from \<open>gateway_session_service.h\<close>: reading, parsing, deciding,
  answering or forwarding, until the connection ends.  The reads of the client stream are a
  list of byte strings of any length; \<open>None\<close> as a result stands for the use of a null pointer.

  Shown: a connection that carries well-formed requests, cut into reads in any way, is served as
  the sequence of these requests, each answered before the next is considered; serving a
  connection leaves the counters of every upstream as they were; a connection is served to its end when
  every proxy route has a strategy; a connection on which an error
  response announced that it closes is kept open.
\<close>

section \<open>State and operations\<close>

record session =
  s_core :: GatewayCore
  s_pool :: "char stream UpstreamStreamPool"
  s_client :: "char stream"
  s_parser :: HttpParser
  s_closed :: bool
  s_tick :: nat
  s_wire :: "(nat \<times> string) list"

definition Close :: "session \<Rightarrow> session" where "Close s = s\<lparr>s_closed := True\<rparr>"

definition HandleParseStatus :: "gateway_env \<Rightarrow> ParseStatus \<Rightarrow> session \<Rightarrow> bool \<times> session" where
  "HandleParseStatus env st s =
     (if st = Continue \<or> st = GotAll then (True, s)
      else
        let action = HandleParseError env (s_tick s) st;
            (written, c) = WriteAll (act_response action) (s_client s)
        in (False, s\<lparr>s_client := (if close_after_send action \<and> written then Shutdown c else c), s_tick := s_tick s + 1\<rparr>))"

definition send_action :: "Action \<Rightarrow> session \<Rightarrow> bool \<times> session" where
  "send_action action s =
     (let (written, c) = WriteAll (act_response action) (s_client s) in
      if \<not> written then (False, s\<lparr>s_client := c\<rparr>)
      else if close_after_send action then (False, s\<lparr>s_client := Shutdown c\<rparr>)
      else (True, s\<lparr>s_client := c\<rparr>))"

text \<open>What \<open>Forward\<close> gets and leaves behind: the upstream and the strategy of the route are changed in place.\<close>

definition forward_world :: "Upstream \<Rightarrow> LoadBalancer \<Rightarrow> session \<Rightarrow> world" where
  "forward_world u lb s = \<lparr>w_upstream = u, w_lb = lb, w_pool = s_pool s, w_client = s_client s, w_tick = s_tick s, w_wire = s_wire s\<rparr>"

definition after_forward :: "ProxyTarget \<Rightarrow> world \<Rightarrow> session \<Rightarrow> session" where
  "after_forward pt w s =
     (let core = s_core s; i = pt_route pt in
      s\<lparr>s_core := core\<lparr>registry := update_upstream (pt_upstream pt) (\<lambda>_. w_upstream w) (registry core),
                       routes := (routes core)[i := (routes core ! i)\<lparr>r_lb := Some (w_lb w)\<rparr>]\<rparr>,
        s_pool := w_pool w, s_client := w_client w, s_tick := w_tick w, s_wire := w_wire w\<rparr>)"

definition proxy_action :: "gateway_env \<Rightarrow> HttpRequest \<Rightarrow> ProxyTarget \<Rightarrow> session \<Rightarrow> (bool \<times> session) option" where
  "proxy_action env req pt s =
     (let core = s_core s; route = routes core ! pt_route pt in
      case (registry_Find (pt_upstream pt) (registry core), r_lb route) of
        (Some u, Some lb) \<Rightarrow>
          let (result, w) = Forward ((ge_forward env)\<lparr>address := ge_address env (pt_upstream pt)\<rparr>)
                \<lparr>c_request = req, c_ctx = pt_request_ctx pt, c_use_cb = pt_circuit_breaker pt,
                 c_forwarded = MakeForwardedContext pt core\<rparr> (forward_world u lb s);
              s1 = after_forward pt w s
          in Some
            (case pf_status result of
               kNoPeer \<Rightarrow>
                 let fallback = ProxyUnavailable env (s_tick s1) route ''no available upstream peer''
                 in (True, s1\<lparr>s_client := snd (WriteAll (act_response fallback) (s_client s1)), s_tick := s_tick s1 + 1\<rparr>)
             | kClientClosed \<Rightarrow> (False, s1)
             | kUpstreamFailed \<Rightarrow> (False, s1)
             | kCompleted \<Rightarrow> (True, s1))
      | _ \<Rightarrow> None)"

definition ApplyAction :: "gateway_env \<Rightarrow> HttpRequest \<Rightarrow> Action \<Rightarrow> session \<Rightarrow> (bool \<times> session) option" where
  "ApplyAction env req action s =
     (if act_kind action = Send then Some (send_action action s)
      else case act_proxy action of None \<Rightarrow> None | Some pt \<Rightarrow> proxy_action env req pt s)"

text \<open>One request: the decision and its execution.\<close>

definition respond :: "gateway_env \<Rightarrow> string \<Rightarrow> HttpRequest \<Rightarrow> session \<Rightarrow> (bool \<times> session) option" where
  "respond env ip req s =
     (let (action, core1) = HandleRequest env (s_tick s) req ip (s_core s)
      in ApplyAction env req action (s\<lparr>s_core := core1, s_tick := s_tick s + 8\<rparr>))"

definition serve_one :: "gateway_env \<Rightarrow> string \<Rightarrow> session \<Rightarrow> (bool \<times> session) option" where
  "serve_one env ip s =
     (case respond env ip (request (s_parser s)) s of
        None \<Rightarrow> None
      | Some (False, s1) \<Rightarrow> Some (False, Close s1)
      | Some (True, s1) \<Rightarrow>
          let (st, p) = ParseAvailable (parser_Reset (s_parser s1));
              (go, s2) = HandleParseStatus env st (s1\<lparr>s_parser := p\<rparr>)
          in Some (if \<not> go then (False, Close s2) else (True, s2)))"

text \<open>A complete request takes up bytes, so the loop over the pipelined requests ends.\<close>

lemma ParseAvailable_shrinks:
  assumes "ParseAvailable (fresh s) = (GotAll, p)"
  shows "got_all p" "length (pending p) < length s"
proof -
  obtain l q where q: "pending q = s" "parse_headers l q = (GotAll, p)" using ParseAvailable_all [OF assms] by blast
  obtain e r where r: "find_from (crlf @ crlf) (pending q) (l + 2) = Some e" "header_loop e (l + 2) q = (Continue, r)"
      "parse_body e r = (GotAll, p)" using parse_headers_all [OF q(2)] by blast
  have "pending (snd (header_loop e (l + 2) q)) = s" using header_loop_pending q(1) by blast
  then have "pending r = s" unfolding r(2) by simp
  moreover have "e + 4 \<le> length s" using find_from_bounds [OF r(1)] q(1) by (simp add: crlf_def)
  ultimately show "got_all p" "length (pending p) < length s"
    using r(3) by (auto simp: parse_body_def Let_def split: if_splits)
qed

lemma ParseAvailable_got_all: "ParseAvailable (fresh s) = (st, p) \<Longrightarrow> st = Continue \<or> st = GotAll \<Longrightarrow> got_all p \<longleftrightarrow> st = GotAll"
  using ParseAvailable_shrinks(1) [of s p] ParseAvailable_continue [of "fresh s" p] by auto

lemma send_action_parser [kept]: "s_parser (snd (send_action a s)) = s_parser s"
  by (simp add: send_action_def case_prod_beta)

lemma proxy_action_parser [kept]: "proxy_action env req pt s = Some (go, s') \<Longrightarrow> s_parser s' = s_parser s"
  by (auto simp: proxy_action_def after_forward_def Let_def split: option.splits prod.splits ProxyForwardStatus.splits)

lemma ApplyAction_parser [kept]: "ApplyAction env req a s = Some (go, s') \<Longrightarrow> s_parser s' = s_parser s"
  using send_action_parser [of a s] proxy_action_parser
  by (auto simp: ApplyAction_def split: if_splits option.splits)

lemma respond_parser [kept]: "respond env ip req s = Some (go, s') \<Longrightarrow> s_parser s' = s_parser s"
  by (auto simp: respond_def case_prod_beta Let_def dest!: ApplyAction_parser)

lemma serve_one_shrinks:
  assumes "serve_one env ip s = Some (True, s')" "got_all (s_parser s')"
  shows "length (pending (s_parser s')) < length (pending (s_parser s))"
proof -
  obtain s1 where s1: "respond env ip (request (s_parser s)) s = Some (True, s1)"
    using assms(1) by (auto simp: serve_one_def Let_def split: option.splits prod.splits bool.splits if_splits)
  obtain st p where p: "ParseAvailable (fresh (pending (s_parser s))) = (st, p)" by fastforce
  have "s_parser s1 = s_parser s" by (rule respond_parser [OF s1])
  then have "s_parser s' = p" "st = Continue \<or> st = GotAll"
    using assms(1) s1 p by (auto simp: serve_one_def HandleParseStatus_def Let_def split: if_splits prod.splits)
  then show ?thesis using ParseAvailable_got_all [OF p] ParseAvailable_shrinks(2) [of _ p] p assms(2) by auto
qed

function serve_pending :: "gateway_env \<Rightarrow> string \<Rightarrow> session \<Rightarrow> (bool \<times> session) option" where
  "serve_pending env ip s =
     (if \<not> got_all (s_parser s) then Some (True, s)
      else case serve_one env ip s of
        None \<Rightarrow> None
      | Some (False, s1) \<Rightarrow> Some (False, s1)
      | Some (True, s1) \<Rightarrow> serve_pending env ip s1)"
  by pat_completeness auto
termination
  by (relation "measure (\<lambda>(env, ip, s). if got_all (s_parser s) then Suc (length (pending (s_parser s))) else 0)")
    (auto dest: serve_one_shrinks)

declare serve_pending.simps [simp del]

fun serve_reads :: "gateway_env \<Rightarrow> string \<Rightarrow> string option list \<Rightarrow> session \<Rightarrow> session option" where
  "serve_reads env ip [] s = Some (Close s)"
| "serve_reads env ip (None # rs) s = Some (Close s)"
| "serve_reads env ip (Some bytes # rs) s =
     (if bytes = [] then Some (Close s)
      else
        let (st, p) = Feed bytes (s_parser s);
            (go, s1) = HandleParseStatus env st (s\<lparr>s_parser := p\<rparr>)
        in if \<not> go then Some (Close s1)
           else case serve_pending env ip s1 of
             None \<Rightarrow> None
           | Some (False, s2) \<Rightarrow> Some s2
           | Some (True, s2) \<Rightarrow> serve_reads env ip rs s2)"

definition new_session :: "GatewayCore \<Rightarrow> char stream UpstreamStreamPool \<Rightarrow> char stream \<Rightarrow> nat \<Rightarrow> session" where
  "new_session core pool stream t = \<lparr>s_core = core, s_pool = pool, s_client = stream, s_parser = new_HttpParser, s_closed = False,
     s_tick = t, s_wire = []\<rparr>"

definition ServeWithPool ::
    "gateway_env \<Rightarrow> nat \<Rightarrow> string \<Rightarrow> GatewayCore \<Rightarrow> char stream UpstreamStreamPool \<Rightarrow> char stream \<Rightarrow> session option" where
  "ServeWithPool env t ip core pool stream = serve_reads env ip (reads stream) (new_session core pool stream t)"

definition Serve :: "gateway_env \<Rightarrow> nat \<Rightarrow> string \<Rightarrow> GatewayCore \<Rightarrow> PoolConfig \<Rightarrow> char stream \<Rightarrow> session option" where
  "Serve env t ip core cfg stream = ServeWithPool env t ip core (new_UpstreamStreamPool cfg) stream"

section \<open>A connection as a sequence of requests\<close>

text \<open>The specification: the requests one after the other, without bytes or parser, until one ends the connection.\<close>

fun answer_open :: "gateway_env \<Rightarrow> string \<Rightarrow> HttpRequest list \<Rightarrow> session \<Rightarrow> (bool \<times> session) option" where
  "answer_open env ip [] s = Some (True, s)"
| "answer_open env ip (r # rs) s =
     (case respond env ip r s of
        None \<Rightarrow> None
      | Some (False, s1) \<Rightarrow> Some (False, Close s1)
      | Some (True, s1) \<Rightarrow> answer_open env ip rs s1)"

definition answer_all :: "gateway_env \<Rightarrow> string \<Rightarrow> HttpRequest list \<Rightarrow> session \<Rightarrow> session option" where
  "answer_all env ip rs s = map_option (\<lambda>(go, s1). if go then Close s1 else s1) (answer_open env ip rs s)"

lemma answer_open_append:
  "answer_open env ip (rs @ qs) s =
     (case answer_open env ip rs s of
        None \<Rightarrow> None | Some (False, s1) \<Rightarrow> Some (False, s1) | Some (True, s1) \<Rightarrow> answer_open env ip qs s1)"
  by (induction rs arbitrary: s) (auto split: option.splits prod.splits bool.splits)

text \<open>The parser plays no part in the handling of a request.\<close>

definition with_parser :: "HttpParser \<Rightarrow> session \<Rightarrow> session" where "with_parser p s = s\<lparr>s_parser := p\<rparr>"

lemma with_parser_simps [simp]:
  "s_parser (with_parser p s) = p" "with_parser p (with_parser q s) = with_parser p s" "with_parser (s_parser s) s = s"
  "s_core (with_parser p s) = s_core s" "s_tick (with_parser p s) = s_tick s" "s_client (with_parser p s) = s_client s"
  "Close (with_parser p s) = with_parser p (Close s)"
  by (simp_all add: with_parser_def Close_def)

lemma send_action_with: "send_action a (with_parser p s) = apsnd (with_parser p) (send_action a s)"
  by (simp add: send_action_def with_parser_def case_prod_beta)

lemma proxy_action_with: "proxy_action env req pt (with_parser p s) = map_option (apsnd (with_parser p)) (proxy_action env req pt s)"
  by (auto simp: proxy_action_def with_parser_def forward_world_def after_forward_def Let_def
      split: option.splits prod.splits ProxyForwardStatus.splits)

lemma respond_with: "respond env ip req (with_parser p s) = map_option (apsnd (with_parser p)) (respond env ip req s)"
proof -
  obtain a core1 where a: "HandleRequest env (s_tick s) req ip (s_core s) = (a, core1)" by fastforce
  have "(with_parser p s)\<lparr>s_core := core1, s_tick := s_tick s + 8\<rparr> = with_parser p (s\<lparr>s_core := core1, s_tick := s_tick s + 8\<rparr>)"
    by (simp add: with_parser_def)
  then show ?thesis using a send_action_with [of a p] proxy_action_with [of env req _ p]
    by (simp add: respond_def ApplyAction_def split: option.split)
qed

lemma serve_one_with:
  assumes "ParseAvailable (fresh (pending p)) = (st1, p1)" "st1 = Continue \<or> st1 = GotAll"
  shows "serve_one env ip (with_parser p s) =
    (case respond env ip (request p) s of
       None \<Rightarrow> None
     | Some (go, s1) \<Rightarrow> Some (if go then (True, with_parser p1 s1) else (False, with_parser p (Close s1))))"
proof -
  have "(with_parser p s1)\<lparr>s_parser := p1\<rparr> = with_parser p1 s1" for s1 by (simp add: with_parser_def)
  then show ?thesis
    using assms by (cases "respond env ip (request p) s")
      (auto simp: serve_one_def respond_with HandleParseStatus_def split: bool.split)
qed

text \<open>A well-formed request whose request line and header block are within the limits however they arrive.\<close>

definition neat :: "message \<Rightarrow> bool" where
  "neat m \<longleftrightarrow> message_wf m \<and> length (request_line m) < kMaxRequestLine \<and>
     length (lines_text (map header_text (msg_headers m))) + 2 \<le> kMaxHeaderBytes"

definition parsed :: "message \<Rightarrow> HttpParser" where "parsed m = snd (ParseAvailable (fresh (message_text m)))"

lemma neat_limits:
  assumes "neat m"
  shows "head_size (message_text m @ t) \<le> kMaxHeaderBytes" "find_from crlf (message_text m @ t) 0 \<noteq> Some kMaxRequestLine"
proof -
  have wf: "message_wf m" using assms by (simp add: neat_def)
  note pm = parse_message [OF wf refl, where t = t, unfolded fresh_simps]
  have "find_from (crlf @ crlf) (message_text m @ t) (length (request_line m) + 2) =
      Some (length (request_line m) + length (lines_text (map header_text (msg_headers m))))" by (rule pm(3))
  then show "head_size (message_text m @ t) \<le> kMaxHeaderBytes"
    using assms unfolding head_size_def pm(1) by (simp add: neat_def)
  show "find_from crlf (message_text m @ t) 0 \<noteq> Some kMaxRequestLine" unfolding pm(1) using assms by (simp add: neat_def)
qed

lemma neat_parsed:
  assumes "neat m"
  shows "ParseAvailable (fresh (message_text m)) = (GotAll, parsed m)" "pending (parsed m) = []" "got_all (parsed m)"
proof -
  obtain p where p: "Feed (message_text m @ []) new_HttpParser = (GotAll, p)" "pending p = []"
    using parse_print [of m "[]"] assms by (auto simp: neat_def)
  then show all: "ParseAvailable (fresh (message_text m)) = (GotAll, parsed m)" by (simp add: Feed_new parsed_def)
  show "pending (parsed m) = []" using p all by (simp add: Feed_new)
  show "got_all (parsed m)" by (rule ParseAvailable_shrinks(1) [OF all])
qed

lemma neat_whole: "neat m \<Longrightarrow> ParseAvailable (fresh (message_text m @ t)) = (GotAll, with_more t (parsed m))"
  using ParseAvailable_more [of "message_text m" t] neat_limits [of m t] neat_parsed(1) [of m] by simp

lemma neat_start:
  assumes "neat m" "message_text m = s @ t" "t \<noteq> []"
  shows "fst (ParseAvailable (fresh s)) = Continue"
proof (rule ccontr)
  assume "fst (ParseAvailable (fresh s)) \<noteq> Continue"
  from ParseAvailable_more [OF this, of t] have "ParseAvailable (fresh (message_text m)) = apsnd (with_more t) (ParseAvailable (fresh s))"
    using neat_limits [OF assms(1), of "[]"] by (simp add: assms(2))
  then have "parsed m = with_more t (snd (ParseAvailable (fresh s)))" by (simp add: parsed_def)
  then show False using neat_parsed(2) [OF assms(1)] assms(3) by simp
qed

text \<open>Two sessions that differ at most in the parser.\<close>

definition alike :: "(bool \<times> session) option \<Rightarrow> (bool \<times> session) option \<Rightarrow> bool" where
  "alike x y \<longleftrightarrow> map_option (apsnd (with_parser new_HttpParser)) x = map_option (apsnd (with_parser new_HttpParser)) y"

lemma alike_with: "alike x y \<Longrightarrow> alike (map_option (apsnd (with_parser p)) x) y"
  by (cases x; cases y) (auto simp: alike_def)

definition left_over :: "message list \<Rightarrow> string \<Rightarrow> bool" where
  "left_over ms buf \<longleftrightarrow> ms = [] \<or> length buf < length (message_text (hd ms))"

abbreviation texts :: "message list \<Rightarrow> string" where "texts ms \<equiv> concat (map message_text ms)"

abbreviation requests_of :: "message list \<Rightarrow> HttpRequest list" where "requests_of ms \<equiv> map (\<lambda>m. request (parsed m)) ms"

text \<open>The requests that are complete in the buffer are served, the rest of the bytes stays.\<close>

lemma serve_pending_serves:
  assumes "list_all neat ms" "buf @ t = texts ms" "ParseAvailable (fresh buf) = (st, p)"
  shows "(st = Continue \<or> st = GotAll) \<and>
    (\<exists>ks ms' buf'. ms = ks @ ms' \<and> buf' @ t = texts ms' \<and> left_over ms' buf' \<and>
      alike (serve_pending env ip (with_parser p s)) (answer_open env ip (requests_of ks) s) \<and>
      (\<forall>s1. serve_pending env ip (with_parser p s) = Some (True, s1) \<longrightarrow> \<not> got_all (s_parser s1) \<and> pending (s_parser s1) = buf'))"
  using assms
proof (induction ms arbitrary: buf st p s)
  case Nil
  have p: "ParseAvailable (fresh []) = (Continue, fresh [])"
    by (simp add: ParseAvailable_def find_from_def crlf_def)
  then have "st = Continue" "p = fresh []" "buf = []" "t = []" using Nil by simp_all
  then show ?case
    by (intro conjI exI [of _ "[]"]) (simp_all add: left_over_def alike_def serve_pending.simps)
next
  case (Cons m ms)
  have m: "neat m" "list_all neat ms" using Cons.prems(1) by simp_all
  show ?case
  proof (cases "length (message_text m) \<le> length buf")
    case False
    have eq: "message_text m @ texts ms = buf @ t" using Cons.prems(2) by simp
    obtain u where u: "message_text m = buf @ u" using append_longer [OF eq] False by auto
    then have "u \<noteq> []" using False by auto
    then have c: "st = Continue" using neat_start [OF m(1) u] Cons.prems(3) by simp
    have "\<not> got_all p" "pending p = buf" using ParseAvailable_continue [of "fresh buf" p] Cons.prems(3) c by simp_all
    then show ?thesis using c Cons.prems(2) False
      by (intro conjI exI [of _ "[]"] exI [of _ "m # ms"] exI [of _ buf])
        (simp_all add: left_over_def alike_def serve_pending.simps)
  next
    case True
    have "buf @ t = message_text m @ texts ms" using Cons.prems(2) by simp
    then obtain b1 where b1: "buf = message_text m @ b1" "texts ms = b1 @ t" using append_longer True by blast
    then have p: "st = GotAll" "p = with_more b1 (parsed m)" using neat_whole [OF m(1)] Cons.prems(3) by simp_all
    obtain st1 p1 where p1: "ParseAvailable (fresh b1) = (st1, p1)" by fastforce
    note IH = Cons.IH [OF m(2) b1(2) [symmetric] p1]
    have st1: "st1 = Continue \<or> st1 = GotAll" using IH by blast
    have "pending p = b1" "request p = request (parsed m)" using neat_parsed(2) [OF m(1)] by (simp_all add: p(2))
    then have one: "serve_one env ip (with_parser p s) =
        (case respond env ip (request (parsed m)) s of
           None \<Rightarrow> None
         | Some (go, s1) \<Rightarrow> Some (if go then (True, with_parser p1 s1) else (False, with_parser p (Close s1))))"
      using serve_one_with [of p st1 p1 env ip s] p1 st1 by simp
    have got: "got_all p" using neat_parsed(3) [OF m(1)] by (simp add: p(2))
    show ?thesis
    proof (cases "\<exists>s1. respond env ip (request (parsed m)) s = Some (True, s1)")
      case True
      then obtain s1 where s1: "respond env ip (request (parsed m)) s = Some (True, s1)" by blast
      have "serve_pending env ip (with_parser p s) = serve_pending env ip (with_parser p1 s1)"
        using one s1 got by (simp add: serve_pending.simps [of env ip "with_parser p s"])
      moreover obtain ks ms' buf' where k: "ms = ks @ ms'" "buf' @ t = texts ms'" "left_over ms' buf'"
          "alike (serve_pending env ip (with_parser p1 s1)) (answer_open env ip (requests_of ks) s1)"
          "\<forall>s2. serve_pending env ip (with_parser p1 s1) = Some (True, s2) \<longrightarrow> \<not> got_all (s_parser s2) \<and> pending (s_parser s2) = buf'"
        using IH [of s1] by blast
      ultimately show ?thesis using p(1) s1
        by (intro conjI exI [of _ "m # ks"] exI [of _ ms'] exI [of _ buf']) simp_all
    next
      case False
      obtain ks ms' buf' where k: "ms = ks @ ms'" "buf' @ t = texts ms'" "left_over ms' buf'" using IH [of s] by blast
      have "alike (serve_pending env ip (with_parser p s)) (answer_open env ip (requests_of (m # ks)) s) \<and>
          (\<forall>s1. serve_pending env ip (with_parser p s) \<noteq> Some (True, s1))"
        using one got False
        by (cases "respond env ip (request (parsed m)) s")
          (auto simp: serve_pending.simps [of env ip "with_parser p s"] alike_def)
      then show ?thesis using p(1) k
        by (intro conjI exI [of _ "m # ks"] exI [of _ ms'] exI [of _ buf']) simp_all
    qed
  qed
qed

lemma answer_all_append:
  "answer_all env ip (rs @ qs) s =
     (case answer_open env ip rs s of
        None \<Rightarrow> None | Some (go, s1) \<Rightarrow> if go then answer_all env ip qs s1 else Some s1)"
  by (auto simp: answer_all_def answer_open_append split: option.split bool.split)

lemma with_parser_eq: "with_parser p s = with_parser p s' \<Longrightarrow> s = with_parser (s_parser s) s'"
  by (metis with_parser_simps(2,3))

lemma serve_reads_serves:
  "list_all neat ms \<Longrightarrow> \<not> got_all q \<Longrightarrow> pending q @ concat cs = texts ms \<Longrightarrow> left_over ms (pending q) \<Longrightarrow> [] \<notin> set cs \<Longrightarrow>
   map_option (with_parser new_HttpParser) (serve_reads env ip (map Some cs) (with_parser q s)) =
   map_option (with_parser new_HttpParser) (answer_all env ip (requests_of ms) s)"
proof (induction cs arbitrary: ms q s)
  case Nil
  have "ms = []"
  proof (cases ms)
    case (Cons m ms')
    then show ?thesis using Nil(3,4) by (simp add: left_over_def)
  qed
  then show ?case by (simp add: answer_all_def)
next
  case (Cons c cs)
  let ?strip = "with_parser new_HttpParser"
  obtain st p where p: "ParseAvailable (fresh (pending q @ c)) = (st, p)" by fastforce
  have feed: "Feed c q = (st, p)"
    using p Cons.prems(2) ParseAvailable_fresh [of "q\<lparr>pending := pending q @ c\<rparr>"] by (simp add: Feed_def)
  have "(pending q @ c) @ concat cs = texts ms" using Cons.prems(3) by simp
  from serve_pending_serves [OF Cons.prems(1) this p, of env ip s] obtain ks ms' buf'
    where st: "st = Continue \<or> st = GotAll" and k: "ms = ks @ ms'" "buf' @ concat cs = texts ms'" "left_over ms' buf'"
      and al: "alike (serve_pending env ip (with_parser p s)) (answer_open env ip (requests_of ks) s)"
      and rest: "\<forall>s1. serve_pending env ip (with_parser p s) = Some (True, s1) \<longrightarrow> \<not> got_all (s_parser s1) \<and> pending (s_parser s1) = buf'"
    by blast
  have "(with_parser q s)\<lparr>s_parser := p\<rparr> = with_parser p s" by (simp add: with_parser_def)
  then have step: "serve_reads env ip (map Some (c # cs)) (with_parser q s) =
      (case serve_pending env ip (with_parser p s) of None \<Rightarrow> None | Some (go, s2) \<Rightarrow> if go then serve_reads env ip (map Some cs) s2 else Some s2)"
    using Cons.prems(5) feed st by (auto simp: HandleParseStatus_def split: option.split bool.split)
  have ms: "answer_all env ip (requests_of ms) s =
      (case answer_open env ip (requests_of ks) s of None \<Rightarrow> None | Some (go, s1) \<Rightarrow> if go then answer_all env ip (requests_of ms') s1 else Some s1)"
    by (simp add: k(1) answer_all_append)
  show ?case
  proof (cases "serve_pending env ip (with_parser p s)")
    case None
    then have "answer_open env ip (requests_of ks) s = None" using al by (simp add: alike_def)
    then show ?thesis unfolding step ms by (simp add: None)
  next
    case (Some x)
    obtain go s2 where x: "x = (go, s2)" by (cases x)
    then obtain s2' where s2': "answer_open env ip (requests_of ks) s = Some (go, s2')" "?strip s2 = ?strip s2'"
      using al Some by (cases "answer_open env ip (requests_of ks) s") (auto simp: alike_def)
    have "map_option ?strip (serve_reads env ip (map Some cs) s2) = map_option ?strip (answer_all env ip (requests_of ms') s2')" if go
      using Cons.IH [of ms' "s_parser s2" s2'] rest Some x that k Cons.prems(1,5) with_parser_eq [OF s2'(2)] by simp
    then show ?thesis unfolding step ms using Some x s2' by auto
  qed
qed

lemma ServeWithPool_serves:
  assumes "list_all neat ms" "reads stream = map Some cs" "[] \<notin> set cs" "concat cs = concat (map message_text ms)"
  shows "map_option (with_parser new_HttpParser) (ServeWithPool env t ip core pool stream) =
    map_option (with_parser new_HttpParser)
      (answer_all env ip (map (\<lambda>m. request (parsed m)) ms) (new_session core pool stream t))"
proof -
  have new: "new_session core pool stream t = with_parser new_HttpParser (new_session core pool stream t)"
    by (simp add: new_session_def with_parser_def)
  have "left_over ms (pending new_HttpParser)"
    by (cases ms) (simp_all add: left_over_def new_HttpParser_def message_text_def)
  moreover have "\<not> got_all new_HttpParser" "pending new_HttpParser = []" by (simp_all add: new_HttpParser_def)
  ultimately show ?thesis
    using serve_reads_serves [OF assms(1), of new_HttpParser cs env ip "new_session core pool stream t"] assms(2-4)
    unfolding ServeWithPool_def new [symmetric] by simp
qed

text \<open>
  (C1) A connection that carries well-formed requests one after the other, cut into reads in any
  way and pipelined or not, is served exactly as the sequence of these requests: each is
  decided and answered or forwarded completely before the next, until the first that ends
  the connection; the state of the gateway, the pool and the bytes sent to the client are those of the sequence.
\<close>

theorem session_serves_requests:
  assumes "list_all neat ms" "reads stream = map Some cs" "[] \<notin> set cs" "concat cs = concat (map message_text ms)"
  shows "map_option (with_parser new_HttpParser) (ServeWithPool env t ip core pool stream) =
    map_option (with_parser new_HttpParser)
      (answer_all env ip (map (\<lambda>m. request (parsed m)) ms) (new_session core pool stream t))"
  by (rule ServeWithPool_serves [OF assms])

section \<open>The books of the gateway\<close>

definition upstream_books :: "Upstream \<Rightarrow> int list \<times> u64" where
  "upstream_books u = (map active (peers u), active_requests u)"

definition gateway_books :: "GatewayCore \<Rightarrow> (string \<times> int list \<times> u64) list" where
  "gateway_books core = map (apsnd upstream_books) (registry core)"

lemma gateway_books_names: "gateway_books core' = gateway_books core \<Longrightarrow> map fst (registry core') = map fst (registry core)"
  by (drule arg_cong [of _ _ "map fst"]) (simp add: gateway_books_def)

lemma update_upstream_books:
  assumes "distinct (map fst reg)" "registry_Find n reg = Some u" "upstream_books (f u) = upstream_books u"
  shows "map (apsnd upstream_books) (update_upstream n f reg) = map (apsnd upstream_books) reg"
proof -
  have "v = u" if "(n, v) \<in> set reg" for v
    using assms(1,2) that by (simp add: registry_Find_def map_of_eq_Some_iff [OF assms(1)] eq_key_imp_eq_value)
  then show ?thesis using assms(3) by (auto simp: update_upstream_def)
qed

lemma HandleRequest_books:
  assumes "HandleRequest env t req ip core = (a, core')" "distinct (map fst (registry core))"
  shows "gateway_books core' = gateway_books core"
proof -
  obtain ok core1 where l: "limit_request env t ip core = (ok, core1)" by fastforce
  have reg: "registry core1 = registry core"
    using l by (auto simp: limit_request_def Let_def split: option.splits prod.splits)
  have "map (apsnd upstream_books) (update_upstream n (set_circuit_breaker b) (registry core)) = gateway_books core"
    if "registry_Find n (registry core) = Some u" for n b u
    using update_upstream_books [OF assms(2) that] by (simp add: gateway_books_def upstream_books_def set_circuit_breaker_def)
  then show ?thesis
    using assms(1) l reg
    by (auto simp: HandleRequest_def HandleProxyRoute_def gateway_books_def Let_def split: if_splits option.splits prod.splits)
qed

lemma proxy_action_books:
  assumes "proxy_action env req pt s = Some (go, s')" "distinct (map fst (registry (s_core s)))"
  shows "gateway_books (s_core s') = gateway_books (s_core s)"
proof -
  obtain u lb where u: "registry_Find (pt_upstream pt) (registry (s_core s)) = Some u" "r_lb (routes (s_core s) ! pt_route pt) = Some lb"
    using assms(1) by (auto simp: proxy_action_def Let_def split: option.splits)
  let ?env = "(ge_forward env)\<lparr>address := ge_address env (pt_upstream pt)\<rparr>"
  let ?c = "\<lparr>c_request = req, c_ctx = pt_request_ctx pt, c_use_cb = pt_circuit_breaker pt,
    c_forwarded = MakeForwardedContext pt (s_core s)\<rparr>"
  obtain r w where w: "Forward ?env ?c (forward_world u lb s) = (r, w)" by fastforce
  have "upstream_books (w_upstream w) = upstream_books u"
    using Forward_books [of "forward_world u lb s" ?c ?env] w
    by (simp add: settled_def acts_def slots_used_def upstream_books_def forward_world_def)
  then have "map (apsnd upstream_books) (update_upstream (pt_upstream pt) (\<lambda>_. w_upstream w) (registry (s_core s))) =
      map (apsnd upstream_books) (registry (s_core s))"
    by (intro update_upstream_books [OF assms(2) u(1)])
  moreover have "registry (s_core s') = update_upstream (pt_upstream pt) (\<lambda>_. w_upstream w) (registry (s_core s))"
    using assms(1) u w by (auto simp: proxy_action_def after_forward_def Let_def split: ProxyForwardStatus.splits)
  ultimately show ?thesis by (simp add: gateway_books_def)
qed

lemma send_action_core [kept]: "s_core (snd (send_action a s)) = s_core s"
  by (simp add: send_action_def case_prod_beta)

lemma respond_books:
  assumes "respond env ip req s = Some (go, s')" "distinct (map fst (registry (s_core s)))"
  shows "gateway_books (s_core s') = gateway_books (s_core s)"
proof -
  obtain a core1 where a: "HandleRequest env (s_tick s) req ip (s_core s) = (a, core1)" by fastforce
  have b: "gateway_books core1 = gateway_books (s_core s)" by (rule HandleRequest_books [OF a assms(2)])
  let ?s = "s\<lparr>s_core := core1, s_tick := s_tick s + 8\<rparr>"
  have ap: "ApplyAction env req a ?s = Some (go, s')" using assms(1) a by (simp add: respond_def)
  have "distinct (map fst (registry (s_core ?s)))" using gateway_books_names [OF b] assms(2) by simp
  then have "gateway_books (s_core s') = gateway_books (s_core ?s)"
    using ap proxy_action_books [of env req _ ?s go s'] send_action_core [of a ?s]
    by (auto simp: ApplyAction_def split: if_splits option.splits)
  then show ?thesis using b by simp
qed

lemma HandleParseStatus_core [kept]: "s_core (snd (HandleParseStatus env st s)) = s_core s"
  by (simp add: HandleParseStatus_def Let_def case_prod_beta)

lemma Close_core [simp]: "s_core (Close s) = s_core s"
  by (simp add: Close_def)

lemma serve_one_books:
  assumes "serve_one env ip s = Some (go, s')" "distinct (map fst (registry (s_core s)))"
  shows "gateway_books (s_core s') = gateway_books (s_core s)"
proof -
  obtain g s1 where s1: "respond env ip (request (s_parser s)) s = Some (g, s1)"
    using assms(1) by (auto simp: serve_one_def split: option.splits)
  have "s_core s' = s_core s1"
    using assms(1) s1 HandleParseStatus_core [of env _ "s1\<lparr>s_parser := _\<rparr>"]
    by (auto simp: serve_one_def Let_def case_prod_beta split: bool.splits if_splits)
  then show ?thesis using respond_books [OF s1 assms(2)] by simp
qed

lemma serve_pending_books:
  "serve_pending env ip s = Some (go, s') \<Longrightarrow> distinct (map fst (registry (s_core s))) \<Longrightarrow>
   gateway_books (s_core s') = gateway_books (s_core s)"
proof (induction env ip s arbitrary: go s' rule: serve_pending.induct)
  case (1 env ip s)
  show ?case
  proof (cases "got_all (s_parser s)")
    case False
    then show ?thesis using 1(2) by (simp add: serve_pending.simps [of env ip s])
  next
    case True
    then obtain g s1 where s1: "serve_one env ip s = Some (g, s1)"
      using 1(2) by (auto simp: serve_pending.simps [of env ip s] split: option.splits)
    note b = serve_one_books [OF s1 1(3)]
    have "distinct (map fst (registry (s_core s1)))" using gateway_books_names [OF b] 1(3) by simp
    then show ?thesis
      using 1(1) [OF _ s1, of g s1 go s'] 1(2) True s1 b
      by (cases g) (auto simp: serve_pending.simps [of env ip s])
  qed
qed

lemma serve_reads_books:
  "serve_reads env ip rs s = Some s' \<Longrightarrow> distinct (map fst (registry (s_core s))) \<Longrightarrow>
   gateway_books (s_core s') = gateway_books (s_core s)"
proof (induction env ip rs s arbitrary: s' rule: serve_reads.induct)
  case (3 env ip bytes rs s)
  show ?case
  proof (cases "bytes = []")
    case True
    then show ?thesis using 3(2) by auto
  next
    case False
    obtain st p where p: "Feed bytes (s_parser s) = (st, p)" by fastforce
    obtain go s1 where s1: "HandleParseStatus env st (s\<lparr>s_parser := p\<rparr>) = (go, s1)" by fastforce
    have c1: "s_core s1 = s_core s" using HandleParseStatus_core [of env st "s\<lparr>s_parser := p\<rparr>"] s1 by simp
    show ?thesis
    proof (cases go)
      case False
      then show ?thesis using 3(2) \<open>bytes \<noteq> []\<close> p s1 c1 by auto
    next
      case True
      obtain g s2 where s2: "serve_pending env ip s1 = Some (g, s2)"
        using 3(2) \<open>bytes \<noteq> []\<close> p s1 True by (auto split: option.splits)
      have b: "gateway_books (s_core s2) = gateway_books (s_core s)" using serve_pending_books [OF s2] c1 3(3) by simp
      have "distinct (map fst (registry (s_core s2)))" using gateway_books_names [OF b] 3(3) by simp
      then show ?thesis
        using 3(1) [OF \<open>bytes \<noteq> []\<close> p [symmetric] refl s1 [symmetric] refl _ s2 refl] 3(2) \<open>bytes \<noteq> []\<close> p s1 True s2 b
        by (cases g) auto
    qed
  qed
qed auto

subsection \<open>A connection is served to its end\<close>

text \<open>
  Serving stops short (with the dereference of a null pointer) only at a proxy route without a
  strategy, which a route gets that was registered with an unknown algorithm.
\<close>

definition routes_ok :: "GatewayCore \<Rightarrow> bool" where
  "routes_ok core \<longleftrightarrow> (\<forall>r \<in> set (routes core). r_type r = ProxyRoute \<longrightarrow> r_lb r \<noteq> None)"

lemma registry_Find_update:
  "registry_Find n reg \<noteq> None \<Longrightarrow> registry_Find n (update_upstream m f reg) \<noteq> None"
  by (induction reg) (auto simp: registry_Find_def update_upstream_def split: if_splits)

lemma limit_request_kept [kept]:
  assumes "limit_request env t ip core = (ok, core1)"
  shows "registry core1 = registry core" "routes core1 = routes core"
  using assms by (auto simp: limit_request_def Let_def split: option.splits prod.splits)

lemma HandleRequest_target:
  assumes "HandleRequest env t req ip core = (a, core1)" "routes_ok core"
  shows "routes core1 = routes core"
    and "act_kind a = Send \<or> (\<exists>pt. act_proxy a = Some pt \<and> pt_route pt < length (routes core1)
      \<and> r_type (routes core1 ! pt_route pt) = ProxyRoute \<and> registry_Find (pt_upstream pt) (registry core1) \<noteq> None)"
proof -
  obtain ok core0 where l: "limit_request env t ip core = (ok, core0)" by fastforce
  note same = limit_request_kept [OF l]
  have in_range: "i < length (routes core)" if "MatchRoute (rq_path req) (routes core) = Some i" for i
    using route_choice [where path = "rq_path req" and rs = "routes core"] that by simp
  have "routes core1 = routes core \<and> (act_kind a = Send \<or> (\<exists>pt. act_proxy a = Some pt \<and> pt_route pt < length (routes core1)
      \<and> r_type (routes core1 ! pt_route pt) = ProxyRoute \<and> registry_Find (pt_upstream pt) (registry core1) \<noteq> None))"
    using assms(1) l same in_range registry_Find_update
    by (auto simp: HandleRequest_def HandleProxyRoute_def HandleDirectRoute_def SendResponse_def Let_def
        split: if_splits option.splits prod.splits)
  then show "routes core1 = routes core"
    and "act_kind a = Send \<or> (\<exists>pt. act_proxy a = Some pt \<and> pt_route pt < length (routes core1)
      \<and> r_type (routes core1 ! pt_route pt) = ProxyRoute \<and> registry_Find (pt_upstream pt) (registry core1) \<noteq> None)"
    by blast+
qed

lemma proxy_action_total:
  assumes "routes_ok (s_core s)" "pt_route pt < length (routes (s_core s))"
    and "r_type (routes (s_core s) ! pt_route pt) = ProxyRoute" "registry_Find (pt_upstream pt) (registry (s_core s)) \<noteq> None"
  shows "\<exists>x. proxy_action env req pt s = Some x \<and> routes_ok (s_core (snd x))"
proof -
  obtain u where u: "registry_Find (pt_upstream pt) (registry (s_core s)) = Some u" using assms(4) by blast
  obtain lb where lb: "r_lb (routes (s_core s) ! pt_route pt) = Some lb"
    using assms(1-3) unfolding routes_ok_def by (meson nth_mem not_None_eq)
  have "routes_ok (s_core (after_forward pt w s))" for w
    using assms(1) unfolding routes_ok_def after_forward_def Let_def
    by (auto dest!: set_update_subset_insert [THEN subsetD])
  then show ?thesis
    using u lb by (auto simp: proxy_action_def Let_def split: prod.splits ProxyForwardStatus.splits)
qed

lemma respond_total:
  assumes "routes_ok (s_core s)"
  shows "\<exists>x. respond env ip req s = Some x \<and> routes_ok (s_core (snd x))"
proof -
  obtain a core1 where a: "HandleRequest env (s_tick s) req ip (s_core s) = (a, core1)" by fastforce
  let ?s = "s\<lparr>s_core := core1, s_tick := s_tick s + 8\<rparr>"
  note target = HandleRequest_target [OF a assms]
  have ok: "routes_ok (s_core ?s)" using assms target(1) by (simp add: routes_ok_def)
  have "\<exists>x. ApplyAction env req a ?s = Some x \<and> routes_ok (s_core (snd x))"
  proof (cases "act_kind a = Send")
    case True
    then show ?thesis using ok send_action_core [of a ?s] by (cases "send_action a ?s") (simp add: ApplyAction_def)
  next
    case False
    then obtain pt where "act_proxy a = Some pt" "pt_route pt < length (routes core1)"
      "r_type (routes core1 ! pt_route pt) = ProxyRoute" "registry_Find (pt_upstream pt) (registry core1) \<noteq> None"
      using target(2) by blast
    then show ?thesis using False ok proxy_action_total [of ?s pt env req] by (simp add: ApplyAction_def)
  qed
  then show ?thesis using a by (simp add: respond_def)
qed

lemma serve_one_total:
  assumes "routes_ok (s_core s)"
  shows "\<exists>x. serve_one env ip s = Some x \<and> routes_ok (s_core (snd x))"
proof -
  obtain g s1 where s1: "respond env ip (request (s_parser s)) s = Some (g, s1)" "routes_ok (s_core s1)"
    using respond_total [OF assms] by fastforce
  obtain st p where p: "ParseAvailable (parser_Reset (s_parser s1)) = (st, p)" by fastforce
  obtain go s2 where s2: "HandleParseStatus env st (s1\<lparr>s_parser := p\<rparr>) = (go, s2)" by fastforce
  have "s_core s2 = s_core s1" using HandleParseStatus_core [of env st "s1\<lparr>s_parser := p\<rparr>"] s2 by simp
  then show ?thesis using s1 p s2 by (cases g; cases go) (simp_all add: serve_one_def)
qed

lemma serve_pending_total:
  "routes_ok (s_core s) \<Longrightarrow> \<exists>x. serve_pending env ip s = Some x \<and> routes_ok (s_core (snd x))"
proof (induction env ip s rule: serve_pending.induct)
  case (1 env ip s)
  show ?case
  proof (cases "got_all (s_parser s)")
    case False
    then show ?thesis using 1(2) by (simp add: serve_pending.simps [of env ip s])
  next
    case True
    obtain g s1 where s1: "serve_one env ip s = Some (g, s1)" "routes_ok (s_core s1)"
      using serve_one_total [OF 1(2)] by fastforce
    show ?thesis
    proof (cases g)
      case False
      with s1 True show ?thesis by (simp add: serve_pending.simps [of env ip s])
    next
      case g: True
      have "\<exists>x. serve_pending env ip s1 = Some x \<and> routes_ok (s_core (snd x))"
        by (rule 1(1) [of "(g, s1)" g s1]) (use True s1 g in auto)
      with s1 True g show ?thesis by (simp add: serve_pending.simps [of env ip s])
    qed
  qed
qed

lemma serve_reads_total: "routes_ok (s_core s) \<Longrightarrow> \<exists>s'. serve_reads env ip rs s = Some s'"
proof (induction rs arbitrary: s)
  case (Cons r rs)
  show ?case
  proof (cases "r = None \<or> r = Some []")
    case False
    then obtain bytes where r: "r = Some bytes" "bytes \<noteq> []" by auto
    obtain st p where p: "Feed bytes (s_parser s) = (st, p)" by fastforce
    obtain go s1 where s1: "HandleParseStatus env st (s\<lparr>s_parser := p\<rparr>) = (go, s1)" by fastforce
    have "routes_ok (s_core s1)" using Cons.prems HandleParseStatus_core [of env st "s\<lparr>s_parser := p\<rparr>"] s1 by simp
    then obtain g s2 where s2: "serve_pending env ip s1 = Some (g, s2)" "routes_ok (s_core s2)"
      using serve_pending_total by fastforce
    then show ?thesis using r p s1 Cons.IH [OF s2(2)] by (cases g) auto
  qed auto
qed simp

text \<open>
  (C2) Whatever bytes a client sends and however the upstreams behave, when its connection has been
  served the number of active requests of every peer and the number of slots in use of
  every upstream are those before.
\<close>

theorem session_balanced:
  assumes "distinct (map fst (registry core))" "ServeWithPool env t ip core pool stream = Some s'"
  shows "map (\<lambda>(n, u). (n, map active (peers u), active_requests u)) (registry (s_core s')) =
    map (\<lambda>(n, u). (n, map active (peers u), active_requests u)) (registry core)"
proof -
  have eq: "apsnd upstream_books = (\<lambda>(n, u). (n, map active (peers u), active_requests u))"
    by (auto simp: upstream_books_def)
  have "map (apsnd upstream_books) (registry (s_core s')) = map (apsnd upstream_books) (registry core)"
    using serve_reads_books [of env ip "reads stream" "new_session core pool stream t" s'] assms
    by (simp add: ServeWithPool_def gateway_books_def new_session_def)
  then show ?thesis unfolding eq .
qed

section \<open>Error responses\<close>

lemma respond_no_route:
  assumes "rate_limiter (s_core s) = None" "MatchRoute (rq_path req) (routes (s_core s)) = None" "writes (s_client s) = []"
  shows "respond env ip req s =
    Some (True, s\<lparr>s_client := (s_client s)\<lparr>sent := sent (s_client s) @
        ToString (ge_date env (s_tick s + 6)) (ge_order env) (MakeError NotFound ''not found'')\<rparr>, s_tick := s_tick s + 8\<rparr>)"
  using assms
  by (simp add: respond_def HandleRequest_def limit_request_def ApplyAction_def SendResponse_def send_action_def WriteAll_willing)

lemma answer_no_route:
  assumes "rate_limiter (s_core s) = None" "list_all (\<lambda>r. MatchRoute (rq_path r) (routes (s_core s)) = None) rs" "writes (s_client s) = []"
  shows "answer_open env ip rs s =
    Some (True, s\<lparr>s_client := (s_client s)\<lparr>sent := sent (s_client s) @ concat (map (\<lambda>k.
        ToString (ge_date env (s_tick s + 8 * k + 6)) (ge_order env) (MakeError NotFound ''not found'')) [0..<length rs])\<rparr>,
      s_tick := s_tick s + 8 * length rs\<rparr>)"
  using assms
proof (induction rs arbitrary: s)
  case (Cons r rs)
  let ?s = "s\<lparr>s_client := (s_client s)\<lparr>sent := sent (s_client s) @
      ToString (ge_date env (s_tick s + 6)) (ge_order env) (MakeError NotFound ''not found'')\<rparr>, s_tick := s_tick s + 8\<rparr>"
  have r: "respond env ip r s = Some (True, ?s)" by (rule respond_no_route) (use Cons.prems in simp_all)
  have up: "[0..<length (r # rs)] = 0 # map Suc [0..<length rs]" by (simp add: map_Suc_upt upt_conv_Cons del: upt_Suc)
  have "answer_open env ip (r # rs) s = answer_open env ip rs ?s" using r by simp
  also have "\<dots> = Some (True, ?s\<lparr>s_client := (s_client ?s)\<lparr>sent := sent (s_client ?s) @ concat (map (\<lambda>k.
        ToString (ge_date env (s_tick ?s + 8 * k + 6)) (ge_order env) (MakeError NotFound ''not found'')) [0..<length rs])\<rparr>,
      s_tick := s_tick ?s + 8 * length rs\<rparr>)"
    by (rule Cons.IH) (use Cons.prems in simp_all)
  finally show ?case unfolding up by (simp add: comp_def add.assoc)
qed simp

text \<open>
  (C3) A response for an unknown path announces that the connection will be closed, but the
  connection is kept open: any number of such requests on one connection are all answered.
\<close>

theorem error_keeps_connection:
  assumes "list_all neat ms" "reads stream = map Some cs" "[] \<notin> set cs" "concat cs = concat (map message_text ms)"
    and "rate_limiter core = None" "\<forall>m \<in> set ms. MatchRoute (msg_path m) (routes core) = None" "writes stream = []"
  shows "rs_close_connection (MakeError NotFound ''not found'') \<and>
    (\<exists>s'. ServeWithPool env t ip core pool stream = Some s' \<and>
      sent (s_client s') = sent stream @ concat (map (\<lambda>k.
        ToString (ge_date env (t + 8 * k + 6)) (ge_order env) (MakeError NotFound ''not found'')) [0..<length ms]))"
proof -
  let ?s = "new_session core pool stream t"
  have "rq_path (request (parsed m)) = msg_path m" if "m \<in> set ms" for m
  proof -
    have "message_wf m" using assms(1) that by (auto simp: list_all_iff neat_def)
    then show ?thesis using parse_print [of m "[]"] by (auto simp: Feed_new parsed_def)
  qed
  then have "list_all (\<lambda>r. MatchRoute (rq_path r) (routes (s_core ?s)) = None) (requests_of ms)"
    using assms(6) by (auto simp: list_all_iff new_session_def)
  from answer_no_route [OF _ this, of env ip] have "\<exists>s1. answer_open env ip (requests_of ms) ?s = Some (True, s1) \<and>
      sent (s_client s1) = sent stream @ concat (map (\<lambda>k.
        ToString (ge_date env (t + 8 * k + 6)) (ge_order env) (MakeError NotFound ''not found'')) [0..<length ms])"
    using assms(5,7) by (simp add: new_session_def)
  then obtain s1 where open_s1: "answer_open env ip (requests_of ms) ?s = Some (True, s1)"
      and s1: "sent (s_client s1) = sent stream @ concat (map (\<lambda>k.
        ToString (ge_date env (t + 8 * k + 6)) (ge_order env) (MakeError NotFound ''not found'')) [0..<length ms])"
    by blast
  have "answer_all env ip (requests_of ms) ?s = Some (Close s1)" by (simp add: answer_all_def open_s1)
  then obtain s' where s': "ServeWithPool env t ip core pool stream = Some s'" "with_parser new_HttpParser s' = with_parser new_HttpParser (Close s1)"
    using ServeWithPool_serves [OF assms(1-4), of env t ip core pool] by auto
  then have "s_client s' = s_client (Close s1)" by (metis with_parser_simps(6))
  then show ?thesis using s'(1) s1
    by (simp add: Close_def MakeError_def set_body_def set_content_type_def set_status_code_def new_HttpResponse_def)
qed

section \<open>Examples\<close>

lemma demo_neat: "neat demo_message"
  using demo_message_wf
  by (simp add: neat_def demo_message_def request_line_def uri_text_def version_text_def header_text_def kMaxRequestLine_def kMaxHeaderBytes_def)

definition demo_cuts :: "string list" where
  "demo_cuts = [take 9 (message_text demo_message), drop 9 (message_text demo_message) @ message_text demo_message]"

lemma demo_cuts:
  "[] \<notin> set demo_cuts" "concat demo_cuts = concat (map message_text [demo_message, demo_message])"
proof -
  have "message_text demo_message \<noteq> []" by (simp add: message_text_def)
  then show "[] \<notin> set demo_cuts" by (simp add: demo_cuts_def)
  show "concat demo_cuts = concat (map message_text [demo_message, demo_message])"
    unfolding demo_cuts_def by (simp only: list.map concat.simps append_Nil2 append_assoc [symmetric] append_take_drop_id)
qed

definition demo_gateway :: GatewayCore where
  "demo_gateway = core_Get ''/a'' (\<lambda>req resp. Inr (set_body (rq_body req) resp)) (new_GatewayCore demo_gateway_env 0 ''g'' [])"

theorem session_serves_requests_witness:
  "map_option (with_parser new_HttpParser)
     (ServeWithPool demo_gateway_env 0 ''1.2'' demo_gateway (w_pool demo_world) (demo_stream\<lparr>reads := map Some demo_cuts\<rparr>)) =
   map_option (with_parser new_HttpParser)
     (answer_all demo_gateway_env ''1.2'' (map (\<lambda>m. request (parsed m)) [demo_message, demo_message])
       (new_session demo_gateway (w_pool demo_world) (demo_stream\<lparr>reads := map Some demo_cuts\<rparr>) 0))"
  by (rule session_serves_requests [OF _ _ demo_cuts]) (simp_all add: demo_neat)

definition demo_proxy_gateway :: GatewayCore where
  "demo_proxy_gateway = AddProxyRoute ''/a'' ''api'' ''round_robin''
     (new_GatewayCore demo_gateway_env 0 ''g'' [(''api'', demo_group)])"

theorem session_balanced_witness:
  "\<forall>stream. \<exists>s'. ServeWithPool demo_gateway_env 0 ''1.2'' demo_proxy_gateway (w_pool demo_world) stream = Some s' \<and>
     map (\<lambda>(n, u). (n, map active (peers u), active_requests u)) (registry (s_core s')) = [(''api'', [0], 0)]"
proof
  fix stream
  have "routes_ok demo_proxy_gateway"
    by (simp add: routes_ok_def demo_proxy_gateway_def AddProxyRoute_def new_GatewayCore_def CreateLoadBalancer_def)
  then obtain s' where s': "ServeWithPool demo_gateway_env 0 ''1.2'' demo_proxy_gateway (w_pool demo_world) stream = Some s'"
    using serve_reads_total [of "new_session demo_proxy_gateway (w_pool demo_world) stream 0" demo_gateway_env "''1.2''" "reads stream"]
    by (auto simp: ServeWithPool_def new_session_def)
  have reg: "registry demo_proxy_gateway = [(''api'', demo_group)]"
    by (simp add: demo_proxy_gateway_def AddProxyRoute_def new_GatewayCore_def)
  then have "distinct (map fst (registry demo_proxy_gateway))" by simp
  from session_balanced [OF this s'] s' reg
  show "\<exists>s'. ServeWithPool demo_gateway_env 0 ''1.2'' demo_proxy_gateway (w_pool demo_world) stream = Some s' \<and>
     map (\<lambda>(n, u). (n, map active (peers u), active_requests u)) (registry (s_core s')) = [(''api'', [0], 0)]"
    by (simp add: demo_group_def AddPeer_def new_Upstream_def demo_peer_def new_UpstreamPeer_def)
qed

theorem error_keeps_connection_witness:
  "\<exists>s'. ServeWithPool demo_gateway_env 0 ''1.2'' (new_GatewayCore demo_gateway_env 0 ''g'' []) (w_pool demo_world)
       (demo_stream\<lparr>reads := map Some demo_cuts\<rparr>) = Some s' \<and>
     sent (s_client s') = ToString ''today'' id (MakeError NotFound ''not found'') @ ToString ''today'' id (MakeError NotFound ''not found'')"
proof -
  let ?core = "new_GatewayCore demo_gateway_env 0 ''g'' []"
  have "\<forall>m \<in> set [demo_message, demo_message]. MatchRoute (msg_path m) (routes ?core) = None"
    by (simp add: new_GatewayCore_def MatchRoute_def)
  moreover have "rate_limiter ?core = None" "writes (demo_stream\<lparr>reads := map Some demo_cuts\<rparr>) = []"
      "list_all neat [demo_message, demo_message]" by (simp_all add: new_GatewayCore_def demo_stream_def demo_neat)
  ultimately have "rs_close_connection (MakeError NotFound ''not found'') \<and>
      (\<exists>s'. ServeWithPool demo_gateway_env 0 ''1.2'' ?core (w_pool demo_world) (demo_stream\<lparr>reads := map Some demo_cuts\<rparr>) = Some s' \<and>
        sent (s_client s') = sent (demo_stream\<lparr>reads := map Some demo_cuts\<rparr>) @ concat (map (\<lambda>k.
          ToString (ge_date demo_gateway_env (0 + 8 * k + 6)) (ge_order demo_gateway_env) (MakeError NotFound ''not found''))
          [0..<length [demo_message, demo_message]]))"
    by (intro error_keeps_connection [OF _ _ demo_cuts]) simp_all
  then show ?thesis by (simp add: demo_gateway_env_def demo_stream_def)
qed

end
