(* ===== verification/Spec2Isabelle.thy ===== *)
theory Spec2Isabelle
  imports CircuitBreaker BreakerThreads RateLimiter Upstream LoadBalancer Fairness ConsistentHash Maglev Primes Balancers ConnPool HttpParser Router ShardedCache QuadHeap Buffer Session
begin

text \<open>
  Verification of CoroPact, a C++23 networking runtime with an L7 gateway.

  \<^bold>\<open>The program.\<close>  A gateway process accepts client connections.  For each of them a session
  (\<open>gateway_session_service.h\<close>) reads bytes, lets the HTTP parser (\<open>http_parser.cc\<close>) find requests in
  them, and asks the gateway core (\<open>gateway_core.cc\<close>) what to do with each: the core consults the rate
  limiter (\<open>rate_limiter.h\<close>), matches a route, consults the circuit breaker of the route's upstream
  (\<open>circuit_breaker.h\<close>), and answers either with a response (\<open>http_response.cc\<close>) or with an upstream to forward
  to.  Forwarding (\<open>proxy_pass.h\<close>, \<open>proxy_pass.cc\<close>) takes a request slot of the upstream (\<open>upstream.h\<close>), lets a load
  balancer (\<open>load_balancer.h\<close>) choose a peer (\<open>upstream_peer.h\<close>), takes a connection from the pool
  (\<open>upstream_conn_pool.h\<close>) or opens one, writes the rewritten request, relays the response, and
  moves on to another peer when one fails.  Beside this path the runtime offers a router for handlers
  (\<open>router.cc\<close>), caches (\<open>lru_cache.h\<close>, \<open>sharded_lru_cache.h\<close>), a four-ary heap for timers
  (\<open>intrusive_quadheap.h\<close>), a block buffer (\<open>buffer.h\<close>) and stream algorithms (\<open>stream_algorithms.h\<close>).

  \<^bold>\<open>How it is modelled.\<close>  A class is a record (or a datatype), a method a function that returns the
  changed object.  Unsigned 64- and 32-bit values are words and wrap around; a C++ \<open>int\<close> is an integer, with
  the bounds that keep it in range stated where they matter; sizes and positions are natural numbers; a
  \<open>double\<close> is a rational number rounded to 53 bits after every operation.  A pointer to a peer or a
  route is its index, a pointer to an upstream its name.  What the sources get from outside
  is an argument: readings of the clock, random draws, the order in which a hash table is traversed or
  \<open>std::sort\<close> leaves equal keys, the outcome of a connect, the bytes of each read and whether each write
  succeeds.  Errors and undefined steps are values of options and sums.  Loops are recursive
  functions with a measure, or, where the end has to be shown first, partial functions into an option
  type.  No loop runs on fuel.

  \<^bold>\<open>The theories.\<close>

  \<^item> \<open>Prelude\<close>, \<open>Strings\<close>, \<open>StringSearch\<close>, \<open>Doubles\<close>, \<open>Traces\<close>, \<open>CasLoops\<close>: the shared vocabulary.  Machine words
  and runs of calls; decimal numbers; \<open>find\<close> and \<open>substr\<close> of \<open>std::string\<close>; binary64 rounding; the locale
  \<open>refinement\<close> (an implementation that answers as a specification over any calls); the locale
  \<open>cas_cell\<close> (threads that update one atomic cell, by compare-and-swap loops or read-modify-write
  instructions, and whose log of updates replays one call after the other).

  \<^item> \<open>CircuitBreaker\<close>, \<open>BreakerThreads\<close>: \<open>circuit_breaker.h\<close>.  The first has each operation as one uninterrupted
  call and shows that the packed words implement the documented three-state machine, that a probe cycle admits
  no more calls than configured, counting from the OPEN breaker that starts it, and that a lost probe
  does not strand the breaker.  The second has every access to an atomic as a step of its own, for
  any number of threads: one thread at most is in a transition, the visible state follows the diagram, the quota
  holds for all threads together, and a call without interference is the sequential one; a thread that
  tested the timeout of an earlier OPEN period can end a later one.

  \<^item> \<open>RateLimiter\<close>: \<open>rate_limiter.h\<close>.  The bound on what a bucket admits, rounding included; polling that keeps a
  bucket empty; when eviction of a bucket goes unnoticed.

  \<^item> \<open>Upstream\<close>: \<open>upstream.h\<close>, \<open>upstream_peer.h\<close>, \<open>upstream_registry.h\<close>.  Passive health, effective weights, request slots,
  the latter two also under any interleaving.

  \<^item> \<open>MurmurHash\<close>, \<open>LoadBalancer\<close>, \<open>Fairness\<close>, \<open>ConsistentHash\<close>, \<open>Primes\<close>, \<open>Maglev\<close>, \<open>Balancers\<close>: \<open>load_balancer.h\<close> and the two
  hash functions.  The locale \<open>load_balancer\<close> is the contract of \<open>Select\<close>, interpreted for each of the ten
  strategies and for the virtual call over all of them.  Shown: every strategy picks an available peer and
  gives up only when it must (for smooth weighted round robin this rests on a bound on how far running
  weights drift while peers come and go); the shares of weighted strategies; minimal disruption and a never stale
  cache of the ring; a full and balanced Maglev table, built by a loop that ends.

  \<^item> \<open>ConnPool\<close>: \<open>upstream_conn_pool.h\<close>, a refinement of one list of idle streams.

  \<^item> \<open>Http\<close>, \<open>HttpParser\<close>, \<open>Router\<close>, \<open>Timestamp\<close>: \<open>http_types\<close>, \<open>http_request\<close>, \<open>http_response\<close>, \<open>header_utils\<close>, \<open>parse_status\<close>,
  \<open>http_parser\<close>, \<open>router\<close> and \<open>timestamp\<close>.  The header store is a map, a serialised response frames its body, a
  printed request is parsed back, an accepted request ends where it says, cuts into chunks do
  not matter (with the exceptions shown), the trie answers as the table of its routes.

  \<^item> \<open>LruCache\<close>, \<open>ShardedCache\<close>, \<open>QuadHeap\<close>, \<open>Buffer\<close>, \<open>Streams\<close>: \<open>lru_cache.h\<close>, \<open>sharded_lru_cache.h\<close>, \<open>intrusive_quadheap.h\<close>,
  \<open>buffer.h\<close> and \<open>stream_algorithms.h\<close>, as refinements of a list in order of use, a product of caches, a
  priority queue and a queue of bytes.

  \<^item> \<open>ProxyRewrite\<close>, \<open>ProxyForward\<close>, \<open>ProxyRelay\<close>: \<open>proxy_pass.h\<close>, \<open>proxy_pass.cc\<close>, \<open>forwarded_header_context.h\<close>.  What the
  upstream reads is what the client sent; slots and counters taken are given back; a request that
  is not idempotent is written once; a response reaches the client byte for byte but for its \<open>Server\<close>
  header.

  \<^item> \<open>GatewayCore\<close>, \<open>Session\<close>: \<open>gateway_core.h\<close>, \<open>gateway_core.cc\<close>, \<open>fallback_config.h\<close>, \<open>gateway_session_service.h\<close>, on top of all the
  others.  The choice of the route, the rate bound for whole runs, generated identifiers, and for a
  connection: it is served as the sequence of its requests, to its end, with the books of every
  upstream balanced.

  \<^bold>\<open>Bounds.\<close>  Counters of 64 bits are assumed not to wrap within one epoch or run (fewer than $2^{64}$ calls)
  where a theorem says so; the theorems on smooth weighted round robin ask for weights small beside the range of
  \<open>int\<close>; settings of a rate limiter are called exact when rate and burst are whole numbers, the rate divides the
  burst, and the burst in the scaled units of the arithmetic stays below $2^{53}$.  The limits of the parser (8192 bytes of request line, 32 KiB of header
  block, and so on) are those of the sources.

  \<^bold>\<open>Not modelled.\<close>  Coroutines and their scheduler, the epoll and io\_uring back ends, sockets, timers, threads
  and logging: they are the environment that calls the modelled code and performs its reads and
  writes, and their behaviour is that of the operating system.  So one session runs without others in
  between, except for the circuit breaker, request slots and peer weights, whose atomics are treated
  under interleaving; interleavings are sequentially consistent.  Reads are of any size: the fixed buffer of
  4096 bytes a session reads into does not appear.  Memory management (pools, arenas, intrusive lists and
  trees), configuration files, the date format and active health checks are left out; the counter behind generated
  identifiers, static in the sources, is a field of the one core; the time of receipt of a request, which
  nothing reads, is left out.
\<close>

end
